(* ===== verification/Prelude.thy ===== *)
theory Prelude
  imports Main
begin

text \<open>
  What the components share: the collections the proofs draw on, the types that name
  threads, addresses and pointers, faults of C memory accesses, reachability of a
  transition system, and three interfaces.  \<open>safety\<close> is the contract "the invariant
  holds at the start and every step keeps it"; \<open>ranked\<close> adds a measure that bounds the runs; \<open>simulation\<close> is the contract "every
  concrete step is matched by an abstract step or by none".  Every concurrent program of
  the repository is a step relation and interprets one or both.
\<close>

named_theorems model_defs \<open>definitions of the model, for unfolding\<close>
named_theorems inv_simps \<open>rewrite rules for invariants\<close>

type_synonym tid = nat
type_synonym addr = nat
type_synonym ptr = "addr option"

abbreviation NULL :: ptr where
  "NULL \<equiv> None"

definition INT_MIN :: int where
  "INT_MIN = - (2 ^ 31)"

definition INT_MAX :: int where
  "INT_MAX = 2 ^ 31 - 1"

lemma INT_MIN_less_MAX [simp]: "INT_MIN < INT_MAX"
  by (simp add: INT_MIN_def INT_MAX_def)

text \<open>A memory access faults at a null pointer and at an address that is not allocated.\<close>

datatype fault = NullDeref | BadAccess

definition deref :: "(addr \<rightharpoonup> 'a) \<Rightarrow> ptr \<Rightarrow> fault + 'a" where
  "deref h p = (case p of None \<Rightarrow> Inl NullDeref
     | Some a \<Rightarrow> (case h a of None \<Rightarrow> Inl BadAccess | Some n \<Rightarrow> Inr n))"

lemma deref_Some [simp]: "h a = Some n \<Longrightarrow> deref h (Some a) = Inr n"
  by (simp add: deref_def)

lemma deref_None [simp]: "deref h None = Inl NullDeref"
  by (simp add: deref_def)

lemma deref_InrE [elim!]:
  assumes "deref h p = Inr n"
  obtains a where "p = Some a" and "h a = Some n"
  using assms by (auto simp: deref_def split: option.splits)

text \<open>
  Sequencing of computations that may not return (\<open>None\<close>) and may fault (\<open>Inl\<close>).
\<close>

definition andthen :: "('e + 'a) option \<Rightarrow> ('a \<Rightarrow> ('e + 'b) option) \<Rightarrow> ('e + 'b) option" where
  "andthen m f = (case m of None \<Rightarrow> None | Some (Inl e) \<Rightarrow> Some (Inl e) | Some (Inr a) \<Rightarrow> f a)"

lemma andthen_simps [simp]:
  "andthen None f = None"
  "andthen (Some (Inl e)) f = Some (Inl e)"
  "andthen (Some (Inr a)) f = f a"
  by (simp_all add: andthen_def)

lemma andthen_InrE [elim!]:
  assumes "andthen m f = Some (Inr b)"
  obtains a where "m = Some (Inr a)" and "f a = Some (Inr b)"
  using assms by (auto simp: andthen_def split: option.splits sum.splits)

text \<open>
  A linked list in memory: \<open>chain nx p as q\<close> says that from pointer \<open>p\<close> the next
  pointers \<open>nx\<close> (\<open>None\<close> at an address that is not allocated) lead through the
  addresses \<open>as\<close> to pointer \<open>q\<close>.
\<close>

primrec chain :: "(addr \<Rightarrow> ptr option) \<Rightarrow> ptr \<Rightarrow> addr list \<Rightarrow> ptr \<Rightarrow> bool" where
  "chain nx p [] q \<longleftrightarrow> p = q"
| "chain nx p (a # as) q \<longleftrightarrow>
     p = Some a \<and> (case nx a of None \<Rightarrow> False | Some r \<Rightarrow> chain nx r as q)"

lemma chain_Cons [simp]:
  "chain nx p (a # as) q \<longleftrightarrow> p = Some a \<and> (\<exists>r. nx a = Some r \<and> chain nx r as q)"
  by (auto split: option.splits)

declare chain.simps(2) [simp del]

lemma chain_append:
  "chain nx p (as @ bs) q \<longleftrightarrow> (\<exists>r. chain nx p as r \<and> chain nx r bs q)"
  by (induction as arbitrary: p) auto

lemma chain_cong:
  "(\<And>a. a \<in> set as \<Longrightarrow> nx a = nx' a) \<Longrightarrow> chain nx p as q = chain nx' p as q"
  by (induction as arbitrary: p) auto

lemma chain_upd [simp]: "a \<notin> set as \<Longrightarrow> chain (nx(a := r)) p as q = chain nx p as q"
  by (rule chain_cong) auto

lemma chain_alloc: "chain nx p as q \<Longrightarrow> a \<in> set as \<Longrightarrow> nx a \<noteq> None"
  by (induction as arbitrary: p) auto

lemma chain_hd: "chain nx p (a # as) q \<Longrightarrow> p = Some a"
  by simp

lemma chain_snoc:
  "chain nx p (as @ [a]) q \<longleftrightarrow> chain nx p as (Some a) \<and> nx a = Some q"
  by (auto simp: chain_append split: option.splits)

text \<open>Linking \<open>x\<close> in after the last node of \<open>a # us\<close>; unlinking the node \<open>c\<close> after it.\<close>

lemma chain_link_cong:
  assumes "chain nx q (a # us @ c # vs) r" and "distinct (a # us @ c # vs)"
    and "nx' (last (a # us)) = Some (Some x)" and "nx' x = Some (Some c)"
    and "\<And>y. y \<in> set (a # us @ c # vs) \<Longrightarrow> y \<noteq> last (a # us) \<Longrightarrow> nx' y = nx y"
  shows "chain nx' q (a # us @ x # c # vs) r"
  using assms
proof (induction us arbitrary: a q)
  case Nil
  then obtain ra where r: "nx c = Some ra" "chain nx ra vs r" by auto
  have "chain nx' ra vs r" using r(2) Nil
    by (subst chain_cong [where nx' = nx]) auto
  moreover have "nx' c = Some ra" using Nil r by simp
  ultimately show ?case using Nil by simp
next
  case (Cons u us)
  have a: "a \<noteq> last (u # us)" using Cons.prems(2) last_in_set [of "u # us"] by auto
  from Cons.prems(1) obtain p where "q = Some a" "nx a = Some p" "chain nx p (u # us @ c # vs) r"
    by auto
  moreover have "chain nx' p (u # us @ x # c # vs) r"
    using Cons.IH [OF calculation(3)] Cons.prems(2-5) by auto
  moreover have "nx' a = nx a" using Cons.prems(5) [of a] a by auto
  ultimately show ?case by auto
qed

lemma chain_unlink_cong:
  assumes "chain nx q (a # us @ c # vs) r" and "distinct (a # us @ c # vs)"
    and "nx' (last (a # us)) = nx c"
    and "\<And>y. y \<in> set (a # us @ vs) \<Longrightarrow> y \<noteq> last (a # us) \<Longrightarrow> nx' y = nx y"
  shows "chain nx' q (a # us @ vs) r"
  using assms
proof (induction us arbitrary: a q)
  case Nil
  then obtain ra where r: "nx c = Some ra" "chain nx ra vs r" by auto
  have "chain nx' ra vs r" using r(2) Nil
    by (subst chain_cong [where nx' = nx]) auto
  with Nil r show ?case by simp
next
  case (Cons u us)
  have a: "a \<noteq> last (u # us)" using Cons.prems(2) last_in_set [of "u # us"] by auto
  from Cons.prems(1) obtain p where "q = Some a" "nx a = Some p" "chain nx p (u # us @ c # vs) r"
    by auto
  moreover have "chain nx' p (u # us @ vs) r"
    using Cons.IH [OF calculation(3)] Cons.prems(2-4) by auto
  moreover have "nx' a = nx a" using Cons.prems(4) [of a] a by auto
  ultimately show ?case by auto
qed

lemma chain_next:
  assumes "chain nx q (a # us @ c # vs) r"
  shows "nx (last (a # us)) = Some (Some c)"
  using assms by (induction us arbitrary: a q) fastforce+


section \<open>Transition systems\<close>

inductive reach :: "('s \<Rightarrow> bool) \<Rightarrow> ('s \<Rightarrow> 's \<Rightarrow> bool) \<Rightarrow> 's \<Rightarrow> bool"
  for init :: "'s \<Rightarrow> bool" and step :: "'s \<Rightarrow> 's \<Rightarrow> bool" where
  reach_init: "init s \<Longrightarrow> reach init step s"
| reach_step: "reach init step s \<Longrightarrow> step s s' \<Longrightarrow> reach init step s'"

lemma reach_steps:
  assumes "reach init step s" and "step\<^sup>*\<^sup>* s s'"
  shows "reach init step s'"
  using assms(2,1) by (induction rule: rtranclp_induct) (auto intro: reach_step)

definition run :: "('s \<Rightarrow> bool) \<Rightarrow> ('s \<Rightarrow> 's \<Rightarrow> bool) \<Rightarrow> 's list \<Rightarrow> bool" where
  "run init step ss \<longleftrightarrow> ss \<noteq> [] \<and> init (hd ss) \<and> successively step ss"

locale safety =
  fixes init :: "'s \<Rightarrow> bool"
    and step :: "'s \<Rightarrow> 's \<Rightarrow> bool"
    and inv :: "'s \<Rightarrow> bool"
  assumes inv_init: "init s \<Longrightarrow> inv s"
    and inv_step: "inv s \<Longrightarrow> step s s' \<Longrightarrow> inv s'"
begin

lemma reach_inv: "reach init step s \<Longrightarrow> inv s"
  by (induction rule: reach.induct) (auto intro: inv_init inv_step)

lemma steps_inv: "step\<^sup>*\<^sup>* s s' \<Longrightarrow> inv s \<Longrightarrow> inv s'"
  by (induction rule: rtranclp_induct) (auto intro: inv_step)

end

text \<open>
  \<open>ranked\<close> is the contract "every step uses up some of a rank", so that no run is longer
  than the rank of its start and every run can be extended to one that has ended.
\<close>

locale ranked = safety init step inv
  for init :: "'s \<Rightarrow> bool" and step :: "'s \<Rightarrow> 's \<Rightarrow> bool" and inv :: "'s \<Rightarrow> bool" +
  fixes rank :: "'s \<Rightarrow> nat"
  assumes rank_step: "inv s \<Longrightarrow> step s s' \<Longrightarrow> rank s' < rank s"
begin

lemma run_bound: "(step ^^ n) s s' \<Longrightarrow> inv s \<Longrightarrow> inv s' \<and> n + rank s' \<le> rank s"
proof (induction n arbitrary: s')
  case 0
  then show ?case by simp
next
  case (Suc n)
  then obtain t where t: "(step ^^ n) s t" "step t s'" by auto
  with Suc have "inv t" "n + rank t \<le> rank s" by blast+
  with t(2) rank_step inv_step show ?case by fastforce
qed

lemma run_ends: "inv s \<Longrightarrow> \<exists>s'. step\<^sup>*\<^sup>* s s' \<and> (\<nexists>t. step s' t)"
proof (induction "rank s" arbitrary: s rule: less_induct)
  case less
  show ?case
  proof (cases "\<exists>t. step s t")
    case True
    then obtain t where t: "step s t" by blast
    then have "inv t" "rank t < rank s" using less.prems inv_step rank_step by auto
    from less.hyps [OF this(2,1)] t show ?thesis by (meson converse_rtranclp_into_rtranclp)
  qed blast
qed

end

locale simulation =
  fixes init :: "'s \<Rightarrow> bool"
    and step :: "'s \<Rightarrow> 's \<Rightarrow> bool"
    and ainit :: "'a \<Rightarrow> bool"
    and astep :: "'a \<Rightarrow> 'a \<Rightarrow> bool"
    and sim :: "'s \<Rightarrow> 'a \<Rightarrow> bool"
  assumes sim_init: "init s \<Longrightarrow> \<exists>a. ainit a \<and> sim s a"
    and sim_step: "sim s a \<Longrightarrow> step s s' \<Longrightarrow> sim s' a \<or> (\<exists>a'. astep a a' \<and> sim s' a')"
begin

text \<open>
  Runs: the abstract run follows the concrete one moment by moment, standing still where
  the concrete step is not visible.
\<close>

lemma run_sim:
  assumes "run init step ss"
  shows "\<exists>as. run ainit (\<lambda>a b. a = b \<or> astep a b) as \<and> list_all2 sim ss as"
  using assms
proof (induction ss rule: rev_induct)
  case Nil
  then show ?case by (simp add: run_def)
next
  case (snoc s' ss)
  show ?case
  proof (cases "ss = []")
    case True
    with snoc.prems sim_init [of s'] obtain a where "ainit a" "sim s' a" by (auto simp: run_def)
    with True show ?thesis by (intro exI [of _ "[a]"]) (simp add: run_def)
  next
    case False
    with snoc obtain as where as: "run ainit (\<lambda>a b. a = b \<or> astep a b) as" "list_all2 sim ss as"
      by (auto simp: run_def successively_append_iff)
    from as(2) False have ne: "as \<noteq> []" by auto
    from as(2) False ne have "sim (last ss) (last as)"
      by (metis list_all2_lengthD list_all2_nthD2 last_conv_nth diff_less length_greater_0_conv zero_less_one)
    moreover from snoc.prems False have "step (last ss) s'"
      by (auto simp: run_def successively_append_iff)
    ultimately obtain a' where a': "last as = a' \<or> astep (last as) a'" "sim s' a'"
      using sim_step by metis
    with as ne show ?thesis
      by (intro exI [of _ "as @ [a']"]) (auto simp: run_def successively_append_iff list_all2_appendI)
  qed
qed

lemma reach_sim: "reach init step s \<Longrightarrow> \<exists>a. reach ainit astep a \<and> sim s a"
proof (induction rule: reach.induct)
  case (reach_init s)
  then show ?case using sim_init by (blast intro: reach.reach_init)
next
  case (reach_step s s')
  then obtain a where "reach ainit astep a" "sim s a" by blast
  with sim_step [OF _ reach_step.hyps(2)] show ?case
    by (meson reach.reach_step)
qed

end


section \<open>Lists\<close>

text \<open>Consecutive elements of a list, the shape a linked list is read off as.\<close>

definition adj :: "'a list \<Rightarrow> 'a \<Rightarrow> 'a \<Rightarrow> bool" where
  "adj xs a b \<longleftrightarrow> (\<exists>us vs. xs = us @ a # b # vs)"

lemma adjI: "adj (us @ a # b # vs) a b"
  by (auto simp: adj_def)

lemma adjE [elim?]:
  assumes "adj xs a b"
  obtains us vs where "xs = us @ a # b # vs"
  using assms by (auto simp: adj_def)

lemma adj_Nil [simp]: "\<not> adj [] a b"
  by (simp add: adj_def)

lemma adj_single [simp]: "\<not> adj [x] a b"
  by (auto simp: adj_def append_eq_Cons_conv)

lemma adj_Cons2 [simp]: "adj (x # y # zs) a b \<longleftrightarrow> (x = a \<and> y = b) \<or> adj (y # zs) a b"
  by (auto simp: adj_def append_eq_Cons_conv Cons_eq_append_conv)

lemma adj_in_set: "adj xs a b \<Longrightarrow> a \<in> set xs \<and> b \<in> set xs"
  by (auto simp: adj_def)

lemma in_set_tl: "a \<in> set (tl xs) \<Longrightarrow> a \<in> set xs"
  by (cases xs) auto

lemma adj_append:
  "adj (xs @ ys) a b \<longleftrightarrow>
     adj xs a b \<or> adj ys a b \<or> (xs \<noteq> [] \<and> ys \<noteq> [] \<and> last xs = a \<and> hd ys = b)"
proof (induction xs)
  case Nil
  then show ?case by simp
next
  case (Cons x xs)
  then show ?case
    by (cases xs; cases ys) auto
qed

lemma adj_right_unique: "distinct xs \<Longrightarrow> adj xs a b \<Longrightarrow> adj xs a c \<Longrightarrow> b = c"
proof (induction xs)
  case Nil
  then show ?case by simp
next
  case (Cons x xs)
  then show ?case
    by (cases xs) (auto dest: adj_in_set)
qed

lemma adj_Cons_hd: "distinct (x # xs) \<Longrightarrow> \<not> adj (x # xs) a x"
  by (auto simp: adj_def Cons_eq_append_conv)

lemma adj_Cons_hd': "adj (x # xs) a x \<Longrightarrow> x \<notin> set xs \<Longrightarrow> distinct xs \<Longrightarrow> P"
  using adj_Cons_hd by (metis distinct.simps(2))

lemma adj_left_unique: "distinct xs \<Longrightarrow> adj xs a c \<Longrightarrow> adj xs b c \<Longrightarrow> a = b"
proof (induction xs)
  case Nil
  then show ?case by simp
next
  case (Cons x xs)
  then show ?case
    by (cases xs) (auto dest: adj_in_set dest!: adj_Cons_hd')
qed

lemma adj_asym: "distinct xs \<Longrightarrow> adj xs a b \<Longrightarrow> \<not> adj xs b a"
proof (induction xs)
  case Nil
  then show ?case by simp
next
  case (Cons x xs)
  then show ?case by (cases xs) (auto dest: adj_in_set)
qed

lemma adj_neq: "distinct xs \<Longrightarrow> adj xs a b \<Longrightarrow> a \<noteq> b"
  by (auto simp: adj_def)

lemma adj_last: "distinct xs \<Longrightarrow> \<not> adj xs (last xs) b"
proof
  assume d: "distinct xs" and "adj xs (last xs) b"
  then obtain us vs where xs: "xs = us @ last xs # b # vs" by (auto simp: adj_def)
  then have "last xs = last (b # vs)" by (metis last_ConsR last_appendR list.distinct(1))
  then have "last xs \<in> set (b # vs)" by (metis last_in_set list.distinct(1))
  moreover have "last xs \<notin> set (b # vs)" using d xs
    by (metis distinct.simps(2) distinct_append)
  ultimately show False by blast
qed

lemma adj_hd: "distinct xs \<Longrightarrow> \<not> adj xs a (hd xs)"
  by (cases xs) (auto dest!: adj_Cons_hd')

lemma adj_next_ex: "a \<in> set xs \<Longrightarrow> a \<noteq> last xs \<Longrightarrow> \<exists>b. adj xs a b"
proof (induction xs)
  case Nil
  then show ?case by simp
next
  case (Cons x xs)
  then show ?case by (cases xs) auto
qed

lemma chain_adj:
  assumes "\<And>a b. adj (xs @ [z]) a b \<Longrightarrow> nx a = Some (Some b)"
  shows "chain nx (Some (hd (xs @ [z]))) xs (Some z)"
  using assms
proof (induction xs)
  case Nil
  then show ?case by simp
next
  case (Cons x xs)
  have "nx x = Some (Some (hd (xs @ [z])))" using Cons.prems by (cases xs) auto
  moreover have "chain nx (Some (hd (xs @ [z]))) xs (Some z)"
    using Cons.prems by (intro Cons.IH) (cases xs; auto)
  ultimately show ?case by simp
qed

text \<open>Strictly increasing under a key function.\<close>

definition increasing :: "('a \<Rightarrow> int) \<Rightarrow> 'a list \<Rightarrow> bool" where
  "increasing f xs \<longleftrightarrow> sorted_wrt (\<lambda>a b. f a < f b) xs"

lemma increasing_Nil [simp]: "increasing f []"
  by (simp add: increasing_def)

lemma increasing_Cons: "increasing f (x # xs) \<longleftrightarrow> (\<forall>y \<in> set xs. f x < f y) \<and> increasing f xs"
  by (simp add: increasing_def)

lemma increasing_append:
  "increasing f (xs @ ys) \<longleftrightarrow>
     increasing f xs \<and> increasing f ys \<and> (\<forall>x \<in> set xs. \<forall>y \<in> set ys. f x < f y)"
  by (auto simp: increasing_def sorted_wrt_append)

lemma increasing_cong:
  "(\<And>x. x \<in> set xs \<Longrightarrow> f x = g x) \<Longrightarrow> increasing f xs = increasing g xs"
  by (induction xs) (auto simp: increasing_Cons)

lemma increasing_map: "increasing f xs \<longleftrightarrow> sorted_wrt (<) (map f xs)"
  by (simp add: increasing_def sorted_wrt_map)

lemma increasing_inj: "increasing f xs \<Longrightarrow> x \<in> set xs \<Longrightarrow> y \<in> set xs \<Longrightarrow> f x = f y \<Longrightarrow> x = y"
  by (induction xs) (auto simp: increasing_Cons)

lemma increasing_adj: "increasing f xs \<Longrightarrow> adj xs a b \<Longrightarrow> f a < f b"
  by (auto simp: adj_def increasing_append increasing_Cons)

lemma increasing_between:
  assumes "increasing f xs" and "adj xs a b" and "x \<in> set xs"
  shows "f x \<le> f a \<or> f b \<le> f x"
  using assms by (fastforce simp: adj_def increasing_append increasing_Cons)

end
