(* ===== verification/Set_Spec.thy ===== *)
theory Set_Spec
  imports Prelude
begin

text \<open>
  The contract of the three concurrent lists of lab11: a set of keys with three operations,
  each of which takes effect at one instant between its call and its return.  \<open>apply_op\<close>
  is the sequential object, \<open>aset_step\<close> the atomic concurrent object: a thread calls an
  operation, the operation is performed in one step, the thread returns.
\<close>

datatype set_op = Add int | Remove int | Contains int

fun op_key :: "set_op \<Rightarrow> int" where
  "op_key (Add k) = k"
| "op_key (Remove k) = k"
| "op_key (Contains k) = k"

fun apply_op :: "set_op \<Rightarrow> int set \<Rightarrow> bool \<times> int set" where
  "apply_op (Add k) S = (k \<notin> S, insert k S)"
| "apply_op (Remove k) S = (k \<in> S, S - {k})"
| "apply_op (Contains k) S = (k \<in> S, S)"

datatype apc = AIdle | ACalled set_op | ADone set_op bool

record aset_state =
  aset :: "int set"
  apcs :: "tid \<Rightarrow> apc"

definition aset_init :: "aset_state \<Rightarrow> bool" where
  "aset_init a \<longleftrightarrow> aset a = {} \<and> apcs a = (\<lambda>_. AIdle)"

inductive aset_step :: "aset_state \<Rightarrow> aset_state \<Rightarrow> bool" where
  call: "apcs a t = AIdle \<Longrightarrow> aset_step a (a\<lparr>apcs := (apcs a)(t := ACalled op)\<rparr>)"
| perform: "apcs a t = ACalled op \<Longrightarrow> apply_op op (aset a) = (r, S) \<Longrightarrow>
    aset_step a (a\<lparr>aset := S, apcs := (apcs a)(t := ADone op r)\<rparr>)"
| return: "apcs a t = ADone op r \<Longrightarrow> aset_step a (a\<lparr>apcs := (apcs a)(t := AIdle)\<rparr>)"

text \<open>The sequential object run over a history of operations.\<close>

fun run_ops :: "set_op list \<Rightarrow> int set \<Rightarrow> bool list \<times> int set" where
  "run_ops [] S = ([], S)"
| "run_ops (x # xs) S =
     (let (r, S') = apply_op x S; (rs, S'') = run_ops xs S' in (r # rs, S''))"

text \<open>A work item of the input file, the struct \<open>Work\<close> of the three programs.\<close>

record work =
  work_type :: char
  work_value :: int

text \<open>The set operation a work item asks for; any other letter asks for none.\<close>

definition op_of :: "work \<Rightarrow> set_op option" where
  "op_of w =
     (if work_type w = CHR ''A'' then Some (Add (work_value w))
      else if work_type w = CHR ''R'' then Some (Remove (work_value w))
      else if work_type w = CHR ''C'' then Some (Contains (work_value w)) else None)"

definition ops_of :: "work list \<Rightarrow> set_op list" where
  "ops_of ws = List.map_filter op_of ws"

lemma ops_of_simps [simp]:
  "ops_of [] = []"
  "ops_of (w # ws) = (case op_of w of None \<Rightarrow> ops_of ws | Some x \<Rightarrow> x # ops_of ws)"
  by (simp_all add: ops_of_def List.map_filter_def split: option.split)

lemma op_of_key: "op_of w = Some x \<Longrightarrow> op_key x = work_value w"
  by (auto simp: op_of_def split: if_splits)

text \<open>
  An implementation of the set by a state with a representation predicate \<open>rep s ks\<close>
  (the state holds the keys \<open>ks\<close>, in order).  Keys are below \<open>INT_MAX\<close>, the key of the
  tail sentinel.  \<open>good\<close> is what the operations rely on of the memory allocator \<open>m\<close>.
\<close>

fun exec_op ::
  "(int \<Rightarrow> 's \<Rightarrow> (fault + bool \<times> 's) option) \<Rightarrow> (int \<Rightarrow> 's \<Rightarrow> (fault + bool \<times> 's) option) \<Rightarrow>
   (int \<Rightarrow> 's \<Rightarrow> (fault + bool \<times> 's) option) \<Rightarrow> set_op \<Rightarrow> 's \<Rightarrow> (fault + bool \<times> 's) option" where
  "exec_op ad rm ct (Add k) s = ad k s"
| "exec_op ad rm ct (Remove k) s = rm k s"
| "exec_op ad rm ct (Contains k) s = ct k s"

fun exec_ops ::
  "(int \<Rightarrow> 's \<Rightarrow> (fault + bool \<times> 's) option) \<Rightarrow> (int \<Rightarrow> 's \<Rightarrow> (fault + bool \<times> 's) option) \<Rightarrow>
   (int \<Rightarrow> 's \<Rightarrow> (fault + bool \<times> 's) option) \<Rightarrow> set_op list \<Rightarrow> 's \<Rightarrow> (fault + bool list \<times> 's) option" where
  "exec_ops ad rm ct [] s = Some (Inr ([], s))"
| "exec_ops ad rm ct (x # xs) s =
     andthen (exec_op ad rm ct x s) (\<lambda>(r, s').
       andthen (exec_ops ad rm ct xs s') (\<lambda>(rs, s''). Some (Inr (r # rs, s''))))"

locale set_object =
  fixes good :: "'m \<Rightarrow> bool"
    and rep :: "'s \<Rightarrow> int list \<Rightarrow> bool"
    and ad :: "'m \<Rightarrow> int \<Rightarrow> 's \<Rightarrow> (fault + bool \<times> 's) option"
    and rm :: "int \<Rightarrow> 's \<Rightarrow> (fault + bool \<times> 's) option"
    and ct :: "int \<Rightarrow> 's \<Rightarrow> (fault + bool \<times> 's) option"
  assumes rep_sorted: "rep s ks \<Longrightarrow> sorted_wrt (<) ks"
    and ad_ok: "good m \<Longrightarrow> rep s ks \<Longrightarrow> k < INT_MAX \<Longrightarrow>
      \<exists>s' ks'. ad m k s = Some (Inr (k \<notin> set ks, s')) \<and> rep s' ks' \<and> set ks' = insert k (set ks)"
    and rm_ok: "rep s ks \<Longrightarrow> k < INT_MAX \<Longrightarrow>
      \<exists>s' ks'. rm k s = Some (Inr (k \<in> set ks, s')) \<and> rep s' ks' \<and> set ks' = set ks - {k}"
    and ct_ok: "rep s ks \<Longrightarrow> k < INT_MAX \<Longrightarrow> ct k s = Some (Inr (k \<in> set ks, s))"
begin

lemma exec_op_ok:
  assumes "good m" and "rep s ks" and "op_key x < INT_MAX"
  shows "\<exists>s' ks'. exec_op (ad m) rm ct x s = Some (Inr (fst (apply_op x (set ks)), s')) \<and>
           rep s' ks' \<and> set ks' = snd (apply_op x (set ks))"
  using assms ad_ok [of m s ks] rm_ok [of s ks] by (cases x) (fastforce simp: ct_ok)+

lemma exec_ops_ok:
  assumes "good m" and "rep s ks" and "\<forall>x \<in> set xs. op_key x < INT_MAX"
  shows "\<exists>s' ks'. exec_ops (ad m) rm ct xs s = Some (Inr (fst (run_ops xs (set ks)), s')) \<and>
           rep s' ks' \<and> set ks' = snd (run_ops xs (set ks))"
  using assms(2,3)
proof (induction xs arbitrary: s ks)
  case Nil
  then show ?case by auto
next
  case (Cons x xs)
  from exec_op_ok [OF assms(1) Cons.prems(1), of x] Cons.prems(2) obtain s1 ks1 where
    1: "exec_op (ad m) rm ct x s = Some (Inr (fst (apply_op x (set ks)), s1))"
       "rep s1 ks1" "set ks1 = snd (apply_op x (set ks))" by auto
  from Cons.IH [OF 1(2)] Cons.prems(2) obtain s2 ks2 where
    2: "exec_ops (ad m) rm ct xs s1 = Some (Inr (fst (run_ops xs (set ks1)), s2))"
       "rep s2 ks2" "set ks2 = snd (run_ops xs (set ks1))" by auto
  from 1 2 show ?case by (auto simp: Let_def split: prod.splits)
qed

text \<open>The contents are determined by the abstract set: the keys in increasing order.\<close>

lemma rep_unique: "rep s ks \<Longrightarrow> rep s' ks' \<Longrightarrow> set ks = set ks' \<Longrightarrow> ks = ks'"
  by (meson rep_sorted strict_sorted_equal)

end

text \<open>
  The check of the final list in \<open>main\<close>: the nodes after the head sentinel are compared
  with the expected values, and the walk has to end at the tail sentinel.
\<close>

fun validate_from :: "(addr \<rightharpoonup> int \<times> ptr) \<Rightarrow> ptr \<Rightarrow> ptr \<Rightarrow> int list \<Rightarrow> fault + bool" where
  "validate_from h tail it [] = Inr (it = tail)"
| "validate_from h tail it (v # vs) =
     (if it = tail then Inr False
      else case deref h it of
             Inl e \<Rightarrow> Inl e
           | Inr (k, q) \<Rightarrow> if k \<noteq> v then Inr False else validate_from h tail q vs)"

lemma validate_from_chain:
  assumes "chain (\<lambda>a. map_option snd (h a)) p zs (Some z)" and "z \<notin> set zs"
    and "\<And>a. a \<in> set zs \<Longrightarrow> map_option fst (h a) = Some (f a)"
  shows "validate_from h (Some z) p vs = Inr (map f zs = vs)"
  using assms
proof (induction vs arbitrary: p zs)
  case Nil
  then show ?case by (cases zs) auto
next
  case (Cons v vs)
  show ?case
  proof (cases zs)
    case Nil
    with Cons.prems show ?thesis by auto
  next
    case (Cons a as)
    with Cons.prems obtain q where "h a = Some (f a, q)"
      "chain (\<lambda>a. map_option snd (h a)) q as (Some z)" by fastforce
    with Cons Cons.IH [of q as] Cons.prems show ?thesis by auto
  qed
qed

end
