(* ===== verification/Coarse_List.thy ===== *)
theory Coarse_List
  imports Set_Spec
begin

text \<open>
  lab11/coarse_grained.cpp: a sorted linked list between two sentinels, one mutex held
  over the whole of every operation.  Each operation is therefore one step of the program,
  a function on the heap; the schedule is the order in which the threads get the mutex.
  \<open>malloc\<close> is a parameter: it gets the heap and gives an address with its arbitrary
  contents, or fails.  The while loop of the source is \<open>locate\<close>; not returning is \<open>None\<close>.
\<close>

section \<open>The program\<close>

record cnode =
  ckey :: int
  cnext :: ptr

type_synonym cheap = "addr \<rightharpoonup> cnode"
type_synonym calloc = "cheap \<Rightarrow> (addr \<times> cnode) option"

record coarse =
  cheap :: cheap
  chead :: ptr
  ctail :: ptr

definition list_init :: "calloc \<Rightarrow> cheap \<Rightarrow> fault + coarse" where
  "list_init malloc h =
     (case malloc h of
        None \<Rightarrow> Inl NullDeref
      | Some (a, ja) \<Rightarrow>
          (let h1 = h(a \<mapsto> ja\<lparr>ckey := INT_MIN\<rparr>) in
           case malloc h1 of
             None \<Rightarrow> Inl NullDeref
           | Some (b, jb) \<Rightarrow>
               (let h2 = h1(b \<mapsto> jb\<lparr>ckey := INT_MAX, cnext := NULL\<rparr>) in
                Inr \<lparr>cheap = h2(a \<mapsto> (the (h2 a))\<lparr>cnext := Some b\<rparr>),
                     chead = Some a, ctail = Some b\<rparr>)))"

partial_function (option) locate ::
  "cheap \<Rightarrow> int \<Rightarrow> ptr \<Rightarrow> ptr \<Rightarrow> (fault + ptr \<times> ptr) option" where
  "locate h k prev cur =
     (case deref h cur of
        Inl e \<Rightarrow> Some (Inl e)
      | Inr n \<Rightarrow> if ckey n < k then locate h k cur (cnext n) else Some (Inr (prev, cur)))"

definition set_next :: "cheap \<Rightarrow> ptr \<Rightarrow> ptr \<Rightarrow> fault + cheap" where
  "set_next h p q =
     (case p of None \<Rightarrow> Inl NullDeref
      | Some a \<Rightarrow> (case h a of None \<Rightarrow> Inl BadAccess | Some n \<Rightarrow> Inr (h(a \<mapsto> n\<lparr>cnext := q\<rparr>))))"

definition search :: "coarse \<Rightarrow> int \<Rightarrow> (fault + ptr \<times> ptr) option" where
  "search st k = (case deref (cheap st) (chead st) of
     Inl e \<Rightarrow> Some (Inl e)
   | Inr n \<Rightarrow> locate (cheap st) k (chead st) (cnext n))"

definition list_add :: "calloc \<Rightarrow> int \<Rightarrow> coarse \<Rightarrow> (fault + bool \<times> coarse) option" where
  "list_add malloc k st =
     (case malloc (cheap st) of
        None \<Rightarrow> Some (Inl NullDeref)
      | Some (a, j) \<Rightarrow>
          (let st1 = st\<lparr>cheap := (cheap st)(a \<mapsto> j\<lparr>ckey := k\<rparr>)\<rparr> in
           andthen (search st1 k) (\<lambda>(prev, cur).
             andthen (Some (deref (cheap st1) cur)) (\<lambda>c.
               if ckey c = k then Some (Inr (False, st1))
               else
                 andthen (Some (set_next (cheap st1) prev (Some a))) (\<lambda>h2.
                   andthen (Some (set_next h2 (Some a) cur)) (\<lambda>h3.
                     Some (Inr (True, st1\<lparr>cheap := h3\<rparr>))))))))"

definition list_remove :: "int \<Rightarrow> coarse \<Rightarrow> (fault + bool \<times> coarse) option" where
  "list_remove k st =
     andthen (search st k) (\<lambda>(prev, cur).
       andthen (Some (deref (cheap st) cur)) (\<lambda>c.
         if ckey c \<noteq> k then Some (Inr (False, st))
         else
           andthen (Some (set_next (cheap st) prev (cnext c))) (\<lambda>h2.
             Some (Inr (True, st\<lparr>cheap := h2(the cur := None)\<rparr>)))))"

definition list_contains :: "int \<Rightarrow> coarse \<Rightarrow> (fault + bool \<times> coarse) option" where
  "list_contains k st =
     andthen (search st k) (\<lambda>(prev, cur).
       andthen (Some (deref (cheap st) cur)) (\<lambda>c. Some (Inr (ckey c = k, st))))"

text \<open>One turn of the loop of \<open>ThreadFunc\<close>, then the turns in the order of a schedule.\<close>

definition do_work :: "calloc \<Rightarrow> work \<Rightarrow> coarse \<Rightarrow> (fault + bool \<times> coarse) option" where
  "do_work malloc w st =
     (if work_type w = CHR ''A'' then list_add malloc (work_value w) st
      else if work_type w = CHR ''R'' then list_remove (work_value w) st
      else if work_type w = CHR ''C'' then list_contains (work_value w) st
      else Some (Inr (True, st)))"

fun ThreadFunc :: "calloc \<Rightarrow> work list \<Rightarrow> coarse \<Rightarrow> (fault + coarse) option" where
  "ThreadFunc malloc [] st = Some (Inr st)"
| "ThreadFunc malloc (w # ws) st =
     andthen (do_work malloc w st) (\<lambda>(_, st'). ThreadFunc malloc ws st')"

text \<open>
  The list of work items in the order in which the mutex serves them: a schedule names the
  thread that runs next, and each thread takes its own items in order.
\<close>

fun served :: "(tid \<Rightarrow> work list) \<Rightarrow> tid list \<Rightarrow> work list" where
  "served works [] = []"
| "served works (t # ts) =
     (case works t of
        [] \<Rightarrow> served works ts
      | w # ws \<Rightarrow> w # served (works(t := ws)) ts)"

text \<open>The validation loop at the end of \<open>main\<close>.\<close>

definition cells :: "cheap \<Rightarrow> addr \<rightharpoonup> int \<times> ptr" where
  "cells h a = map_option (\<lambda>n. (ckey n, cnext n)) (h a)"

definition validate :: "coarse \<Rightarrow> int list \<Rightarrow> fault + bool" where
  "validate st vs = (case deref (cheap st) (chead st) of
     Inl e \<Rightarrow> Inl e | Inr n \<Rightarrow> validate_from (cells (cheap st)) (ctail st) (cnext n) vs)"

definition main :: "calloc \<Rightarrow> (tid \<Rightarrow> work list) \<Rightarrow> tid list \<Rightarrow> int list \<Rightarrow> (fault + bool) option" where
  "main malloc works sched result =
     andthen (Some (list_init malloc Map.empty)) (\<lambda>st.
       andthen (ThreadFunc malloc (served works sched) st) (\<lambda>st'.
         Some (validate st' result)))"


section \<open>Representation\<close>

definition cnx :: "cheap \<Rightarrow> addr \<Rightarrow> ptr option" where
  "cnx h a = map_option cnext (h a)"

definition kof :: "cheap \<Rightarrow> addr \<Rightarrow> int" where
  "kof h a = (case h a of None \<Rightarrow> 0 | Some n \<Rightarrow> ckey n)"

text \<open>
  \<open>shape h a zs\<close>: the list from the head sentinel \<open>a\<close> through the nodes \<open>zs\<close>, the last
  of which is the tail sentinel, with increasing keys.
\<close>

definition shape :: "cheap \<Rightarrow> addr \<Rightarrow> addr list \<Rightarrow> bool" where
  "shape h a zs \<longleftrightarrow>
     distinct (a # zs) \<and> chain (cnx h) (Some a) (a # zs) NULL \<and> kof h a = INT_MIN \<and>
     zs \<noteq> [] \<and> kof h (last zs) = INT_MAX \<and> increasing (kof h) zs \<and> finite (dom h)"

definition rep :: "coarse \<Rightarrow> int list \<Rightarrow> bool" where
  "rep st ks \<longleftrightarrow> (\<exists>a zs. chead st = Some a \<and> ctail st = Some (last zs) \<and>
     shape (cheap st) a zs \<and> map (kof (cheap st)) zs = ks @ [INT_MAX])"

text \<open>What the program relies on of \<open>malloc\<close>: a block that is not in use.\<close>

definition malloc_ok :: "calloc \<Rightarrow> bool" where
  "malloc_ok malloc \<longleftrightarrow>
     (\<forall>h. finite (dom h) \<longrightarrow> (\<exists>a j. malloc h = Some (a, j) \<and> h a = None))"

lemma cnx_upd [simp]: "cnx (h(a \<mapsto> n)) = (cnx h)(a := Some (cnext n))"
  by (auto simp: cnx_def)

lemma cnx_del [simp]: "cnx (h(a := None)) = (cnx h)(a := None)"
  by (auto simp: cnx_def)

lemma kof_upd [simp]: "kof (h(a \<mapsto> n)) b = (if b = a then ckey n else kof h b)"
  by (simp add: kof_def)

lemma cnx_SomeE:
  assumes "cnx h a = Some r"
  obtains n where "h a = Some n" "cnext n = r" "kof h a = ckey n"
  using assms by (auto simp: cnx_def kof_def)

lemma locate_chain:
  assumes "chain (cnx h) p zs NULL" and "zs \<noteq> []" and "k \<le> kof h (last zs)"
  shows "\<exists>us c vs. zs = us @ c # vs \<and> (\<forall>a \<in> set us. kof h a < k) \<and> k \<le> kof h c \<and>
    locate h k prev p = Some (Inr (if us = [] then prev else Some (last us), Some c))"
  using assms
proof (induction zs arbitrary: p prev)
  case Nil
  then show ?case by simp
next
  case (Cons z zs)
  from Cons.prems(1) obtain r where p: "p = Some z" and r: "cnx h z = Some r"
    and ch: "chain (cnx h) r zs NULL" by (auto split: option.splits)
  from r obtain n where n: "h z = Some n" "cnext n = r" "kof h z = ckey n" by (rule cnx_SomeE)
  show ?case
  proof (cases "ckey n < k")
    case True
    with Cons.prems(3) n have ne: "zs \<noteq> []" by auto
    with Cons.prems(3) have "k \<le> kof h (last zs)" by simp
    from Cons.IH [OF ch ne this, of "Some z"] obtain us c vs where
      *: "zs = us @ c # vs" "\<forall>a \<in> set us. kof h a < k" "k \<le> kof h c"
         "locate h k (Some z) r = Some (Inr (if us = [] then Some z else Some (last us), Some c))"
      by blast
    from *(4) have "locate h k prev p =
        Some (Inr (if us = [] then Some z else Some (last us), Some c))"
      using True n p by (subst locate.simps) simp
    with *(1-3) True n show ?thesis
      by (intro exI [of _ "z # us"] exI [of _ c] exI [of _ vs]) auto
  next
    case False
    then have "locate h k prev p = Some (Inr (prev, Some z))"
      using n p by (subst locate.simps) simp
    with False n show ?thesis
      by (intro exI [of _ "[]"] exI [of _ z] exI [of _ zs]) auto
  qed
qed

text \<open>
  What the search delivers: the nodes split into \<open>us\<close>, all below \<open>k\<close>, and \<open>c # vs\<close>, the
  first of which is not below \<open>k\<close>; the previous node is the last of \<open>us\<close> or the head.
\<close>

lemma search_ok:
  assumes "shape (cheap st) a zs" and "chead st = Some a" and "k \<le> INT_MAX"
  obtains us c vs where "zs = us @ c # vs" and "\<forall>x \<in> set us. kof (cheap st) x < k"
    and "k \<le> kof (cheap st) c" and "search st k = Some (Inr (Some (last (a # us)), Some c))"
proof -
  from assms(1) obtain n where n: "cheap st a = Some n"
    and ch: "chain (cnx (cheap st)) (cnext n) zs NULL"
    by (auto simp: shape_def cnx_def split: option.splits)
  from assms have "k \<le> kof (cheap st) (last zs)" "zs \<noteq> []" by (simp_all add: shape_def)
  from locate_chain [OF ch this(2,1), of "Some a"] obtain us c vs where
    *: "zs = us @ c # vs" "\<forall>x \<in> set us. kof (cheap st) x < k" "k \<le> kof (cheap st) c"
      "locate (cheap st) k (Some a) (cnext n) =
         Some (Inr (if us = [] then Some a else Some (last us), Some c))" by auto
  have "search st k = Some (Inr (Some (last (a # us)), Some c))"
    using * n assms(2) by (simp add: search_def)
  with * that show thesis by blast
qed

lemma kof_other: "kof (h(a \<mapsto> n)) b = (if b = a then ckey n else kof h b)"
  by simp

lemma shape_nodes:
  assumes "shape h a (us @ c # vs)"
  obtains n m where "h (last (a # us)) = Some n" "h c = Some m" "kof h c = ckey m"
    "kof h (last (a # us)) = ckey n"
proof -
  have "cnx h (last (a # us)) = Some (Some c)"
    using assms by (intro chain_next) (auto simp: shape_def)
  moreover have "cnx h c \<noteq> None"
    using assms chain_alloc [of "cnx h" "Some a" "a # us @ c # vs" NULL c] by (simp add: shape_def)
  ultimately show thesis using that by (auto simp: cnx_def kof_def)
qed

lemma shape_dom: "shape h a zs \<Longrightarrow> x \<in> set (a # zs) \<Longrightarrow> h x \<noteq> None"
  using chain_alloc [of "cnx h" "Some a" "a # zs" NULL x] by (auto simp: shape_def cnx_def)

text \<open>Allocating a block does not disturb the list.\<close>

lemma shape_malloc:
  assumes "shape h a zs" and "h x = None"
  shows "shape (h(x \<mapsto> j)) a zs" and "\<And>y. y \<in> set zs \<Longrightarrow> kof (h(x \<mapsto> j)) y = kof h y"
    and "x \<notin> set (a # zs)"
proof -
  show x: "x \<notin> set (a # zs)" using shape_dom [OF assms(1)] assms(2) by blast
  then show k: "kof (h(x \<mapsto> j)) y = kof h y" if "y \<in> set zs" for y using that by auto
  have "increasing (kof (h(x \<mapsto> j))) zs"
    using assms(1) k by (subst increasing_cong [where g = "kof h"]) (auto simp: shape_def)
  with x assms(1) show "shape (h(x \<mapsto> j)) a zs" by (auto simp: shape_def)
qed

text \<open>Linking a node with key \<open>k\<close> in at the place the search found.\<close>

lemma shape_link:
  assumes sh: "shape h a (us @ c # vs)" and x: "x \<notin> set (a # us @ c # vs)"
    and nx: "cnx h' (last (a # us)) = Some (Some x)" "cnx h' x = Some (Some c)"
    and old: "\<And>y. y \<in> set (a # us @ c # vs) \<Longrightarrow> y \<noteq> last (a # us) \<Longrightarrow> cnx h' y = cnx h y"
    and ks: "\<And>y. y \<in> set (a # us @ c # vs) \<Longrightarrow> kof h' y = kof h y" "kof h' x = k"
    and lo: "\<forall>y \<in> set us. kof h y < k" and hi: "k < kof h c" and fin: "finite (dom h')"
  shows "shape h' a (us @ x # c # vs)"
proof -
  have "chain (cnx h') (Some a) (a # us @ x # c # vs) NULL"
    using sh by (intro chain_link_cong [OF _ _ nx old]) (auto simp: shape_def)
  moreover have "increasing (kof h') (us @ c # vs)"
    using sh ks(1) by (subst increasing_cong [where g = "kof h"]) (auto simp: shape_def)
  then have "increasing (kof h') (us @ x # c # vs)"
    using lo hi ks by (auto simp: increasing_append increasing_Cons)
  moreover have "last (c # vs) \<in> set (a # us @ c # vs)" by auto
  then have "kof h' (last (c # vs)) = kof h (last (c # vs))" by (rule ks(1))
  ultimately show ?thesis using sh x ks(1) fin by (simp add: shape_def)
qed

lemma shape_unlink:
  assumes sh: "shape h a (us @ c # vs)" and "vs \<noteq> []"
    and nx: "cnx h' (last (a # us)) = cnx h c"
    and old: "\<And>y. y \<in> set (a # us @ vs) \<Longrightarrow> y \<noteq> last (a # us) \<Longrightarrow> cnx h' y = cnx h y"
    and ks: "\<And>y. y \<in> set (a # us @ vs) \<Longrightarrow> kof h' y = kof h y" and fin: "finite (dom h')"
  shows "shape h' a (us @ vs)"
proof -
  have "chain (cnx h') (Some a) (a # us @ vs) NULL"
    using sh by (intro chain_unlink_cong [OF _ _ nx old]) (auto simp: shape_def)
  moreover have "increasing (kof h) (us @ vs)"
    using sh by (auto simp: shape_def increasing_append increasing_Cons)
  then have "increasing (kof h') (us @ vs)"
    using ks by (subst increasing_cong [where g = "kof h"]) auto
  moreover have "last vs \<in> set (a # us @ vs)" using assms(2) by simp
  then have "kof h' (last vs) = kof h (last vs)" by (rule ks)
  ultimately show ?thesis using sh assms(2) ks fin by (auto simp: shape_def)
qed

lemma repI:
  "chead st = Some a \<Longrightarrow> ctail st = Some (last zs) \<Longrightarrow> shape (cheap st) a zs \<Longrightarrow>
    rep st (map (kof (cheap st)) (butlast zs))"
  unfolding rep_def
  by (intro exI [of _ a] exI [of _ zs])
    (auto simp: shape_def map_butlast, metis append_butlast_last_id last_map list.map_disc_iff)

lemma repE:
  assumes "rep st ks"
  obtains a zs where "chead st = Some a" "ctail st = Some (last zs)" "shape (cheap st) a zs"
    "map (kof (cheap st)) zs = ks @ [INT_MAX]"
  using assms by (auto simp: rep_def)

text \<open>Membership is decided at the node the search stops at.\<close>

lemma found_iff:
  assumes "shape h a (us @ c # vs)" and "map (kof h) (us @ c # vs) = ks @ [INT_MAX]"
    and "\<forall>x \<in> set us. kof h x < k" and "k \<le> kof h c" and "k < INT_MAX"
  shows "kof h c = k \<longleftrightarrow> k \<in> set ks"
proof -
  have "set (ks @ [INT_MAX]) = kof h ` set (us @ c # vs)" using assms(2) by (metis list.set_map)
  then have "k \<in> set ks \<longleftrightarrow> k \<in> kof h ` set (us @ c # vs)" using assms(5)
    by (metis insertE insertI2 list.simps(15) list.set(1) set_append Un_iff empty_iff less_irrefl)
  moreover have "\<forall>x \<in> set vs. kof h c < kof h x"
    using assms(1) by (auto simp: shape_def increasing_append increasing_Cons)
  ultimately show ?thesis using assms(3,4) by fastforce
qed

lemma set_next_Some: "h p = Some n \<Longrightarrow> set_next h (Some p) q = Inr (h(p \<mapsto> n\<lparr>cnext := q\<rparr>))"
  by (simp add: set_next_def)

lemma set_keys:
  assumes "map (kof h) zs = ks @ [INT_MAX]" and "shape h a zs"
  shows "set ks = kof h ` set (butlast zs)"
proof -
  have "map (kof h) (butlast zs) = ks" using assms(1) by (metis butlast_snoc map_butlast)
  then show ?thesis by (metis list.set_map)
qed


section \<open>The operations\<close>

lemma last_pair [simp]: "last (us @ x # c # vs) = last (c # vs)"
  by simp

text \<open>Linking a new node in front of \<open>c\<close> adds its key.\<close>

lemma rep_link:
  assumes st: "chead st = Some a" "ctail st = Some (last zs)"
    and sh: "shape h a zs" and ks: "map (kof h) zs = ks @ [INT_MAX]"
    and zs: "zs = us @ c # vs" "\<forall>y \<in> set us. kof h y < k" "k < kof h c"
    and x: "x \<notin> set (a # zs)" "h x = Some m" "ckey m = k" and n: "h (last (a # us)) = Some n"
    and h': "h' = h(last (a # us) \<mapsto> n\<lparr>cnext := Some x\<rparr>, x \<mapsto> m\<lparr>cnext := Some c\<rparr>)"
  shows "\<exists>ks'. rep (st\<lparr>cheap := h'\<rparr>) ks' \<and> set ks' = insert k (set ks)"
proof -
  have "last (a # us) \<in> set (a # us)" by (rule last_in_set) simp
  then have x': "x \<noteq> last (a # us)" using x(1) zs(1) by auto
  have kk: "kof h' y = kof h y" if "y \<noteq> x" for y using that n by (auto simp: h' kof_def)
  have "shape h' a (us @ x # c # vs)"
  proof (rule shape_link [where h = h and k = k])
    show "shape h a (us @ c # vs)" using sh zs by simp
    show "x \<notin> set (a # us @ c # vs)" using x zs by simp
    show "finite (dom h')" using sh by (simp add: h' shape_def)
  qed (use x' x n zs kk in \<open>auto simp: h'\<close>)
  moreover have "ctail st = Some (last (us @ x # c # vs))" using st zs by simp
  ultimately have rep: "rep (st\<lparr>cheap := h'\<rparr>) (map (kof h') (butlast (us @ x # c # vs)))"
    using repI [of "st\<lparr>cheap := h'\<rparr>" a "us @ x # c # vs"] st by simp
  have "x \<notin> set (butlast zs)" using x(1) by (auto dest: in_set_butlastD)
  then have "kof h' ` set (butlast zs) = kof h ` set (butlast zs)"
    by (intro image_cong refl) (metis kk)
  moreover have "set (butlast (us @ x # c # vs)) = insert x (set (butlast zs))"
    using zs by (auto simp: butlast_append)
  ultimately have "set (map (kof h') (butlast (us @ x # c # vs))) =
      insert (kof h' x) (kof h ` set (butlast zs))" by (simp only: set_map image_insert)
  moreover have "kof h' x = k" using x by (simp add: h')
  ultimately show ?thesis using set_keys [OF ks sh] rep by auto
qed

lemma list_add_ok:
  assumes "malloc_ok malloc" and "rep st ks" and k: "k < INT_MAX"
  shows "\<exists>st' ks'. list_add malloc k st = Some (Inr (k \<notin> set ks, st')) \<and> rep st' ks' \<and>
           set ks' = insert k (set ks)"
proof -
  from assms(2) obtain a zs where st: "chead st = Some a" "ctail st = Some (last zs)"
    and sh: "shape (cheap st) a zs" and ks: "map (kof (cheap st)) zs = ks @ [INT_MAX]" by (rule repE)
  from sh assms(1) obtain x j where m: "malloc (cheap st) = Some (x, j)" "cheap st x = None"
    by (auto simp: malloc_ok_def shape_def)
  define h1 where "h1 = (cheap st)(x \<mapsto> j\<lparr>ckey := k\<rparr>)"
  define st1 where "st1 = st\<lparr>cheap := h1\<rparr>"
  from shape_malloc [OF sh m(2)] have sh1: "shape h1 a zs" and x: "x \<notin> set (a # zs)"
    and k1: "\<And>y. y \<in> set zs \<Longrightarrow> kof h1 y = kof (cheap st) y" by (simp_all add: h1_def)
  have ks1: "map (kof h1) zs = ks @ [INT_MAX]" unfolding ks [symmetric] using k1 by auto
  from search_ok [of st1 a zs k] sh1 st k obtain us c vs where
    s: "zs = us @ c # vs" "\<forall>x \<in> set us. kof h1 x < k" "k \<le> kof h1 c"
       "search st1 k = Some (Inr (Some (last (a # us)), Some c))"
    by (auto simp: st1_def)
  from sh1 obtain n n' where n: "h1 (last (a # us)) = Some n" "h1 c = Some n'" "kof h1 c = ckey n'"
    "kof h1 (last (a # us)) = ckey n" unfolding s(1) by (rule shape_nodes)
  have found: "kof h1 c = k \<longleftrightarrow> k \<in> set ks"
    using found_iff [of h1 a us c vs ks k] sh1 ks1 s k by simp
  have eq: "list_add malloc k st =
      (if ckey n' = k then Some (Inr (False, st1))
       else andthen (Some (set_next h1 (Some (last (a # us))) (Some x)))
         (\<lambda>h2. andthen (Some (set_next h2 (Some x) (Some c)))
           (\<lambda>h3. Some (Inr (True, st1\<lparr>cheap := h3\<rparr>)))))"
    using m s n by (simp add: list_add_def st1_def h1_def Let_def)
  show ?thesis
  proof (cases "k \<in> set ks")
    case True
    then have "list_add malloc k st = Some (Inr (False, st1))" using eq found n by simp
    moreover have "rep st1 ks"
      using st sh1 ks1 by (auto simp: rep_def st1_def)
    ultimately show ?thesis using True by auto
  next
    case False
    define h2 where "h2 = h1(last (a # us) \<mapsto> n\<lparr>cnext := Some x\<rparr>)"
    have "last (a # us) \<in> set (a # us)" by (rule last_in_set) simp
    then have x': "x \<noteq> last (a # us)" using x s(1) by auto
    have hx: "h2 x = Some (j\<lparr>ckey := k\<rparr>)" using x' by (simp add: h2_def h1_def)
    define h3 where "h3 = h2(x \<mapsto> j\<lparr>ckey := k, cnext := Some c\<rparr>)"
    have res: "list_add malloc k st = Some (Inr (True, st1\<lparr>cheap := h3\<rparr>))"
      using eq found n False hx by (simp add: set_next_def h2_def h3_def)
    have "k < kof h1 c" using s found False by auto
    then have "\<exists>ks'. rep (st1\<lparr>cheap := h3\<rparr>) ks' \<and> set ks' = insert k (set ks)"
      by (intro rep_link [OF _ _ sh1 ks1 s(1,2) _ x _ _ n(1), of _ "j\<lparr>ckey := k\<rparr>"])
        (use st in \<open>simp_all add: h3_def h2_def st1_def, simp add: h1_def\<close>)
    with res False show ?thesis by auto
  qed
qed

lemma list_remove_ok:
  assumes "rep st ks" and k: "k < INT_MAX"
  shows "\<exists>st' ks'. list_remove k st = Some (Inr (k \<in> set ks, st')) \<and> rep st' ks' \<and>
           set ks' = set ks - {k}"
proof -
  define h where "h = cheap st"
  from assms(1) obtain a zs where st: "chead st = Some a" "ctail st = Some (last zs)"
    and sh: "shape h a zs" and ks: "map (kof h) zs = ks @ [INT_MAX]" unfolding h_def by (rule repE)
  from search_ok [of st a zs k] sh st k obtain us c vs where
    s: "zs = us @ c # vs" "\<forall>x \<in> set us. kof h x < k" "k \<le> kof h c"
       "search st k = Some (Inr (Some (last (a # us)), Some c))" by (auto simp: h_def)
  from sh obtain n n' where n: "h (last (a # us)) = Some n" "h c = Some n'" "kof h c = ckey n'"
    "kof h (last (a # us)) = ckey n" unfolding s(1) by (rule shape_nodes)
  have found: "kof h c = k \<longleftrightarrow> k \<in> set ks"
    using found_iff [of h a us c vs ks k] sh ks s k by simp
  show ?thesis
  proof (cases "k \<in> set ks")
    case False
    then have "list_remove k st = Some (Inr (False, st))"
      using s n found by (simp add: list_remove_def h_def)
    with False assms(1) show ?thesis by auto
  next
    case True
    define h2 where "h2 = h(last (a # us) \<mapsto> n\<lparr>cnext := cnext n'\<rparr>, c := None)"
    have res: "list_remove k st = Some (Inr (True, st\<lparr>cheap := h2\<rparr>))"
      using s n found True by (simp add: list_remove_def set_next_def h2_def h_def)
    have vs: "vs \<noteq> []" using s sh found True k by (auto simp: shape_def)
    have d: "distinct (a # us @ c # vs)" using sh s by (simp add: shape_def)
    have cl: "c \<noteq> last (a # us)" using d last_in_set [of "a # us"] by auto
    have kk: "kof h2 y = kof h y" if "y \<noteq> c" for y
      using that n by (simp add: h2_def kof_def)
    have "shape h2 a (us @ vs)"
    proof (rule shape_unlink [where h = h and c = c])
      show "shape h a (us @ c # vs)" using sh s by simp
      show "vs \<noteq> []" by (rule vs)
      show "cnx h2 (last (a # us)) = cnx h c" using n cl by (simp add: h2_def cnx_def)
      show "finite (dom h2)" using sh by (simp add: h2_def shape_def)
      show "kof h2 y = kof h y" if "y \<in> set (a # us @ vs)" for y using that d kk [of y] by auto
    qed (use d in \<open>auto simp: h2_def cnx_def\<close>)
    then have rep: "rep (st\<lparr>cheap := h2\<rparr>) (map (kof h2) (butlast (us @ vs)))"
      using repI [of "st\<lparr>cheap := h2\<rparr>" a "us @ vs"] st s vs by simp
    have inc: "increasing (kof h) (us @ c # vs)" using sh s by (simp add: shape_def)
    have "c \<notin> set (butlast (us @ vs))" using d by (auto dest: in_set_butlastD)
    then have "set (map (kof h2) (butlast (us @ vs))) = kof h ` set (butlast (us @ vs))"
      unfolding set_map by (intro image_cong refl) (metis kk)
    moreover have "kof h ` set (butlast zs) = insert k (kof h ` set (butlast (us @ vs)))"
      using s vs found True by (auto simp: butlast_append)
    moreover have "kof h x \<noteq> k" if "x \<in> set (us @ vs)" for x
      using that inc found True by (auto simp: increasing_append increasing_Cons)
    then have "k \<notin> kof h ` set (butlast (us @ vs))" by (metis imageE in_set_butlastD)
    ultimately show ?thesis using set_keys [OF ks sh] rep res True by auto
  qed
qed

lemma list_contains_ok:
  assumes "rep st ks" and k: "k < INT_MAX"
  shows "list_contains k st = Some (Inr (k \<in> set ks, st))"
proof -
  from assms(1) obtain a zs where st: "chead st = Some a" "ctail st = Some (last zs)"
    and sh: "shape (cheap st) a zs" and ks: "map (kof (cheap st)) zs = ks @ [INT_MAX]" by (rule repE)
  from search_ok [OF sh st(1) less_imp_le [OF k]] obtain us c vs where
    s: "zs = us @ c # vs" "\<forall>x \<in> set us. kof (cheap st) x < k" "k \<le> kof (cheap st) c"
       "search st k = Some (Inr (Some (last (a # us)), Some c))" by metis
  from sh obtain n n' where "cheap st c = Some n'" "kof (cheap st) c = ckey n'"
    unfolding s(1) by (rule shape_nodes)
  moreover have "kof (cheap st) c = k \<longleftrightarrow> k \<in> set ks"
    using found_iff [of "cheap st" a us c vs ks k] sh ks s k by simp
  ultimately show ?thesis using s by (simp add: list_contains_def)
qed

interpretation cl: set_object malloc_ok rep list_add list_remove list_contains
proof
  show "rep s ks \<Longrightarrow> sorted_wrt (<) ks" for s ks
    by (erule repE) (auto simp: shape_def increasing_map sorted_wrt_append)
qed (fact list_add_ok list_remove_ok list_contains_ok)+


section \<open>The whole program\<close>

lemma do_work_op:
  "do_work malloc w st = (case op_of w of
     None \<Rightarrow> Some (Inr (True, st))
   | Some x \<Rightarrow> exec_op (list_add malloc) list_remove list_contains x st)"
  by (simp add: do_work_def op_of_def)

lemma ThreadFunc_ok:
  assumes "malloc_ok malloc" and "rep st ks" and "\<forall>w \<in> set ws. work_value w < INT_MAX"
  shows "\<exists>st' ks'. ThreadFunc malloc ws st = Some (Inr st') \<and> rep st' ks' \<and>
           set ks' = snd (run_ops (ops_of ws) (set ks))"
  using assms(2,3)
proof (induction ws arbitrary: st ks)
  case Nil
  then show ?case by auto
next
  case (Cons w ws)
  show ?case
  proof (cases "op_of w")
    case None
    with Cons show ?thesis by (simp add: do_work_op)
  next
    case (Some x)
    with Cons.prems op_of_key have "op_key x < INT_MAX" by auto
    from cl.exec_op_ok [OF assms(1) Cons.prems(1) this] obtain st1 ks1 where
      1: "do_work malloc w st = Some (Inr (fst (apply_op x (set ks)), st1))" "rep st1 ks1"
         "set ks1 = snd (apply_op x (set ks))" using Some by (auto simp: do_work_op)
    with Cons.IH [OF 1(2)] Cons.prems(2) Some show ?thesis
      by (auto simp: Let_def split: prod.splits)
  qed
qed

lemma list_init_ok:
  assumes "malloc_ok malloc"
  shows "\<exists>st. list_init malloc Map.empty = Inr st \<and> rep st []"
proof -
  from assms obtain a ja where 1: "malloc Map.empty = Some (a, ja)"
    unfolding malloc_ok_def by (elim allE [of _ Map.empty]) auto
  define h where "h = Map.empty(a \<mapsto> ja\<lparr>ckey := INT_MIN\<rparr>)"
  from assms obtain b jb where 2: "malloc h = Some (b, jb)" "h b = None"
    unfolding malloc_ok_def by (elim allE [of _ h]) (auto simp: h_def)
  then have ab: "b \<noteq> a" by (auto simp: h_def)
  define h' where "h' = h(b \<mapsto> jb\<lparr>ckey := INT_MAX, cnext := NULL\<rparr>,
    a \<mapsto> ja\<lparr>ckey := INT_MIN, cnext := Some b\<rparr>)"
  have "list_init malloc Map.empty = Inr \<lparr>cheap = h', chead = Some a, ctail = Some b\<rparr>"
    using 1 2 ab by (simp add: list_init_def h_def [symmetric] Let_def h'_def)
      (simp add: h_def)
  moreover have "shape h' a [b]"
    using ab by (simp add: shape_def h'_def h_def increasing_Cons)
  then have "rep \<lparr>cheap = h', chead = Some a, ctail = Some b\<rparr> []"
    using repI [of "\<lparr>cheap = h', chead = Some a, ctail = Some b\<rparr>" a "[b]"] by simp
  ultimately show ?thesis by blast
qed

lemma validate_ok:
  assumes "rep st ks"
  shows "validate st vs = Inr (vs = ks)"
proof -
  from assms obtain a zs where st: "chead st = Some a" "ctail st = Some (last zs)"
    and sh: "shape (cheap st) a zs" and ks: "map (kof (cheap st)) zs = ks @ [INT_MAX]" by (rule repE)
  from sh obtain n where n: "cheap st a = Some n" "chain (cnx (cheap st)) (cnext n) zs NULL"
    "zs \<noteq> []" "distinct zs" by (auto simp: shape_def elim: cnx_SomeE)
  have "map (kof (cheap st)) (butlast zs) = ks" using ks by (metis butlast_snoc map_butlast)
  moreover have "validate_from (cells (cheap st)) (Some (last zs)) (cnext n) vs =
      Inr (map (kof (cheap st)) (butlast zs) = vs)"
  proof (rule validate_from_chain)
    have "chain (cnx (cheap st)) (cnext n) (butlast zs) (Some (last zs))"
      using n(2,3) by (metis append_butlast_last_id chain_snoc)
    then show "chain (\<lambda>a. map_option snd (cells (cheap st) a)) (cnext n) (butlast zs) (Some (last zs))"
      by (rule iffD1 [OF chain_cong, rotated]) (simp add: cells_def cnx_def option.map_comp comp_def)
    show "last zs \<notin> set (butlast zs)"
      using n(3,4) by (metis append_butlast_last_id distinct_append disjoint_insert(2) list.set(2))
    show "map_option fst (cells (cheap st) z) = Some (kof (cheap st) z)" if "z \<in> set (butlast zs)" for z
      using chain_alloc [OF n(2) in_set_butlastD [OF that]] by (auto simp: cells_def cnx_def kof_def)
  qed
  ultimately show ?thesis using n(1) st by (auto simp: validate_def)
qed

lemma set_served: "set (served works sched) \<subseteq> (\<Union>t. set (works t))"
proof (induction works sched rule: served.induct)
  case (1 works)
  then show ?case by simp
next
  case (2 works t ts)
  show ?case
  proof (cases "works t")
    case Nil
    with "2.IH"(1) show ?thesis by simp
  next
    case (Cons w ws)
    have "set ((works(t := ws)) u) \<subseteq> set (works u)" for u using Cons by auto
    then have "(\<Union>u. set ((works(t := ws)) u)) \<subseteq> (\<Union>u. set (works u))" by (rule UN_mono [OF order_refl])
    with "2.IH"(2) [OF Cons] have "set (served (works(t := ws)) ts) \<subseteq> (\<Union>u. set (works u))"
      by (rule order_trans)
    moreover have "w \<in> (\<Union>u. set (works u))" using Cons by (metis UN_I UNIV_I list.set_intros(1))
    ultimately show ?thesis using Cons by simp
  qed
qed

text \<open>A walk off the end of a list that has lost its tail sentinel.\<close>

lemma locate_off_end:
  assumes "chain (cnx h) p zs NULL" and "\<forall>z \<in> set zs. kof h z < k"
  shows "locate h k prev p = Some (Inl NullDeref)"
  using assms
proof (induction zs arbitrary: p prev)
  case Nil
  then show ?case by (subst locate.simps) simp
next
  case (Cons z zs)
  then obtain n where "p = Some z" "h z = Some n" "kof h z = ckey n"
    "chain (cnx h) (cnext n) zs NULL" by (auto elim: cnx_SomeE)
  with Cons show ?case by (subst locate.simps) simp
qed


section \<open>Properties\<close>


definition bump_malloc :: calloc where
  "bump_malloc h = Some (Suc (Max (insert 0 (dom h))), \<lparr>ckey = 7, cnext = Some 99\<rparr>)"

lemma bump_malloc_ok: "malloc_ok bump_malloc"
proof -
  have "h (Suc (Max (insert 0 (dom h)))) = None" if "finite (dom h)" for h :: cheap
  proof (rule ccontr)
    assume "h (Suc (Max (insert 0 (dom h)))) \<noteq> None"
    then have "Suc (Max (insert 0 (dom h))) \<in> insert 0 (dom h)" by auto
    then have "Suc (Max (insert 0 (dom h))) \<le> Max (insert 0 (dom h))"
      using that by (intro Max_ge) auto
    then show False by simp
  qed
  then show ?thesis by (simp add: malloc_ok_def bump_malloc_def)
qed


text \<open>A search for \<open>INT_MAX\<close> stops at the last node; without that node it runs off the list.\<close>

lemma search_tail:
  assumes "shape (cheap st) a zs" and "chead st = Some a"
  obtains us c where "zs = us @ [c]" "kof (cheap st) c = INT_MAX"
    "search st INT_MAX = Some (Inr (Some (last (a # us)), Some c))"
proof -
  from search_ok [of st a zs INT_MAX] assms obtain us c vs where
    s: "zs = us @ c # vs" "\<forall>x \<in> set us. kof (cheap st) x < INT_MAX" "INT_MAX \<le> kof (cheap st) c"
       "search st INT_MAX = Some (Inr (Some (last (a # us)), Some c))" by auto
  have "vs = []"
  proof (rule ccontr)
    assume "vs \<noteq> []"
    then have "last vs \<in> set vs" "last zs = last vs" using s by simp_all
    moreover have "\<forall>y \<in> set vs. kof (cheap st) c < kof (cheap st) y"
      using assms s by (simp add: shape_def increasing_append increasing_Cons)
    ultimately have "kof (cheap st) c < kof (cheap st) (last zs)" by simp
    with assms s show False by (simp add: shape_def)
  qed
  with assms s show thesis by (intro that [of us c]) (simp_all add: shape_def)
qed

lemma chain_without_last:
  assumes ch: "chain (cnx h) (Some a) (a # us @ [c]) NULL" and d: "distinct (a # us @ [c])"
    and n: "h (last (a # us)) = Some n" "h c = Some n'"
  shows "chain (cnx (h(last (a # us) \<mapsto> n\<lparr>cnext := cnext n'\<rparr>, c := None))) (Some a) (a # us) NULL"
    (is "chain (cnx ?h) _ _ _")
proof -
  have cl: "c \<noteq> last (a # us)" using d last_in_set [of "a # us"] by auto
  have "chain (cnx ?h) (Some a) (a # us @ []) NULL"
  proof (rule chain_unlink_cong)
    show "chain (cnx h) (Some a) (a # us @ c # []) NULL" using ch by simp
    show "cnx ?h (last (a # us)) = cnx h c" using n cl by (simp add: cnx_def)
    show "cnx ?h y = cnx h y" if "y \<in> set (a # us @ [])" "y \<noteq> last (a # us)" for y
      using that d by (auto simp: cnx_def)
  qed (use d in simp)
  then show ?thesis by simp
qed

lemma contains_off_end:
  assumes "chead st = Some a" and "chain (cnx (cheap st)) (Some a) (a # us) NULL"
    and "\<forall>z \<in> set us. kof (cheap st) z < k"
  shows "list_contains k st = Some (Inl NullDeref)"
proof -
  from assms(2) obtain m where m: "cheap st a = Some m" "chain (cnx (cheap st)) (cnext m) us NULL"
    by (auto elim: cnx_SomeE)
  from locate_off_end [OF m(2) assms(3), of "Some a"] m assms(1) show ?thesis
    by (simp add: list_contains_def search_def)
qed

text \<open>
  C9: the key \<open>INT_MAX\<close> is not kept out.  Removing it reports success and unlinks the
  tail sentinel itself, whatever the list holds; a later search past the last key then
  dereferences the null pointer.
\<close>

theorem coarse_remove_takes_tail:
  assumes "rep st ks"
  shows "\<exists>st'. list_remove INT_MAX st = Some (Inr (True, st')) \<and> cheap st' (the (ctail st')) = None \<and>
    (\<forall>k. (\<forall>x \<in> set ks. x < k) \<longrightarrow> list_contains k st' = Some (Inl NullDeref))"
proof -
  define h where "h = cheap st"
  from assms(1) obtain a zs where st: "chead st = Some a" "ctail st = Some (last zs)"
    and sh: "shape h a zs" and ks: "map (kof h) zs = ks @ [INT_MAX]" unfolding h_def by (rule repE)
  from search_tail [OF sh [unfolded h_def] st(1)] obtain us c where
    s: "zs = us @ [c]" "kof h c = INT_MAX" "search st INT_MAX = Some (Inr (Some (last (a # us)), Some c))"
    unfolding h_def by metis
  from sh obtain n n' where n: "h (last (a # us)) = Some n" "h c = Some n'" "kof h c = ckey n'"
    unfolding s(1) by (rule shape_nodes)
  have d: "distinct (a # us @ [c])" and ch: "chain (cnx h) (Some a) (a # us @ [c]) NULL"
    using sh s by (simp_all add: shape_def)
  define h2 where "h2 = h(last (a # us) \<mapsto> n\<lparr>cnext := cnext n'\<rparr>, c := None)"
  have res: "list_remove INT_MAX st = Some (Inr (True, st\<lparr>cheap := h2\<rparr>))"
    using s n by (simp add: list_remove_def set_next_def h2_def h_def)
  have "kof h2 x = kof h x" if "x \<in> set us" for x
    using that d n by (auto simp: h2_def kof_def)
  moreover have "map (kof h) us = ks" using ks s by simp
  ultimately have us: "kof h2 ` set us = set ks" by (metis image_cong list.set_map)
  have "list_contains k (st\<lparr>cheap := h2\<rparr>) = Some (Inl NullDeref)" if "\<forall>x \<in> set ks. x < k" for k
  proof (rule contains_off_end [of _ a us])
    show "\<forall>z \<in> set us. kof (cheap (st\<lparr>cheap := h2\<rparr>)) z < k" using that us by auto
  qed (use st chain_without_last [OF ch d n(1,2), folded h2_def] in simp_all)
  moreover have "h2 (the (ctail st)) = None" using st s by (simp add: h2_def)
  ultimately show ?thesis using res by auto
qed

theorem coarse_remove_takes_tail_witness:
  "\<exists>st st'. list_init bump_malloc Map.empty = Inr st \<and> list_remove INT_MAX st = Some (Inr (True, st')) \<and>
     list_contains 5 st' = Some (Inl NullDeref)"
  using list_init_ok [OF bump_malloc_ok] coarse_remove_takes_tail [of _ "[]"] by fastforce

end
