(* ===== verification/Locked_List.thy ===== *)
theory Locked_List
  imports Set_Spec
begin

text \<open>
  What lab11/fine_grained.cpp and lab11/optimistic.cpp share: the node with its own mutex, the
  global list, the state of the threads and the elementary updates.  A mutex is the thread
  that holds it.  The type \<open>'pc\<close> of program counters is the only difference of the two
  states.  The second half says how a sorted chain of nodes represents a set of keys.
\<close>

section \<open>State\<close>

record fnode =
  fkey :: int
  fnext :: ptr
  fowner :: "tid option"

type_synonym fheap = "addr \<rightharpoonup> fnode"

record 'pc locked =
  fheap :: fheap
  fhead :: addr
  ftail :: addr
  fpcs :: "tid \<Rightarrow> 'pc"
  ftodo :: "tid \<Rightarrow> work list"

definition set_owner :: "fheap \<Rightarrow> addr \<Rightarrow> tid option \<Rightarrow> fheap" where
  "set_owner h a u = (case h a of None \<Rightarrow> h | Some n \<Rightarrow> h(a \<mapsto> n\<lparr>fowner := u\<rparr>))"

definition set_next :: "fheap \<Rightarrow> addr \<Rightarrow> ptr \<Rightarrow> fheap" where
  "set_next h a p = (case h a of None \<Rightarrow> h | Some n \<Rightarrow> h(a \<mapsto> n\<lparr>fnext := p\<rparr>))"

definition goto :: "'pc locked \<Rightarrow> tid \<Rightarrow> 'pc \<Rightarrow> 'pc locked" where
  "goto s t pc = s\<lparr>fpcs := (fpcs s)(t := pc)\<rparr>"

text \<open>The check of the final list against the expected values in \<open>main\<close>.\<close>

definition cells :: "fheap \<Rightarrow> addr \<rightharpoonup> int \<times> ptr" where
  "cells h a = map_option (\<lambda>n. (fkey n, fnext n)) (h a)"

definition validate :: "'pc locked \<Rightarrow> int list \<Rightarrow> fault + bool" where
  "validate s vs = (case deref (fheap s) (Some (fhead s)) of
     Inl e \<Rightarrow> Inl e | Inr n \<Rightarrow> validate_from (cells (fheap s)) (Some (ftail s)) (fnext n) vs)"


section \<open>Accessors\<close>

definition key :: "'pc locked \<Rightarrow> addr \<Rightarrow> int" where
  "key s a = (case fheap s a of None \<Rightarrow> 0 | Some n \<Rightarrow> fkey n)"

definition nxt :: "'pc locked \<Rightarrow> addr \<Rightarrow> ptr option" where
  "nxt s a = map_option fnext (fheap s a)"

definition owner :: "'pc locked \<Rightarrow> addr \<Rightarrow> tid option" where
  "owner s a = (case fheap s a of None \<Rightarrow> None | Some n \<Rightarrow> fowner n)"

text \<open>
  The arguments of a running operation: the key is below that of the tail sentinel, and an
  add carries its node.  \<open>below s x p\<close>: the walk for the key of \<open>x\<close> may be at \<open>p\<close>.
\<close>

definition new_ok :: "'pc locked \<Rightarrow> set_op \<Rightarrow> ptr \<Rightarrow> bool" where
  "new_ok s x nd \<longleftrightarrow> op_key x < INT_MAX \<and>
     (case x of Add k \<Rightarrow> (\<exists>a. nd = Some a \<and> key s a = k) | _ \<Rightarrow> nd = NULL)"

definition below :: "'pc locked \<Rightarrow> set_op \<Rightarrow> addr \<Rightarrow> bool" where
  "below s x p \<longleftrightarrow> p = fhead s \<or> key s p < op_key x"

definition todo_ok :: "'pc locked \<Rightarrow> bool" where
  "todo_ok s \<longleftrightarrow> (\<forall>t. \<forall>w \<in> set (ftodo s t). work_value w < INT_MAX)"

definition keys_below_max :: "(tid \<Rightarrow> work list) \<Rightarrow> bool" where
  "keys_below_max works \<longleftrightarrow> (\<forall>t. \<forall>w \<in> set (works t). work_value w < INT_MAX)"

text \<open>How the accessors see the updates the steps make.\<close>

lemma goto_simps [simp]:
  "fheap (goto s t pc) = fheap s" "fhead (goto s t pc) = fhead s" "ftail (goto s t pc) = ftail s"
  "fpcs (goto s t pc) = (fpcs s)(t := pc)" "ftodo (goto s t pc) = ftodo s"
  "key (goto s t pc) = key s" "nxt (goto s t pc) = nxt s" "owner (goto s t pc) = owner s"
  "new_ok (goto s t pc) = new_ok s" "below (goto s t pc) = below s"
  by (auto simp: goto_def key_def nxt_def owner_def new_ok_def below_def fun_eq_iff split: set_op.split)

lemma set_owner_simps [simp]:
  "key (s\<lparr>fheap := set_owner (fheap s) a u\<rparr>) = key s"
  "nxt (s\<lparr>fheap := set_owner (fheap s) a u\<rparr>) = nxt s"
  "dom (set_owner h a u) = dom h"
  "fheap s a \<noteq> None \<Longrightarrow> owner (s\<lparr>fheap := set_owner (fheap s) a u\<rparr>) = (owner s)(a := u)"
  by (auto simp: set_owner_def key_def nxt_def owner_def fun_eq_iff split: option.splits)

lemma set_next_simps [simp]:
  "key (s\<lparr>fheap := set_next (fheap s) a p\<rparr>) = key s"
  "owner (s\<lparr>fheap := set_next (fheap s) a p\<rparr>) = owner s"
  "dom (set_next h a p) = dom h"
  "fheap s a \<noteq> None \<Longrightarrow> nxt (s\<lparr>fheap := set_next (fheap s) a p\<rparr>) = (nxt s)(a := Some p)"
  by (auto simp: set_next_def key_def nxt_def owner_def fun_eq_iff split: option.splits)

lemma new_ok_cong: "key s' = key s \<Longrightarrow> new_ok s' = new_ok s"
  by (auto simp: new_ok_def fun_eq_iff split: set_op.splits)

lemma below_cong: "key s' = key s \<Longrightarrow> fhead s' = fhead s \<Longrightarrow> below s' = below s"
  by (auto simp: below_def fun_eq_iff)

lemma key_Some [simp]: "fheap s a = Some n \<Longrightarrow> key s a = fkey n"
  by (simp add: key_def)

lemma owner_dom: "owner s a = Some t \<Longrightarrow> fheap s a \<noteq> None"
  by (auto simp: owner_def split: option.splits)

lemma todo_tail: "todo_ok s \<Longrightarrow> ftodo s t = w # ws \<Longrightarrow> todo_ok (s\<lparr>ftodo := (ftodo s)(t := ws)\<rparr>)"
  unfolding todo_ok_def by simp (metis list.set_intros(2))

lemma todo_goto [simp]: "todo_ok (goto s t pc) = todo_ok s"
  by (simp add: todo_ok_def)

lemma todo_heap [simp]: "todo_ok (s\<lparr>fheap := h\<rparr>) = todo_ok s"
  by (simp add: todo_ok_def)

lemma free_own: "fheap s a = Some n \<Longrightarrow> fowner n = None \<Longrightarrow> owner s a = None"
  by (simp add: owner_def)


section \<open>The set of keys\<close>

text \<open>The contents are the keys between the sentinels; the abstract state of the atomic set.\<close>

definition contents :: "addr list \<Rightarrow> 'pc locked \<Rightarrow> int set" where
  "contents xs s = key s ` (set (tl xs) - {ftail s})"

lemma contents_simps [simp]:
  "contents xs (goto s t pc) = contents xs s"
  "contents xs (s\<lparr>fheap := set_next (fheap s) a p\<rparr>) = contents xs s"
  "contents xs (s\<lparr>fheap := set_owner (fheap s) a u\<rparr>) = contents xs s"
  "contents xs (s\<lparr>ftodo := f\<rparr>) = contents xs s"
  by (simp_all add: contents_def, simp add: key_def)

definition abs_list :: "('pc \<Rightarrow> apc) \<Rightarrow> addr list \<Rightarrow> 'pc locked \<Rightarrow> aset_state" where
  "abs_list f xs s = \<lparr>aset = contents xs s, apcs = (\<lambda>t. f (fpcs s t))\<rparr>"

lemma abs_simps [simp]:
  "aset (abs_list f xs s) = contents xs s" "apcs (abs_list f xs s) t = f (fpcs s t)"
  by (simp_all add: abs_list_def)

lemma abs_eqI:
  assumes "contents ys s' = S" and "fpcs s' = (fpcs s)(t := pc)"
  shows "abs_list f ys s' = (abs_list f xs s)\<lparr>aset := S, apcs := (apcs (abs_list f xs s))(t := f pc)\<rparr>"
  using assms by (auto simp: abs_list_def fun_eq_iff)

lemma abs_same:
  assumes "contents xs s' = contents xs s" and "fpcs s' = (fpcs s)(t := pc)"
  shows "abs_list f xs s' = (abs_list f xs s)\<lparr>apcs := (apcs (abs_list f xs s))(t := f pc)\<rparr>"
  using assms by (auto simp: abs_list_def fun_eq_iff)

lemma abs_stutter:
  assumes "contents xs s' = contents xs s" and "fpcs s' = (fpcs s)(t := pc)"
    and "f pc = f (fpcs s t)"
  shows "abs_list f xs s' = abs_list f xs s"
  using assms by (auto simp: abs_list_def fun_eq_iff)

lemma abs_perform:
  assumes "f (fpcs s t) = ACalled x" and "fpcs s' = (fpcs s)(t := pc)" and "f pc = ADone x r"
    and "apply_op x (contents xs s) = (r, contents ys s')"
  shows "aset_step (abs_list f xs s) (abs_list f ys s')"
  using assms abs_eqI [OF refl assms(2), of f ys xs] aset_step.perform [of "abs_list f xs s" t x]
  by simp

lemma abs_call:
  assumes "f (fpcs s t) = AIdle" and "fpcs s' = (fpcs s)(t := pc)" and "f pc = ACalled x"
    and "contents xs s' = contents xs s"
  shows "aset_step (abs_list f xs s) (abs_list f xs s')"
  using assms abs_same [OF assms(4,2)] aset_step.call [of "abs_list f xs s" t x]
  by simp

lemma abs_return:
  assumes "f (fpcs s t) = ADone x r" and "fpcs s' = (fpcs s)(t := pc)" and "f pc = AIdle" and "contents xs s' = contents xs s"
  shows "aset_step (abs_list f xs s) (abs_list f xs s')"
  using assms abs_same [OF assms(4,2)] aset_step.return [of "abs_list f xs s" t x]
  by simp

text \<open>A sorted sequence of nodes from the head sentinel to the tail sentinel.\<close>

definition sorted_nodes :: "addr list \<Rightarrow> 'pc locked \<Rightarrow> bool" where
  "sorted_nodes xs s \<longleftrightarrow> distinct xs \<and> xs \<noteq> [] \<and> hd xs = fhead s \<and> last xs = ftail s \<and>
     key s (fhead s) = INT_MIN \<and> key s (ftail s) = INT_MAX \<and> increasing (key s) (tl xs)"

lemma sorted_ends:
  assumes "sorted_nodes xs s"
  shows "distinct xs" "hd xs = fhead s" "last xs = ftail s" "fhead s \<noteq> ftail s" "fhead s \<in> set xs"
    "ftail s \<in> set xs" "key s (fhead s) = INT_MIN" "key s (ftail s) = INT_MAX"
  using assms INT_MIN_less_MAX hd_in_set [of xs] last_in_set [of xs]
  by (auto simp: sorted_nodes_def simp del: INT_MIN_less_MAX)

text \<open>Up to the previous node, the head sentinel aside, all keys are below the key searched.\<close>

lemma below_prefix:
  assumes inv: "sorted_nodes xs s" and xs: "xs = us @ p # vs" and "below s x p"
  shows "\<forall>a \<in> set (tl (us @ [p])). key s a < op_key x"
proof (cases us)
  case Nil
  then show ?thesis by simp
next
  case (Cons b us')
  with xs sorted_ends(1,2) [OF inv] have "p \<noteq> fhead s" by auto
  with assms(3) have "key s p < op_key x" by (simp add: below_def)
  moreover from inv xs Cons have "increasing (key s) (us' @ p # vs)"
    by (simp add: sorted_nodes_def)
  ultimately show ?thesis using Cons by (fastforce simp: increasing_append increasing_Cons)
qed

text \<open>The order of the keys when a node goes in between \<open>p\<close> and \<open>c\<close>, and when one goes out.\<close>

lemma sorted_link:
  assumes srt: "sorted_nodes xs s" and xs: "xs = us @ p # c # vs" and x: "x \<notin> set xs"
    and "below s y p" and kx: "key s x = op_key y" "key s x < key s c"
  shows "sorted_nodes (us @ p # x # c # vs) s"
proof -
  have tl: "tl xs = tl (us @ [p]) @ c # vs" "tl (us @ p # x # c # vs) = tl (us @ [p]) @ x # c # vs"
    using xs by (cases us; simp)+
  have "increasing (key s) (tl xs)" using srt by (simp add: sorted_nodes_def)
  moreover have "\<forall>a \<in> set (tl (us @ [p])). key s a < key s x"
    using below_prefix [OF srt xs assms(4)] kx(1) by simp
  ultimately have "increasing (key s) (tl (us @ p # x # c # vs))"
    using kx(2) unfolding tl by (fastforce simp: increasing_append increasing_Cons)
  moreover have "hd (us @ p # x # c # vs) = hd xs" "last (us @ p # x # c # vs) = last xs"
    "distinct (us @ p # x # c # vs)"
    using xs sorted_ends(1) [OF srt] x by (auto simp: hd_append)
  ultimately show ?thesis using sorted_ends [OF srt] by (simp add: sorted_nodes_def)
qed

lemma sorted_unlink:
  assumes srt: "sorted_nodes xs s" and xs: "xs = us @ p # c # d # vs"
  shows "sorted_nodes (us @ p # d # vs) s"
proof -
  have "increasing (key s) (tl xs)" using srt by (simp add: sorted_nodes_def)
  then have "increasing (key s) (tl (us @ p # d # vs))" using xs
    by (cases us) (auto simp: increasing_append increasing_Cons)
  moreover have "hd (us @ p # d # vs) = hd xs" "last (us @ p # d # vs) = last xs" "distinct (us @ p # d # vs)"
    using xs sorted_ends(1) [OF srt] by (auto simp: hd_append)
  ultimately show ?thesis using sorted_ends [OF srt] by (simp add: sorted_nodes_def)
qed

lemma adj_link:
  assumes "distinct (us @ p # x # c # vs)" and "adj (us @ p # x # c # vs) a b"
  shows "(a = p \<and> b = x) \<or> (a = x \<and> b = c) \<or> (a \<noteq> p \<and> adj (us @ p # c # vs) a b)"
  using assms by (auto simp: adj_append dest: adj_in_set split: if_splits)

lemma adj_unlink:
  assumes "distinct (us @ p # c # d # vs)" and "adj (us @ p # d # vs) a b"
  shows "(a = p \<and> b = d) \<or> (a \<noteq> p \<and> adj (us @ p # c # d # vs) a b)"
  using assms by (auto simp: adj_append dest: adj_in_set split: if_splits)

text \<open>At the place the walk found, the key is in the set exactly if it is the key of \<open>curr\<close>.\<close>

lemma found_contents:
  assumes inv: "sorted_nodes xs s" and pc: "below s x p" "adj xs p c" "op_key x < INT_MAX"
    and n: "fheap s c = Some n" "op_key x \<le> fkey n"
  shows "op_key x \<in> contents xs s \<longleftrightarrow> fkey n = op_key x"
proof -
  from pc obtain us vs where xs: "xs = us @ p # c # vs" by (auto simp: adj_def)
  have inc: "increasing (key s) (tl xs)" using inv by (simp add: sorted_nodes_def)
  have tl: "tl xs = tl (us @ [p]) @ c # vs" using xs by (cases us) auto
  have "fkey n = op_key x \<Longrightarrow> c \<noteq> ftail s" using sorted_ends(8) [OF inv] n pc by auto
  moreover have "\<forall>a \<in> set (tl (us @ [p])). key s a < op_key x"
    by (rule below_prefix [OF inv xs pc(1)])
  moreover have "\<forall>a \<in> set vs. fkey n < key s a"
    using inc n unfolding tl by (auto simp: increasing_append increasing_Cons)
  ultimately have "(\<exists>a \<in> set (tl xs). a \<noteq> ftail s \<and> key s a = op_key x) \<longleftrightarrow> fkey n = op_key x"
    using n unfolding tl by auto
  then show ?thesis unfolding contents_def by force
qed

lemma linked_contents:
  assumes "sorted_nodes xs s" and "xs = us @ p # c # vs" and "x \<notin> set xs"
  shows "contents (us @ p # x # c # vs) s = insert (key s x) (contents xs s)"
proof -
  have "set (tl (us @ p # x # c # vs)) = insert x (set (tl xs))"
    using assms(2) by (cases us) auto
  moreover have "x \<noteq> ftail s" using assms sorted_ends(6) by metis
  ultimately show ?thesis by (auto simp: contents_def)
qed

lemma unlinked_contents:
  assumes inv: "sorted_nodes xs s" and xs: "xs = us @ p # c # d # vs"
  shows "contents (us @ p # d # vs) s = contents xs s - {key s c}"
proof -
  have inc: "increasing (key s) (tl xs)" using inv by (simp add: sorted_nodes_def)
  have c: "c \<in> set (tl xs)" using xs by (cases us) auto
  have "set (tl (us @ p # d # vs)) = set (tl xs) - {c}"
    using xs sorted_ends(1) [OF inv] by (cases us) auto
  moreover have "ftail s = last (d # vs)" using sorted_ends(3) [OF inv] xs by simp
  then have "ftail s \<in> set (d # vs)" using last_in_set [of "d # vs"] by (metis list.distinct(1))
  then have "c \<noteq> ftail s" using sorted_ends(1) [OF inv] xs by auto
  ultimately show ?thesis
    using increasing_inj [OF inc _ c] by (auto simp: contents_def)
qed

text \<open>A list whose next pointers follow the sequence passes the check for its own contents only.\<close>

lemma sorted_validate:
  assumes inv: "sorted_nodes xs s" and nx: "\<And>a b. adj xs a b \<Longrightarrow> nxt s a = Some (Some b)"
    and dom: "set xs \<subseteq> dom (fheap s)"
  shows "validate s vs = Inr (vs = sorted_list_of_set (contents xs s))"
proof -
  note ends = sorted_ends [OF inv]
  have "xs \<noteq> []" "hd xs \<noteq> last xs" using inv ends by (auto simp: sorted_nodes_def)
  then obtain ys where xs: "xs = fhead s # ys @ [ftail s]"
    using ends(2,3) by (metis append_butlast_last_id last_ConsL last_ConsR list.collapse)
  have "chain (nxt s) (Some (hd (ys @ [ftail s]))) ys (Some (ftail s))"
    using nx unfolding xs by (intro chain_adj) (cases ys; auto)
  moreover have "nxt s (fhead s) = Some (Some (hd (ys @ [ftail s])))"
    using nx unfolding xs by (cases ys) auto
  ultimately obtain n where n: "fheap s (fhead s) = Some n" "chain (nxt s) (fnext n) ys (Some (ftail s))"
    by (auto simp: nxt_def)
  have "validate_from (cells (fheap s)) (Some (ftail s)) (fnext n) vs = Inr (map (key s) ys = vs)"
  proof (rule validate_from_chain)
    show "chain (\<lambda>a. map_option snd (cells (fheap s) a)) (fnext n) ys (Some (ftail s))"
      using n(2) by (rule iffD1 [OF chain_cong, rotated]) (simp add: cells_def nxt_def option.map_comp comp_def)
    show "ftail s \<notin> set ys" using ends(1) xs by auto
    show "map_option fst (cells (fheap s) a) = Some (key s a)" if "a \<in> set ys" for a
      using dom that xs by (auto simp: cells_def key_def)
  qed
  moreover have "increasing (key s) ys"
    using inv xs by (auto simp: sorted_nodes_def increasing_append)
  then have "map (key s) ys = sorted_list_of_set (set (map (key s) ys))"
    by (simp add: increasing_map strict_sorted_iff sorted_list_of_set.idem_if_sorted_distinct del: set_map)
  moreover have "set (map (key s) ys) = contents xs s"
    using xs ends(1) by (auto simp: contents_def)
  ultimately show ?thesis using n(1) by (auto simp: validate_def)
qed

end
