(* ===== verification/Fine_List.thy ===== *)
theory Fine_List
  imports Locked_List
begin

text \<open>
  lab11/fine_grained.cpp: the same sorted list with one mutex per node, taken hand over
  hand.  The program is a step relation: every rule is one visible action of one thread
  (locking, unlocking, reading or writing a next pointer, freeing), so any interleaving of
  the threads is a run.  A mutex is the thread that holds it.  The program counter \<open>fpc\<close>
  carries the local variables \<open>node\<close>, \<open>prev\<close> and \<open>curr\<close> of the operation.
\<close>

section \<open>The program\<close>

datatype fpc =
    FIdle
  | Enter set_op ptr \<comment> \<open>about to lock the head sentinel; the node of an add\<close>
  | HeldPrev set_op ptr addr \<comment> \<open>\<open>prev\<close> is locked, about to read its next pointer\<close>
  | WaitCurr set_op ptr addr ptr \<comment> \<open>\<open>prev\<close> is locked, about to lock \<open>curr\<close>\<close>
  | Looking set_op ptr addr addr \<comment> \<open>both are locked, about to test the key of \<open>curr\<close>\<close>
  | Linking set_op addr addr addr \<comment> \<open>\<open>prev->next = node\<close> is done, \<open>node->next = curr\<close> is not\<close>
  | Unlock1 set_op bool addr addr \<comment> \<open>about to unlock \<open>prev\<close>\<close>
  | Unlock2 set_op bool addr \<comment> \<open>about to unlock \<open>curr\<close>\<close>
  | Freeing set_op bool addr \<comment> \<open>about to free the removed node\<close>
  | FDone set_op bool

type_synonym fine = "fpc locked"

text \<open>The two sentinels, at addresses \<open>a\<close> and \<open>b\<close>, and every thread at the start of its work.\<close>

definition list_init :: "addr \<Rightarrow> addr \<Rightarrow> (tid \<Rightarrow> work list) \<Rightarrow> fine" where
  "list_init a b works =
     \<lparr>fheap = Map.empty(a \<mapsto> \<lparr>fkey = INT_MIN, fnext = Some b, fowner = None\<rparr>,
                        b \<mapsto> \<lparr>fkey = INT_MAX, fnext = NULL, fowner = None\<rparr>),
      fhead = a, ftail = b, fpcs = (\<lambda>_. FIdle), ftodo = works\<rparr>"

inductive call_step :: "tid \<Rightarrow> fine \<Rightarrow> fine \<Rightarrow> bool" where
  call_add: "fpcs s t = FIdle \<Longrightarrow> ftodo s t = w # ws \<Longrightarrow> op_of w = Some (Add k) \<Longrightarrow> fheap s x = None \<Longrightarrow>
    call_step t s (goto (s\<lparr>ftodo := (ftodo s)(t := ws),
        fheap := (fheap s)(x \<mapsto> \<lparr>fkey = k, fnext = junk, fowner = None\<rparr>)\<rparr>)
      t (Enter (Add k) (Some x)))"
| call_other: "fpcs s t = FIdle \<Longrightarrow> ftodo s t = w # ws \<Longrightarrow> op_of w = Some x \<Longrightarrow> (\<forall>k. x \<noteq> Add k) \<Longrightarrow>
    call_step t s (goto (s\<lparr>ftodo := (ftodo s)(t := ws)\<rparr>) t (Enter x NULL))"
| call_none: "fpcs s t = FIdle \<Longrightarrow> ftodo s t = w # ws \<Longrightarrow> op_of w = None \<Longrightarrow>
    call_step t s (s\<lparr>ftodo := (ftodo s)(t := ws)\<rparr>)"
| call_return: "fpcs s t = FDone x r \<Longrightarrow> call_step t s (goto s t FIdle)"

text \<open>The walk that the three operations share: hand-over-hand locking up to the key.\<close>

inductive walk_step :: "tid \<Rightarrow> fine \<Rightarrow> fine \<Rightarrow> bool" where
  lock_head: "fpcs s t = Enter x nd \<Longrightarrow> fheap s (fhead s) = Some n \<Longrightarrow> fowner n = None \<Longrightarrow>
    walk_step t s (goto (s\<lparr>fheap := set_owner (fheap s) (fhead s) (Some t)\<rparr>) t (HeldPrev x nd (fhead s)))"
| read_next: "fpcs s t = HeldPrev x nd p \<Longrightarrow> fheap s p = Some n \<Longrightarrow>
    walk_step t s (goto s t (WaitCurr x nd p (fnext n)))"
| lock_curr: "fpcs s t = WaitCurr x nd p (Some c) \<Longrightarrow> fheap s c = Some n \<Longrightarrow> fowner n = None \<Longrightarrow>
    walk_step t s (goto (s\<lparr>fheap := set_owner (fheap s) c (Some t)\<rparr>) t (Looking x nd p c))"
| advance: "fpcs s t = Looking x nd p c \<Longrightarrow> fheap s c = Some n \<Longrightarrow> fkey n < op_key x \<Longrightarrow>
    walk_step t s (goto (s\<lparr>fheap := set_owner (fheap s) p None\<rparr>) t (HeldPrev x nd c))"

text \<open>What each operation does at the place it found.\<close>

inductive list_add :: "tid \<Rightarrow> fine \<Rightarrow> fine \<Rightarrow> bool" where
  add_found: "fpcs s t = Looking (Add k) nd p c \<Longrightarrow> fheap s c = Some n \<Longrightarrow> fkey n = k \<Longrightarrow>
    list_add t s (goto s t (Unlock1 (Add k) False p c))"
| add_link: "fpcs s t = Looking (Add k) (Some x) p c \<Longrightarrow> fheap s c = Some n \<Longrightarrow> k < fkey n \<Longrightarrow>
    list_add t s (goto (s\<lparr>fheap := set_next (fheap s) p (Some x)\<rparr>) t (Linking (Add k) x p c))"
| add_linked: "fpcs s t = Linking y x p c \<Longrightarrow>
    list_add t s (goto (s\<lparr>fheap := set_next (fheap s) x (Some c)\<rparr>) t (Unlock1 y True p c))"

inductive list_remove :: "tid \<Rightarrow> fine \<Rightarrow> fine \<Rightarrow> bool" where
  remove_absent: "fpcs s t = Looking (Remove k) nd p c \<Longrightarrow> fheap s c = Some n \<Longrightarrow> k < fkey n \<Longrightarrow>
    list_remove t s (goto s t (Unlock1 (Remove k) False p c))"
| remove_unlink: "fpcs s t = Looking (Remove k) nd p c \<Longrightarrow> fheap s c = Some n \<Longrightarrow> fkey n = k \<Longrightarrow>
    list_remove t s (goto (s\<lparr>fheap := set_next (fheap s) p (fnext n)\<rparr>) t (Unlock1 (Remove k) True p c))"
| remove_free: "fpcs s t = Freeing y r c \<Longrightarrow>
    list_remove t s (goto (s\<lparr>fheap := (fheap s)(c := None)\<rparr>) t (FDone y r))"

inductive list_contains :: "tid \<Rightarrow> fine \<Rightarrow> fine \<Rightarrow> bool" where
  contains_test: "fpcs s t = Looking (Contains k) nd p c \<Longrightarrow> fheap s c = Some n \<Longrightarrow> k \<le> fkey n \<Longrightarrow>
    list_contains t s (goto s t (Unlock1 (Contains k) (fkey n = k) p c))"

fun removes :: "set_op \<Rightarrow> bool \<Rightarrow> bool" where
  "removes (Remove k) r = r"
| "removes _ r = False"

inductive unlock_step :: "tid \<Rightarrow> fine \<Rightarrow> fine \<Rightarrow> bool" where
  unlock_prev: "fpcs s t = Unlock1 x r p c \<Longrightarrow>
    unlock_step t s (goto (s\<lparr>fheap := set_owner (fheap s) p None\<rparr>) t (Unlock2 x r c))"
| unlock_curr: "fpcs s t = Unlock2 x r c \<Longrightarrow>
    unlock_step t s (goto (s\<lparr>fheap := set_owner (fheap s) c None\<rparr>) t
      (if removes x r then Freeing x r c else FDone x r))"

definition fstep :: "tid \<Rightarrow> fine \<Rightarrow> fine \<Rightarrow> bool" where
  "fstep t s s' \<longleftrightarrow> call_step t s s' \<or> walk_step t s s' \<or> list_add t s s' \<or> list_remove t s s' \<or>
     list_contains t s s' \<or> unlock_step t s s'"

definition fine_step :: "fine \<Rightarrow> fine \<Rightarrow> bool" where
  "fine_step s s' \<longleftrightarrow> (\<exists>t. fstep t s s')"

definition fine_init :: "(tid \<Rightarrow> work list) \<Rightarrow> fine \<Rightarrow> bool" where
  "fine_init works s \<longleftrightarrow> (\<exists>a b. a \<noteq> b \<and> s = list_init a b works)"

text \<open>
  \<open>main\<close> starts the threads on the initial list, waits until every thread has done its
  work, and compares the list with the expected contents.
\<close>

definition finished :: "fine \<Rightarrow> bool" where
  "finished s \<longleftrightarrow> (\<forall>t. fpcs s t = FIdle \<and> ftodo s t = [])"

section \<open>The invariant\<close>

text \<open>The nodes whose mutex a thread holds, and the nodes only it can reach.\<close>

fun holds :: "fpc \<Rightarrow> addr set" where
  "holds (HeldPrev x nd p) = {p}"
| "holds (WaitCurr x nd p c) = {p}"
| "holds (Looking x nd p c) = {p, c}"
| "holds (Linking x nd p c) = {p, c}"
| "holds (Unlock1 x r p c) = {p, c}"
| "holds (Unlock2 x r c) = {c}"
| "holds _ = {}"

fun priv :: "fpc \<Rightarrow> addr set" where
  "priv (Enter x nd) = set_option nd"
| "priv (HeldPrev x nd p) = set_option nd"
| "priv (WaitCurr x nd p c) = set_option nd"
| "priv (Looking x nd p c) = set_option nd"
| "priv (Unlock1 x r p c) = (if removes x r then {c} else {})"
| "priv (Unlock2 x r c) = (if removes x r then {c} else {})"
| "priv (Freeing x r c) = {c}"
| "priv _ = {}"

text \<open>
  The list from the head to the tail is the sequence \<open>xs\<close>; a node that is being linked in
  already counts, although its own next pointer is still to be written.
\<close>

definition lnk :: "fine \<Rightarrow> addr \<Rightarrow> addr \<Rightarrow> bool" where
  "lnk s a b \<longleftrightarrow> nxt s a = Some (Some b) \<or> (\<exists>t x p. fpcs s t = Linking x a p b)"

fun pc_ok :: "addr list \<Rightarrow> fine \<Rightarrow> fpc \<Rightarrow> bool" where
  "pc_ok xs s (Enter x nd) = new_ok s x nd"
| "pc_ok xs s (HeldPrev x nd p) = (new_ok s x nd \<and> p \<in> set xs \<and> below s x p)"
| "pc_ok xs s (WaitCurr x nd p c) = (new_ok s x nd \<and> below s x p \<and> (\<exists>c'. c = Some c' \<and> adj xs p c'))"
| "pc_ok xs s (Looking x nd p c) = (new_ok s x nd \<and> below s x p \<and> adj xs p c)"
| "pc_ok xs s (Linking x nd p c) = ((\<exists>k. x = Add k) \<and> adj xs p nd \<and> adj xs nd c)"
| "pc_ok xs s (Unlock1 x r p c) = (p \<noteq> c \<and> p \<in> set xs \<and> (removes x r \<or> c \<in> set xs))"
| "pc_ok xs s (Unlock2 x r c) = (removes x r \<or> c \<in> set xs)"
| "pc_ok xs s (Freeing x r c) = removes x r"
| "pc_ok xs s _ = True"

definition list_ok :: "addr list \<Rightarrow> fine \<Rightarrow> bool" where
  "list_ok xs s \<longleftrightarrow> distinct xs \<and> xs \<noteq> [] \<and> hd xs = fhead s \<and> last xs = ftail s \<and>
     set xs \<subseteq> dom (fheap s) \<and> (\<forall>a b. adj xs a b \<longrightarrow> lnk s a b) \<and>
     key s (fhead s) = INT_MIN \<and> key s (ftail s) = INT_MAX \<and> increasing (key s) (tl xs)"

definition locks_ok :: "fine \<Rightarrow> bool" where
  "locks_ok s \<longleftrightarrow> (\<forall>t a. a \<in> holds (fpcs s t) \<longleftrightarrow> owner s a = Some t)"

definition priv_ok :: "addr list \<Rightarrow> fine \<Rightarrow> bool" where
  "priv_ok xs s \<longleftrightarrow> (\<forall>t. priv (fpcs s t) \<subseteq> dom (fheap s) - set xs) \<and>
     (\<forall>t u. t \<noteq> u \<longrightarrow> priv (fpcs s t) \<inter> priv (fpcs s u) = {})"

text \<open>Nobody holds a node that is still being linked in.\<close>

definition fresh_ok :: "fine \<Rightarrow> bool" where
  "fresh_ok s \<longleftrightarrow> (\<forall>t x n p c. fpcs s t = Linking x n p c \<longrightarrow> owner s n = None)"

definition finv :: "addr list \<Rightarrow> fine \<Rightarrow> bool" where
  "finv xs s \<longleftrightarrow> list_ok xs s \<and> locks_ok s \<and> priv_ok xs s \<and> (\<forall>t. pc_ok xs s (fpcs s t)) \<and>
     fresh_ok s \<and> todo_ok s"

lemma pc_ok_cong: "key s' = key s \<Longrightarrow> fhead s' = fhead s \<Longrightarrow> pc_ok xs s' pc = pc_ok xs s pc"
  using new_ok_cong [of s' s] below_cong [of s' s] by (cases pc) simp_all

lemma pc_ok_mono:
  assumes "pc_ok xs s pc"
    and "\<And>a b. adj xs a b \<Longrightarrow> a \<in> holds pc \<Longrightarrow> adj xs' a b"
    and "\<And>a b q. adj xs a b \<Longrightarrow> adj xs q a \<Longrightarrow> q \<in> holds pc \<Longrightarrow> b \<in> holds pc \<Longrightarrow> adj xs' a b"
    and "\<And>a. a \<in> set xs \<Longrightarrow> a \<in> holds pc \<Longrightarrow> a \<in> set xs'"
  shows "pc_ok xs' s pc"
  using assms by (cases pc) auto

lemma holds_cases: "pc_ok xs s pc \<Longrightarrow> holds pc \<subseteq> set xs \<union> priv pc"
  by (cases pc) (auto dest: adj_in_set)

section \<open>Every step keeps the invariant\<close>

definition linking :: "fpc \<Rightarrow> bool" where
  "linking pc \<longleftrightarrow> (\<exists>x n p c. pc = Linking x n p c)"

text \<open>
  Steps that only move one thread and change mutexes: the list, the keys and the private
  nodes stay, so only the new program counter and the mutexes are to be looked at.
\<close>

lemma lnk_frame:
  assumes "nxt s' = nxt s" and "fpcs s' = (fpcs s)(t := pc)"
    and "\<not> linking (fpcs s t)" and "\<not> linking pc"
  shows "lnk s' = lnk s"
proof -
  have "(\<exists>u x p. fpcs s' u = Linking x a p b) = (\<exists>u x p. fpcs s u = Linking x a p b)" for a b
    using assms(2-4) by (metis fun_upd_apply linking_def)
  with assms(1) show ?thesis by (auto simp: lnk_def fun_eq_iff)
qed

lemma lnk_keep:
  assumes "lnk s a b" and "nxt s' a = nxt s a" and "fpcs s' = (fpcs s)(t := pc)"
    and "\<not> linking (fpcs s t)"
  shows "lnk s' a b"
  using assms unfolding lnk_def linking_def by (metis fun_upd_other)

lemma finv_frame:
  assumes inv: "finv xs s"
    and same: "key s' = key s" "nxt s' = nxt s" "dom (fheap s') = dom (fheap s)"
      "fhead s' = fhead s" "ftail s' = ftail s" "fpcs s' = (fpcs s)(t := pc)"
    and nl: "\<not> linking (fpcs s t)" "\<not> linking pc"
    and own: "\<And>a. a \<in> holds pc \<longleftrightarrow> owner s' a = Some t"
      "\<And>a u. u \<noteq> t \<Longrightarrow> owner s' a = Some u \<longleftrightarrow> owner s a = Some u"
    and fresh: "\<And>u x n p c. u \<noteq> t \<Longrightarrow> fpcs s u = Linking x n p c \<Longrightarrow>
        n \<in> holds pc \<Longrightarrow> n \<in> holds (fpcs s t)"
    and prv: "priv pc \<subseteq> priv (fpcs s t)" and pc: "pc_ok xs s pc" and todo: "todo_ok s'"
  shows "finv xs s'"
proof -
  from inv same lnk_frame [OF same(2,6) nl] have "list_ok xs s'"
    by (simp add: finv_def list_ok_def)
  moreover have "locks_ok s'"
    using inv own same(6) by (auto simp: finv_def locks_ok_def)
  moreover have "priv_ok xs s'"
    using inv same(3,6) prv unfolding finv_def priv_ok_def by (simp add: fun_upd_def) blast
  moreover have "pc_ok xs s' (fpcs s' u)" for u
    using inv pc same(6) pc_ok_cong [OF same(1,4)] by (auto simp: finv_def)
  moreover have "fresh_ok s'"
    unfolding fresh_ok_def
  proof (intro allI impI)
    fix u x n p c assume u: "fpcs s' u = Linking x n p c"
    with nl same(6) have ut: "u \<noteq> t" "fpcs s u = Linking x n p c"
      by (auto simp: linking_def split: if_splits)
    with inv have "owner s n = None" unfolding finv_def fresh_ok_def by blast
    moreover have "n \<notin> holds (fpcs s t)"
      using inv calculation unfolding finv_def locks_ok_def by auto
    ultimately show "owner s' n = None" using own fresh [OF ut] by (metis not_Some_eq)
  qed
  ultimately show ?thesis using todo by (simp add: finv_def)
qed

lemma finv_pc: "finv xs s \<Longrightarrow> pc_ok xs s (fpcs s t)"
  by (simp add: finv_def)

lemma finv_own: "finv xs s \<Longrightarrow> owner s a = Some t \<longleftrightarrow> a \<in> holds (fpcs s t)"
  by (simp add: finv_def locks_ok_def)

lemma finv_held: "finv xs s \<Longrightarrow> a \<in> holds (fpcs s t) \<Longrightarrow> fheap s a \<noteq> None"
  using owner_dom finv_own by blast

lemma finv_dom: "finv xs s \<Longrightarrow> a \<in> set xs \<Longrightarrow> fheap s a \<noteq> None"
  by (auto simp: finv_def list_ok_def)

lemma finv_todo: "finv xs s \<Longrightarrow> todo_ok s"
  by (simp add: finv_def)

lemma adj_pc_in: "adj xs p c \<Longrightarrow> c \<in> set xs" "adj xs p c \<Longrightarrow> p \<in> set xs"
  by (auto dest: adj_in_set)

lemma finv_fresh: "finv xs s \<Longrightarrow> fpcs s u = Linking x n p c \<Longrightarrow> owner s n = None"
  unfolding finv_def fresh_ok_def by blast

lemma finv_sorted: "finv xs s \<Longrightarrow> sorted_nodes xs s"
  by (simp add: finv_def list_ok_def sorted_nodes_def)

lemmas finv_ends = sorted_ends [OF finv_sorted]

lemma linking_pred:
  assumes "finv xs s" and "fpcs s u = Linking x n p c" and "adj xs q n"
  shows "q = p" and "owner s q = Some u"
proof -
  from finv_pc [OF assms(1), of u] assms(2) have "adj xs p n" by simp
  with assms(1,3) show "q = p" by (auto simp: finv_def list_ok_def intro: adj_left_unique)
  with finv_own [OF assms(1), of q u] assms(2) show "owner s q = Some u" by simp
qed

lemma linking_not_head:
  assumes "finv xs s" and "fpcs s u = Linking x n p c"
  shows "n \<noteq> fhead s"
proof
  assume "n = fhead s"
  with finv_pc [OF assms(1), of u] assms(2) have "adj xs p (fhead s)" by simp
  moreover from assms(1) have "distinct xs" "hd xs = fhead s" by (auto simp: finv_def list_ok_def)
  ultimately show False using adj_hd by metis
qed

text \<open>A held node is linked by its own next pointer.\<close>

lemma held_next:
  assumes inv: "finv xs s" and "a \<in> holds (fpcs s t)" and "adj xs a b"
  shows "nxt s a = Some (Some b)"
proof -
  from inv assms(3) have "lnk s a b" by (simp add: finv_def list_ok_def)
  moreover have "owner s a = Some t" using assms finv_own by blast
  ultimately show ?thesis using finv_fresh [OF inv] by (auto simp: lnk_def)
qed

lemma below_not_tail:
  assumes "finv xs s" and "below s x p" and "op_key x < INT_MAX"
  shows "p \<noteq> last xs"
  using finv_ends [OF assms(1)] assms(2,3) by (auto simp: below_def)

lemmas finv_facts = finv_ends finv_todo finv_fresh

lemma walk_step_inv:
  assumes "walk_step t s s'" and inv: "finv xs s"
  shows "finv xs s'"
  using assms(1)
proof cases
  case (lock_head x nd n)
  then show ?thesis
    using finv_pc [OF inv, of t] finv_own [OF inv, of _ t] linking_not_head [OF inv]
      free_own [of s "fhead s" n] finv_facts [OF inv]
    by (intro finv_frame [OF inv, where t = t and pc = "HeldPrev x nd (fhead s)"])
      (auto simp: linking_def below_def)
next
  case (read_next x nd p n)
  from finv_pc [OF inv, of t] read_next have p: "p \<in> set xs" "below s x p" "op_key x < INT_MAX"
    by (auto simp: new_ok_def)
  with below_not_tail [OF inv] adj_next_ex obtain c where c: "adj xs p c" by metis
  with held_next [OF inv, of p t] read_next have "fnext n = Some c" by (simp add: nxt_def)
  with c show ?thesis
    using finv_pc [OF inv, of t] finv_own [OF inv, of _ t] read_next finv_facts [OF inv]
    by (intro finv_frame [OF inv, where t = t and pc = "WaitCurr x nd p (fnext n)"])
      (auto simp: linking_def)
next
  case (lock_curr x nd p c n)
  then have "adj xs p c" "owner s p = Some t" using finv_pc [OF inv, of t] finv_own [OF inv] by auto
  then have "fpcs s u \<noteq> Linking y c q d" for u y q d
    using linking_pred(2) [OF inv, of u y c q d p] lock_curr by auto
  then show ?thesis
    using lock_curr finv_pc [OF inv, of t] finv_own [OF inv, of _ t]
      free_own [of s c n] finv_facts [OF inv]
    by (intro finv_frame [OF inv, where t = t and pc = "Looking x nd p c"])
      (auto simp: linking_def)
next
  case (advance x nd p c n)
  then have "fheap s p \<noteq> None" "\<And>u. u \<noteq> t \<Longrightarrow> owner s p \<noteq> Some u"
    using finv_held [OF inv, of p t] finv_own [OF inv, of p t] by simp_all
  moreover have "p \<noteq> c" using finv_pc [OF inv, of t] advance finv_facts [OF inv] by (auto dest: adj_neq)
  ultimately show ?thesis
    using advance finv_pc [OF inv, of t] finv_own [OF inv, of _ t] finv_facts [OF inv]
    by (intro finv_frame [OF inv, where t = t and pc = "HeldPrev x nd c"])
      (auto simp: linking_def below_def adj_pc_in)
qed

lemma call_step_frame:
  assumes "call_step t s s'" and inv: "finv xs s" and "\<not> (\<exists>k nd. fpcs s' t = Enter (Add k) nd)"
  shows "finv xs s'"
  using assms(1)
proof cases
  case (call_add w ws k x junk)
  with assms(3) show ?thesis by simp
next
  case (call_other w ws x)
  have "op_key x < INT_MAX"
    using call_other finv_todo [OF inv] op_of_key [of w x] unfolding todo_ok_def
    by (metis list.set_intros(1))
  with call_other show ?thesis
    using finv_own [OF inv, of _ t] todo_tail [OF finv_todo [OF inv]]
    by (intro finv_frame [OF inv, where t = t and pc = "Enter x NULL"])
      (auto simp: linking_def new_ok_def key_def nxt_def owner_def fun_eq_iff split: set_op.split)
next
  case (call_none w ws)
  then show ?thesis
    using finv_own [OF inv, of _ t] todo_tail [OF finv_todo [OF inv]]
    by (intro finv_frame [OF inv, where t = t and pc = FIdle])
      (auto simp: linking_def key_def nxt_def owner_def fun_eq_iff)
next
  case (call_return x r)
  then show ?thesis
    using finv_own [OF inv, of _ t] finv_todo [OF inv]
    by (intro finv_frame [OF inv, where t = t and pc = FIdle])
      (auto simp: linking_def)
qed

lemma unlock_step_inv:
  assumes "unlock_step t s s'" and inv: "finv xs s"
  shows "finv xs s'"
  using assms(1)
proof cases
  case (unlock_prev x r p c)
  then have "fheap s p \<noteq> None" "\<And>u. u \<noteq> t \<Longrightarrow> owner s p \<noteq> Some u"
    using finv_held [OF inv, of p t] finv_own [OF inv, of p t] by simp_all
  with unlock_prev show ?thesis
    using finv_pc [OF inv, of t] finv_own [OF inv, of _ t] finv_todo [OF inv]
    by (intro finv_frame [OF inv, where t = t and pc = "Unlock2 x r c"])
      (auto simp: linking_def)
next
  case (unlock_curr x r c)
  then have "fheap s c \<noteq> None" "\<And>u. u \<noteq> t \<Longrightarrow> owner s c \<noteq> Some u"
    using finv_held [OF inv, of c t] finv_own [OF inv, of c t] by simp_all
  with unlock_curr show ?thesis
    using finv_pc [OF inv, of t] finv_own [OF inv, of _ t] finv_todo [OF inv]
    by (intro finv_frame [OF inv, where t = t and pc = "if removes x r then Freeing x r c else FDone x r"])
      (auto simp: linking_def split: if_splits)
qed

text \<open>An operation that leaves the list as it found it goes on to unlock both nodes.\<close>

lemma finv_unchanged:
  assumes inv: "finv xs s" and at: "fpcs s t = Looking x nd p c" and "\<not> removes x r"
  shows "finv xs (goto s t (Unlock1 x r p c))"
  using assms finv_pc [OF inv, of t] finv_own [OF inv, of _ t] finv_facts [OF inv]
  by (intro finv_frame [OF inv, where t = t and pc = "Unlock1 x r p c"])
    (auto simp: linking_def dest: adj_neq adj_in_set)

lemma finv_priv:
  assumes "finv xs s" and "a \<in> priv (fpcs s t)"
  shows "a \<notin> set xs" "fheap s a \<noteq> None" "u \<noteq> t \<Longrightarrow> a \<notin> priv (fpcs s u)"
    "u \<noteq> t \<Longrightarrow> a \<notin> holds (fpcs s u)"
proof -
  show 1: "a \<notin> set xs" and "fheap s a \<noteq> None"
    using assms by (auto simp: finv_def priv_ok_def)
  show 2: "a \<notin> priv (fpcs s u)" if "u \<noteq> t"
    using that assms unfolding finv_def priv_ok_def by blast
  show "a \<notin> holds (fpcs s u)" if "u \<noteq> t"
    using 1 2 [OF that] holds_cases [OF finv_pc [OF assms(1), of u]] by auto
qed

text \<open>A fresh node is private to the thread that allocated it.\<close>

lemma call_add_inv:
  assumes inv: "finv xs s" and at: "fpcs s t = FIdle" "ftodo s t = w # ws" "op_of w = Some (Add k)"
    and x: "fheap s x = None"
  shows "finv xs (goto (s\<lparr>ftodo := (ftodo s)(t := ws),
        fheap := (fheap s)(x \<mapsto> \<lparr>fkey = k, fnext = junk, fowner = None\<rparr>)\<rparr>)
      t (Enter (Add k) (Some x)))" (is "finv xs ?s")
proof -
  have x_xs: "x \<notin> set xs" using finv_dom [OF inv] x by blast
  have x_pr: "x \<notin> priv (fpcs s u)" for u using finv_priv(2) [OF inv, of x u] x by blast
  have key: "key ?s a = (if a = x then k else key s a)" for a by (simp add: key_def)
  have nxt: "a \<noteq> x \<Longrightarrow> nxt ?s a = nxt s a" for a by (simp add: nxt_def)
  have own: "owner ?s a = owner s a" for a using x by (simp add: owner_def)
  have kk: "k < INT_MAX"
    using at finv_todo [OF inv] op_of_key [of w "Add k"] unfolding todo_ok_def
    by (metis list.set_intros(1) op_key.simps(1))
  have lnk: "lnk s a b \<Longrightarrow> a \<noteq> x \<Longrightarrow> lnk ?s a b" for a b
    using nxt [of a] at(1) by (elim lnk_keep [where t = t]) (auto simp: linking_def)
  have "list_ok xs ?s"
  proof -
    have "key ?s (fhead s) = key s (fhead s)" "key ?s (ftail s) = key s (ftail s)"
      using finv_ends [OF inv] x_xs key by (metis last_in_set list.distinct(1) list.set_cases)+
    moreover have "increasing (key ?s) (tl xs)"
    proof (subst increasing_cong [where g = "key s"])
      show "key ?s a = key s a" if "a \<in> set (tl xs)" for a
        using that x_xs key by (metis list.set_sel(2) tl_Nil)
    qed (use inv in \<open>simp add: finv_def list_ok_def\<close>)
    moreover have "lnk ?s a b" if "adj xs a b" for a b
    proof (rule lnk)
      show "lnk s a b" using that inv by (simp add: finv_def list_ok_def)
      show "a \<noteq> x" using that x_xs adj_in_set by metis
    qed
    ultimately show ?thesis using inv finv_ends [OF inv] unfolding finv_def list_ok_def by auto
  qed
  moreover have "locks_ok ?s"
    using own finv_own [OF inv] at(1) unfolding locks_ok_def by (auto simp del: not_Some_eq)
  moreover have "priv_ok xs ?s" using inv x_xs x_pr by (auto simp: finv_def priv_ok_def)
  moreover have "pc_ok xs ?s (fpcs ?s u)" for u
  proof (cases "u = t")
    case True
    then show ?thesis using key kk by (simp add: new_ok_def)
  next
    case False
    have "pc_ok xs s (fpcs s u)" by (rule finv_pc [OF inv])
    moreover have "new_ok s y nd \<Longrightarrow> set_option nd \<subseteq> priv (fpcs s u) \<Longrightarrow> new_ok ?s y nd" for y nd
      using x_pr [of u] key by (auto simp: new_ok_def split: set_op.splits)
    moreover have "below s y p \<Longrightarrow> p \<in> set xs \<Longrightarrow> below ?s y p" for y p
      using x_xs key by (auto simp: below_def)
    ultimately show ?thesis using False
      by (cases "fpcs s u") (auto dest: adj_in_set)
  qed
  moreover have "fresh_ok ?s" using inv own at(1) by (auto simp: finv_def fresh_ok_def)
  moreover have "todo_ok ?s" using todo_tail [OF finv_todo [OF inv] at(2)] by (simp add: todo_ok_def)
  ultimately show ?thesis by (simp add: finv_def)
qed

text \<open>The two pairs of neighbours that a change at \<open>p\<close> and \<open>c\<close> touches belong to one thread.\<close>

lemma adj_other:
  assumes inv: "finv xs s" and "p \<in> holds (fpcs s t)" and "u \<noteq> t"
  shows "p \<notin> holds (fpcs s u)"
  using assms finv_own [OF inv, of p t] finv_own [OF inv, of p u] by auto

lemma list_ok_nodes:
  "list_ok xs s \<longleftrightarrow> sorted_nodes xs s \<and> set xs \<subseteq> dom (fheap s) \<and> (\<forall>a b. adj xs a b \<longrightarrow> lnk s a b)"
  by (auto simp: list_ok_def sorted_nodes_def)

lemma finv_lnk: "finv xs s \<Longrightarrow> adj xs a b \<Longrightarrow> lnk s a b"
  by (simp add: finv_def list_ok_def)

lemma finv_nodes: "finv xs s \<Longrightarrow> set xs \<subseteq> dom (fheap s)"
  by (simp add: finv_def list_ok_def)

text \<open>
  Linking: \<open>prev->next = node\<close> puts the private node between \<open>p\<close> and \<open>c\<close>.  First the list,
  then what the other threads know of it.
\<close>

lemma add_link_list_ok:
  assumes inv: "finv xs s" and at: "fpcs s t = Looking (Add k) (Some x) p c"
    and n: "fheap s c = Some n" "k < fkey n" and xs: "xs = us @ p # c # vs"
  shows "list_ok (us @ p # x # c # vs)
    (goto (s\<lparr>fheap := set_next (fheap s) p (Some x)\<rparr>) t (Linking (Add k) x p c))" (is "list_ok ?xs ?s")
proof -
  from finv_pc [OF inv, of t] at have pc: "key s x = k" "below s (Add k) p"
    by (auto simp: new_ok_def)
  have p: "fheap s p \<noteq> None" by (rule finv_held [OF inv, of p t]) (simp add: at)
  have x: "x \<notin> set xs" "fheap s x \<noteq> None" using finv_priv [OF inv, of x t] at by simp_all
  have nxt: "nxt ?s = (nxt s)(p := Some (Some x))" using p by simp
  have lnk: "lnk s a b \<Longrightarrow> a \<noteq> p \<Longrightarrow> lnk ?s a b" for a b
    using at nxt by (elim lnk_keep [where t = t]) (auto simp: linking_def)
  have "sorted_nodes ?xs s"
    by (rule sorted_link [OF finv_sorted [OF inv] xs x(1) pc(2)]) (use pc n in simp_all)
  then have srt: "sorted_nodes ?xs ?s" by (simp add: sorted_nodes_def)
  have "lnk ?s a b" if "adj ?xs a b" for a b
    using adj_link [OF sorted_ends(1) [OF srt] that] lnk [of a b] finv_lnk [OF inv, of a b] xs nxt
    by auto (auto simp: lnk_def)
  then show ?thesis using srt finv_nodes [OF inv] x(2) xs by (auto simp: list_ok_nodes)
qed

lemma add_link_pc_ok:
  assumes inv: "finv xs s" and "p \<in> holds (fpcs s t)" and xs: "xs = us @ p # c # vs" and "u \<noteq> t"
    and "c \<in> holds (fpcs s t)"
  shows "pc_ok (us @ p # x # c # vs) s (fpcs s u)" (is "pc_ok ?xs s _")
  using finv_pc [OF inv, of u]
proof (rule pc_ok_mono)
  have h: "p \<notin> holds (fpcs s u)" "c \<notin> holds (fpcs s u)"
    using adj_other [OF inv assms(2,4)] adj_other [OF inv assms(5,4)] by auto
  have keep: "adj xs a b \<Longrightarrow> a \<noteq> p \<Longrightarrow> adj ?xs a b" for a b
    using xs by (auto simp: adj_append)
  show "adj ?xs a b" if "adj xs a b" "a \<in> holds (fpcs s u)" for a b
    using that h keep by metis
  show "adj ?xs a b" if "adj xs a b" "b \<in> holds (fpcs s u)" for a b
    using that h keep [of a b] adj_right_unique [OF finv_ends(1) [OF inv], of p b c] xs adjI
    by metis
qed (use xs in auto)

lemma priv_unowned:
  assumes inv: "finv xs s" and x: "x \<in> priv (fpcs s t)" and "x \<notin> holds (fpcs s t)"
  shows "owner s x = None"
proof (rule ccontr)
  assume "owner s x \<noteq> None"
  then obtain u where u: "x \<in> holds (fpcs s u)" using finv_own [OF inv] by auto
  then show False using finv_priv [OF inv x] assms(3) by (cases "u = t") auto
qed

lemma add_link_inv:
  assumes inv: "finv xs s" and at: "fpcs s t = Looking (Add k) (Some x) p c"
    and n: "fheap s c = Some n" "k < fkey n" and xs: "xs = us @ p # c # vs"
  shows "finv (us @ p # x # c # vs)
    (goto (s\<lparr>fheap := set_next (fheap s) p (Some x)\<rparr>) t (Linking (Add k) x p c))" (is "finv ?xs ?s")
proof -
  have held: "p \<in> holds (fpcs s t)" "c \<in> holds (fpcs s t)" using at by simp_all
  have pc: "key s x = k" "k < INT_MAX" "below s (Add k) p"
    using finv_pc [OF inv, of t] at by (auto simp: new_ok_def)
  have x: "x \<notin> set xs" "\<And>u. u \<noteq> t \<Longrightarrow> x \<notin> priv (fpcs s u)"
    "\<And>u. u \<noteq> t \<Longrightarrow> x \<notin> holds (fpcs s u)" using finv_priv [OF inv, of x t] at by simp_all
  have "locks_ok ?s"
    using finv_own [OF inv] at unfolding locks_ok_def by auto
  moreover have "priv_ok ?xs ?s"
    using inv x(2) at xs unfolding finv_def priv_ok_def by auto
  moreover have "pc_ok ?xs ?s (fpcs ?s u)" for u
  proof (cases "u = t")
    case True
    then show ?thesis by (simp add: adj_append)
  next
    case False
    with add_link_pc_ok [OF inv held(1) xs False held(2), of x] show ?thesis
      using pc_ok_cong [of ?s s ?xs] by simp
  qed
  moreover have "owner s x = None"
    by (rule priv_unowned [OF inv, of x t]) (use at x(1) xs in auto)
  then have "fresh_ok ?s" using finv_fresh [OF inv] unfolding fresh_ok_def by auto
  moreover have "todo_ok ?s" using finv_todo [OF inv] by simp
  ultimately show ?thesis using add_link_list_ok [OF inv at n xs] by (simp add: finv_def)
qed

text \<open>Then \<open>node->next = curr\<close> completes the link.\<close>

lemma add_linked_inv:
  assumes inv: "finv xs s" and at: "fpcs s t = Linking y x p c"
  shows "finv xs (goto (s\<lparr>fheap := set_next (fheap s) x (Some c)\<rparr>) t (Unlock1 y True p c))"
    (is "finv xs ?s")
proof -
  from finv_pc [OF inv, of t] at obtain k where y: "y = Add k" and px: "adj xs p x" and xc: "adj xs x c"
    by auto
  have d: "distinct xs" by (rule finv_ends [OF inv])
  have nxt: "nxt ?s = (nxt s)(x := Some (Some c))"
    using finv_dom [OF inv, of x] px adj_in_set by fastforce
  have pc: "p \<noteq> c" using adj_asym [OF d px] xc by auto
  have "lnk ?s a b" if ab: "adj xs a b" for a b
  proof (cases "a = x")
    case True
    with ab xc d have "b = c" by (blast intro: adj_right_unique)
    with True nxt show ?thesis by (simp add: lnk_def)
  next
    case False
    have "lnk s a b" using inv ab by (simp add: finv_def list_ok_def)
    with False nxt at show ?thesis unfolding lnk_def by simp (metis fpc.inject(5))
  qed
  then have "list_ok xs ?s" using inv unfolding finv_def list_ok_def by auto
  moreover have "locks_ok ?s"
    using finv_own [OF inv] at unfolding locks_ok_def by auto
  moreover have "priv_ok xs ?s"
    using inv at y unfolding finv_def priv_ok_def by auto
  moreover have "pc_ok xs ?s (fpcs ?s u)" for u
    using finv_pc [OF inv, of u] px xc pc y pc_ok_cong [of ?s s xs] by (auto dest: adj_in_set)
  moreover have "fresh_ok ?s" using finv_fresh [OF inv] unfolding fresh_ok_def by auto
  moreover have "todo_ok ?s" using finv_todo [OF inv] by simp
  ultimately show ?thesis by (simp add: finv_def)
qed

text \<open>
  Unlinking: \<open>prev->next = curr->next\<close> takes \<open>c\<close> out of the list; it is private from then on.
\<close>

lemma remove_unlink_list_ok:
  assumes inv: "finv xs s" and at: "fpcs s t = Looking (Remove k) nd p c" and xs: "xs = us @ p # c # d # vs"
  shows "list_ok (us @ p # d # vs)
    (goto (s\<lparr>fheap := set_next (fheap s) p (Some d)\<rparr>) t (Unlock1 (Remove k) True p c))" (is "list_ok ?xs ?s")
proof -
  have p: "fheap s p \<noteq> None" by (rule finv_held [OF inv, of p t]) (simp add: at)
  have nxt: "nxt ?s = (nxt s)(p := Some (Some d))" using p by simp
  have lnk: "lnk s a b \<Longrightarrow> a \<noteq> p \<Longrightarrow> lnk ?s a b" for a b
    using at nxt by (elim lnk_keep [where t = t]) (auto simp: linking_def)
  have srt: "sorted_nodes ?xs ?s"
    using sorted_unlink [OF finv_sorted [OF inv] xs] by (simp add: sorted_nodes_def)
  have "lnk ?s a b" if "adj ?xs a b" for a b
    using adj_unlink [OF _ that, of c] finv_ends(1) [OF inv] lnk [of a b] finv_lnk [OF inv, of a b] xs nxt
    by auto (auto simp: lnk_def)
  then show ?thesis using srt finv_nodes [OF inv] xs by (auto simp: list_ok_nodes)
qed

lemma remove_unlink_pc_ok:
  assumes inv: "finv xs s" and held: "p \<in> holds (fpcs s t)" "c \<in> holds (fpcs s t)"
    and xs: "xs = us @ p # c # d # vs" and "u \<noteq> t"
  shows "pc_ok (us @ p # d # vs) s (fpcs s u)" (is "pc_ok ?xs s _")
  using finv_pc [OF inv, of u]
proof (rule pc_ok_mono)
  have dx: "distinct xs" by (rule finv_ends(1) [OF inv])
  have pc: "adj xs p c" using xs adjI by simp
  have h: "p \<notin> holds (fpcs s u)" "c \<notin> holds (fpcs s u)"
    using adj_other [OF inv held(1) assms(5)] adj_other [OF inv held(2) assms(5)] by auto
  have keep: "adj xs a b \<Longrightarrow> a \<noteq> p \<Longrightarrow> a \<noteq> c \<Longrightarrow> adj ?xs a b" for a b
    using xs by (auto simp: adj_append)
  show "adj ?xs a b" if "adj xs a b" "a \<in> holds (fpcs s u)" for a b
    using that h keep by metis
  show "adj ?xs a b" if "adj xs a b" "adj xs q a" "q \<in> holds (fpcs s u)" "b \<in> holds (fpcs s u)" for a b q
    using that h keep [of a b] adj_right_unique [OF dx, of p b c] adj_left_unique [OF dx, of q c p] pc
    by metis
  show "a \<in> set ?xs" if "a \<in> set xs" "a \<in> holds (fpcs s u)" for a
    using that xs h by auto
qed

lemma remove_unlink_inv:
  assumes inv: "finv xs s" and at: "fpcs s t = Looking (Remove k) nd p c"
    and n: "fheap s c = Some n" "fkey n = k" and xs: "xs = us @ p # c # d # vs"
  shows "finv (us @ p # d # vs)
    (goto (s\<lparr>fheap := set_next (fheap s) p (fnext n)\<rparr>) t (Unlock1 (Remove k) True p c))"
    (is "finv ?xs ?s")
proof -
  have held: "p \<in> holds (fpcs s t)" "c \<in> holds (fpcs s t)" using at by simp_all
  have dx: "distinct xs" by (rule finv_ends(1) [OF inv])
  have "adj xs c d" using xs adjI [of "us @ [p]" c d vs] by simp
  then have "nxt s c = Some (Some d)" by (rule held_next [OF inv held(2)])
  with n have nd: "fnext n = Some d" by (simp add: nxt_def)
  have "locks_ok ?s"
    using finv_own [OF inv] at unfolding locks_ok_def by auto
  moreover have "priv_ok ?xs ?s"
  proof -
    have "c \<notin> priv (fpcs s u)" for u using finv_priv(1) [OF inv, of c u] xs by auto
    moreover have "c \<notin> set ?xs" using dx xs by auto
    ultimately show ?thesis
      using inv at xs n unfolding finv_def priv_ok_def by auto
  qed
  moreover have "pc_ok ?xs ?s (fpcs ?s u)" for u
  proof (cases "u = t")
    case True
    then show ?thesis using dx xs by simp
  next
    case False
    with remove_unlink_pc_ok [OF inv held xs False] show ?thesis using pc_ok_cong [of ?s s ?xs] by simp
  qed
  moreover have "fresh_ok ?s" using finv_fresh [OF inv] unfolding fresh_ok_def by auto
  moreover have "todo_ok ?s" using finv_todo [OF inv] by simp
  ultimately show ?thesis using remove_unlink_list_ok [OF inv at xs] nd by (simp add: finv_def)
qed

text \<open>Freeing a private node is invisible to every other thread.\<close>

lemma remove_free_inv:
  assumes inv: "finv xs s" and at: "fpcs s t = Freeing y r c"
  shows "finv xs (goto (s\<lparr>fheap := (fheap s)(c := None)\<rparr>) t (FDone y r))" (is "finv xs ?s")
proof -
  have c: "c \<notin> set xs" "\<And>u. u \<noteq> t \<Longrightarrow> c \<notin> priv (fpcs s u)" "\<And>u. u \<noteq> t \<Longrightarrow> c \<notin> holds (fpcs s u)"
    using finv_priv [OF inv, of c t] at by simp_all
  have key: "a \<noteq> c \<Longrightarrow> key ?s a = key s a" for a by (simp add: key_def)
  have nxt: "a \<noteq> c \<Longrightarrow> nxt ?s a = nxt s a" for a by (simp add: nxt_def)
  have "owner s c = None" by (rule priv_unowned [OF inv, of c t]) (simp_all add: at)
  then have own: "owner ?s a = owner s a" for a by (simp add: owner_def)
  have lnk: "lnk s a b \<Longrightarrow> a \<noteq> c \<Longrightarrow> lnk ?s a b" for a b
    using at nxt by (elim lnk_keep [where t = t]) (auto simp: linking_def)
  have keyx: "a \<in> set xs \<Longrightarrow> key ?s a = key s a" for a using c(1) key by metis
  have "list_ok xs ?s"
  proof -
    have "lnk ?s a b" if "adj xs a b" for a b
      using that lnk inv c(1) adj_in_set(1) [OF that] unfolding finv_def list_ok_def by blast
    moreover have "increasing (key ?s) (tl xs)"
    proof (subst increasing_cong [where g = "key s"])
      show "key ?s a = key s a" if "a \<in> set (tl xs)" for a
        using that keyx by (metis list.set_sel(2) tl_Nil)
    qed (use inv in \<open>simp add: finv_def list_ok_def\<close>)
    moreover have "key ?s (fhead s) = INT_MIN" "key ?s (ftail s) = INT_MAX"
      using keyx finv_ends [OF inv] by metis+
    ultimately show ?thesis using inv c(1) unfolding finv_def list_ok_def by auto
  qed
  moreover have "locks_ok ?s"
    using own finv_own [OF inv] at unfolding locks_ok_def by auto
  moreover have "priv_ok xs ?s" using inv c unfolding finv_def priv_ok_def by auto
  moreover have "pc_ok xs ?s (fpcs ?s u)" for u
  proof (cases "u = t")
    case True
    then show ?thesis by simp
  next
    case False
    have below_def': "below ?s y p \<longleftrightarrow> p = fhead s \<or> key ?s p < op_key y" for y p
      by (simp add: below_def)
    have "new_ok s y nd \<Longrightarrow> set_option nd \<subseteq> priv (fpcs s u) \<Longrightarrow> new_ok ?s y nd" for y nd
      using c(2) [OF False] key by (auto simp: new_ok_def split: set_op.splits)
    moreover have "below s y p \<Longrightarrow> p \<in> set xs \<Longrightarrow> below ?s y p" for y p
      using c(1) key [of p] below_def' by (metis below_def)
    ultimately show ?thesis using False finv_pc [OF inv, of u]
      by (cases "fpcs s u") (auto dest: adj_in_set)
  qed
  moreover have "fresh_ok ?s" using finv_fresh [OF inv] own unfolding fresh_ok_def by auto
  moreover have "todo_ok ?s" using finv_todo [OF inv] by simp
  ultimately show ?thesis by (simp add: finv_def)
qed


section \<open>The list is an atomic set\<close>

text \<open>
  The contents are the keys between the sentinels.  An operation has taken effect once its
  thread has passed the test of the key of \<open>curr\<close>.
\<close>

fun abs_pc :: "fpc \<Rightarrow> apc" where
  "abs_pc FIdle = AIdle"
| "abs_pc (Enter x nd) = ACalled x"
| "abs_pc (HeldPrev x nd p) = ACalled x"
| "abs_pc (WaitCurr x nd p c) = ACalled x"
| "abs_pc (Looking x nd p c) = ACalled x"
| "abs_pc (Linking x n p c) = ADone x True"
| "abs_pc (Unlock1 x r p c) = ADone x r"
| "abs_pc (Unlock2 x r c) = ADone x r"
| "abs_pc (Freeing x r c) = ADone x r"
| "abs_pc (FDone x r) = ADone x r"

lemma looking_contents:
  assumes inv: "finv xs s" and at: "fpcs s t = Looking x nd p c"
    and n: "fheap s c = Some n" "op_key x \<le> fkey n"
  shows "op_key x \<in> contents xs s \<longleftrightarrow> fkey n = op_key x"
  using finv_pc [OF inv, of t] at n by (intro found_contents [OF finv_sorted [OF inv]]) (auto simp: new_ok_def)

lemma list_add_sim:
  assumes "list_add t s s'" and inv: "finv xs s"
  shows "\<exists>ys. finv ys s' \<and> (abs_list abs_pc ys s' = abs_list abs_pc xs s \<or> aset_step (abs_list abs_pc xs s) (abs_list abs_pc ys s'))"
  using assms(1)
proof cases
  case (add_found k nd p c n)
  have "k \<in> contents xs s" using looking_contents [OF inv add_found(2,3)] add_found(4) by simp
  then have "aset_step (abs_list abs_pc xs s) (abs_list abs_pc xs s')"
    using add_found by (intro abs_perform [where t = t]) (auto simp: insert_absorb)
  with finv_unchanged [OF inv add_found(2)] add_found(1) show ?thesis by auto
next
  case (add_link k x p c n)
  from finv_pc [OF inv, of t] add_link(2) have "adj xs p c" and x: "key s x = k" by (auto simp: new_ok_def)
  then obtain us vs where xs: "xs = us @ p # c # vs" by (auto simp: adj_def)
  have "k \<notin> contents xs s" using looking_contents [OF inv add_link(2,3)] add_link(4) by simp
  moreover have "x \<notin> set xs" using finv_priv(1) [OF inv, of x t] add_link(2) by simp
  then have "contents (us @ p # x # c # vs) s' = insert k (contents xs s)"
    using linked_contents [OF finv_sorted [OF inv] xs] x add_link(1) by simp
  ultimately have "aset_step (abs_list abs_pc xs s) (abs_list abs_pc (us @ p # x # c # vs) s')"
    using add_link by (intro abs_perform [where t = t]) auto
  with add_link_inv [OF inv add_link(2-4) xs] add_link(1) show ?thesis by auto
next
  case (add_linked y x p c)
  then have "abs_list abs_pc xs s' = abs_list abs_pc xs s"
    by (intro abs_stutter [where t = t]) auto
  with add_linked_inv [OF inv add_linked(2)] add_linked(1) show ?thesis by auto
qed

lemma list_remove_sim:
  assumes "list_remove t s s'" and inv: "finv xs s"
  shows "\<exists>ys. finv ys s' \<and> (abs_list abs_pc ys s' = abs_list abs_pc xs s \<or> aset_step (abs_list abs_pc xs s) (abs_list abs_pc ys s'))"
  using assms(1)
proof cases
  case (remove_absent k nd p c n)
  have "k \<notin> contents xs s" using looking_contents [OF inv remove_absent(2,3)] remove_absent(4) by simp
  then have "aset_step (abs_list abs_pc xs s) (abs_list abs_pc xs s')"
    using remove_absent by (intro abs_perform [where t = t]) auto
  with finv_unchanged [OF inv remove_absent(2)] remove_absent(1) show ?thesis by auto
next
  case (remove_unlink k nd p c n)
  from finv_pc [OF inv, of t] remove_unlink(2) obtain us ws where ws: "xs = us @ p # c # ws"
    and k: "k < INT_MAX" by (auto simp: new_ok_def adj_def)
  have "c \<noteq> last xs" using finv_ends(3,8) [OF inv] k remove_unlink(3,4) key_Some by (metis less_irrefl)
  with ws obtain d vs where xs: "xs = us @ p # c # d # vs" by (cases ws) auto
  have "k \<in> contents xs s" using looking_contents [OF inv remove_unlink(2,3)] remove_unlink(4) by simp
  moreover have "contents (us @ p # d # vs) s' = contents xs s - {k}"
    using unlinked_contents [OF finv_sorted [OF inv] xs] remove_unlink(1,3,4) by simp
  ultimately have "aset_step (abs_list abs_pc xs s) (abs_list abs_pc (us @ p # d # vs) s')"
    using remove_unlink(1,2)
    by (intro abs_perform [where t = t and x = "Remove k" and pc = "Unlock1 (Remove k) True p c" and r = True]) simp_all
  with remove_unlink_inv [OF inv remove_unlink(2-4) xs] remove_unlink(1) show ?thesis by auto
next
  case (remove_free y r c)
  have "c \<notin> set xs" using finv_priv(1) [OF inv, of c t] remove_free(2) by simp
  then have "contents xs s' = contents xs s"
    unfolding contents_def remove_free(1)
    by (intro image_cong) (auto simp: key_def dest: in_set_tl)
  then have "abs_list abs_pc xs s' = abs_list abs_pc xs s"
    using remove_free by (intro abs_stutter [where t = t]) auto
  with remove_free_inv [OF inv remove_free(2)] remove_free(1) show ?thesis by auto
qed

lemma call_step_sim:
  assumes "call_step t s s'" and inv: "finv xs s"
  shows "\<exists>ys. finv ys s' \<and> (abs_list abs_pc ys s' = abs_list abs_pc xs s \<or> aset_step (abs_list abs_pc xs s) (abs_list abs_pc ys s'))"
  using assms(1)
proof cases
  case (call_add w ws k x junk)
  have "x \<notin> set xs" using finv_dom [OF inv] call_add by blast
  then have "contents xs s' = contents xs s"
    unfolding contents_def call_add(1)
    by (intro image_cong) (auto simp: key_def dest: in_set_tl)
  then have "aset_step (abs_list abs_pc xs s) (abs_list abs_pc xs s')"
    using call_add by (intro abs_call [where t = t and x = "Add k"]) auto
  with call_add_inv [OF inv call_add(2-5)] call_add(1) show ?thesis by auto
next
  case (call_other w ws x)
  have "aset_step (abs_list abs_pc xs s) (abs_list abs_pc xs s')"
    using call_other by (intro abs_call [where t = t and x = x]) auto
  with call_step_frame [OF assms(1) inv] call_other show ?thesis by auto
next
  case (call_none w ws)
  have "abs_list abs_pc xs s' = abs_list abs_pc xs s"
    using call_none by (simp add: abs_list_def)
  with call_step_frame [OF assms(1) inv] call_none show ?thesis by auto
next
  case (call_return x r)
  have "aset_step (abs_list abs_pc xs s) (abs_list abs_pc xs s')"
    using call_return by (intro abs_return [where t = t and x = x and r = r]) auto
  with call_step_frame [OF assms(1) inv] call_return show ?thesis by auto
qed

lemma walk_step_abs: "walk_step t s s' \<Longrightarrow> abs_list abs_pc xs s' = abs_list abs_pc xs s"
  by (erule walk_step.cases; intro abs_stutter [where t = t]) auto

lemma unlock_step_abs: "unlock_step t s s' \<Longrightarrow> abs_list abs_pc xs s' = abs_list abs_pc xs s"
  by (erule unlock_step.cases; intro abs_stutter [where t = t]) auto

lemma list_contains_sim:
  assumes "list_contains t s s'" and inv: "finv xs s"
  shows "\<exists>ys. finv ys s' \<and> (abs_list abs_pc ys s' = abs_list abs_pc xs s \<or> aset_step (abs_list abs_pc xs s) (abs_list abs_pc ys s'))"
  using assms(1)
proof cases
  case (contains_test k nd p c n)
  then have "aset_step (abs_list abs_pc xs s) (abs_list abs_pc xs s')"
    using looking_contents [OF inv contains_test(2,3)]
    by (intro abs_perform [where t = t and x = "Contains k" and r = "fkey n = k"]) auto
  with finv_unchanged [OF inv contains_test(2)] contains_test(1) show ?thesis by auto
qed

lemma fstep_sim:
  assumes "fstep t s s'" and "finv xs s"
  shows "\<exists>ys. finv ys s' \<and> (abs_list abs_pc ys s' = abs_list abs_pc xs s \<or> aset_step (abs_list abs_pc xs s) (abs_list abs_pc ys s'))"
  using assms(1) unfolding fstep_def
proof (elim disjE)
  assume "walk_step t s s'"
  with assms(2) show ?thesis using walk_step_inv walk_step_abs by metis
next
  assume "unlock_step t s s'"
  with assms(2) show ?thesis using unlock_step_inv unlock_step_abs by metis
qed (use assms(2) call_step_sim list_add_sim list_remove_sim list_contains_sim in blast)+

lemma list_init_inv:
  assumes "a \<noteq> b" and "keys_below_max works"
  shows "finv [a, b] (list_init a b works)"
  using assms
  by (auto simp: finv_def list_ok_def locks_ok_def priv_ok_def fresh_ok_def todo_ok_def list_init_def
      key_def owner_def lnk_def nxt_def increasing_Cons keys_below_max_def)

definition fine_start :: "fine \<Rightarrow> bool" where
  "fine_start s \<longleftrightarrow> (\<exists>works. keys_below_max works \<and> fine_init works s)"

definition fine_sim :: "fine \<Rightarrow> aset_state \<Rightarrow> bool" where
  "fine_sim s a \<longleftrightarrow> (\<exists>xs. finv xs s \<and> a = abs_list abs_pc xs s)"

interpretation fl: simulation fine_start fine_step aset_init aset_step fine_sim
proof
  show "\<exists>a. aset_init a \<and> fine_sim s a" if "fine_start s" for s
  proof -
    from that obtain works a b where s: "s = list_init a b works" "a \<noteq> b" "keys_below_max works"
      by (auto simp: fine_start_def fine_init_def)
    then have "aset_init (abs_list abs_pc [a, b] s)"
      by (simp add: aset_init_def abs_list_def contents_def list_init_def)
    with list_init_inv s show ?thesis unfolding fine_sim_def by blast
  qed
  show "fine_sim s' a \<or> (\<exists>a'. aset_step a a' \<and> fine_sim s' a')"
    if "fine_sim s a" "fine_step s s'" for s s' a
    using that fstep_sim unfolding fine_sim_def fine_step_def by metis
qed

interpretation fi: safety fine_start fine_step "\<lambda>s. \<exists>xs. finv xs s"
proof
  show "\<exists>xs. finv xs s" if "fine_start s" for s
    using that list_init_inv by (auto simp: fine_start_def fine_init_def)
  show "\<exists>xs. finv xs s'" if "\<exists>xs. finv xs s" "fine_step s s'" for s s'
    using that fstep_sim unfolding fine_step_def by metis
qed


section \<open>What the program guarantees\<close>

text \<open>The nodes whose fields or mutex the next action of a thread reads or writes.\<close>

fun touches :: "fine \<Rightarrow> fpc \<Rightarrow> ptr set" where
  "touches s (Enter x nd) = {Some (fhead s)}"
| "touches s (HeldPrev x nd p) = {Some p}"
| "touches s (WaitCurr x nd p c) = {c}"
| "touches s (Looking x nd p c) = {Some p, Some c}"
| "touches s (Linking x n p c) = {Some n}"
| "touches s (Unlock1 x r p c) = {Some p}"
| "touches s (Unlock2 x r c) = {Some c}"
| "touches s (Freeing x r c) = {Some c}"
| "touches s _ = {}"

lemma finv_touches:
  assumes inv: "finv xs s" and "q \<in> touches s (fpcs s t)"
  shows "\<exists>n. deref (fheap s) q = Inr n"
proof -
  have "\<exists>a. q = Some a \<and> fheap s a \<noteq> None"
    using assms(2) finv_pc [OF inv, of t] finv_held [OF inv, of _ t] finv_dom [OF inv]
      finv_priv(2) [OF inv, of _ t] finv_ends(5) [OF inv]
    by (cases "fpcs s t") (auto dest: adj_in_set simp del: not_None_eq)
  then show ?thesis by (auto simp: deref_def)
qed

text \<open>A thread that is in the middle of an operation and waits for nobody can go on.\<close>

fun waits :: "fine \<Rightarrow> fpc \<Rightarrow> addr option" where
  "waits s (Enter x nd) = Some (fhead s)"
| "waits s (WaitCurr x nd p c) = c"
| "waits s _ = None"

lemma looking_step:
  assumes inv: "finv xs s" and at: "fpcs s t = Looking x nd p c"
  shows "\<exists>s'. fstep t s s'"
proof -
  from finv_held [OF inv, of c t] at obtain n where n: "fheap s c = Some n" by auto
  from finv_pc [OF inv, of t] at have new: "new_ok s x nd" by simp
  consider "fkey n < op_key x" | "fkey n = op_key x" | "op_key x < fkey n" by linarith
  then show ?thesis
  proof cases
    case 1
    with walk_step.advance [OF at n] show ?thesis unfolding fstep_def by blast
  next
    case 2
    with at n show ?thesis unfolding fstep_def
      by (cases x) (auto intro: list_add.add_found list_remove.remove_unlink list_contains.contains_test)
  next
    case 3
    with at n new show ?thesis unfolding fstep_def
      by (cases x) (fastforce simp: new_ok_def intro: list_add.add_link list_remove.remove_absent list_contains.contains_test)+
  qed
qed

lemma free_step:
  assumes inv: "finv xs s" and busy: "fpcs s t \<noteq> FIdle"
    and free: "\<And>a. waits s (fpcs s t) = Some a \<Longrightarrow> owner s a = None"
  shows "\<exists>s'. fstep t s s'"
proof (cases "fpcs s t")
  case (Enter x nd)
  from finv_dom [OF inv finv_ends(5) [OF inv]] obtain n where n: "fheap s (fhead s) = Some n" by auto
  with free Enter have "fowner n = None" by (simp add: owner_def)
  with walk_step.lock_head [OF Enter n] show ?thesis unfolding fstep_def by blast
next
  case (HeldPrev x nd p)
  then obtain n where "fheap s p = Some n" using finv_held [OF inv, of p t] by auto
  with walk_step.read_next [OF HeldPrev] show ?thesis unfolding fstep_def by blast
next
  case (WaitCurr x nd p c)
  with finv_pc [OF inv, of t] obtain c' where c: "c = Some c'" "c' \<in> set xs" by (auto dest: adj_in_set)
  with finv_dom [OF inv] obtain n where n: "fheap s c' = Some n" by auto
  with free WaitCurr c have "fowner n = None" by (simp add: owner_def)
  with walk_step.lock_curr [of s t x nd p c' n] n c WaitCurr show ?thesis unfolding fstep_def by blast
next
  case (Looking x nd p c)
  then show ?thesis by (rule looking_step [OF inv])
qed (use busy in \<open>auto simp: fstep_def intro: call_step.call_return list_add.add_linked
      list_remove.remove_free unlock_step.intros\<close>)

text \<open>
  Whoever waits for a node waits for a thread that is further down the list; so some thread
  that is in the middle of an operation can go on.
\<close>

lemma held_unblocked:
  assumes inv: "finv xs s" and "xs = us @ vs" and "a \<in> holds (fpcs s t)" and "a \<in> set vs"
  shows "\<exists>u. fpcs s u \<noteq> FIdle \<and> (\<forall>b. waits s (fpcs s u) = Some b \<longrightarrow> owner s b = None)"
  using assms(2-4)
proof (induction vs arbitrary: us a t)
  case Nil
  then show ?case by simp
next
  case (Cons v vs)
  show ?case
  proof (cases "a \<in> set vs")
    case True
    with Cons.IH [of "us @ [v]" a t] Cons.prems show ?thesis by simp
  next
    case False
    with Cons.prems have a: "a = v" by simp
    have busy: "fpcs s t \<noteq> FIdle" using Cons.prems(2) by auto
    show ?thesis
    proof (cases "\<exists>b u. waits s (fpcs s t) = Some b \<and> owner s b = Some u")
      case True
      then obtain b u where b: "waits s (fpcs s t) = Some b" "owner s b = Some u" by blast
      then have "adj xs a b"
        using Cons.prems(2) finv_pc [OF inv, of t] by (cases "fpcs s t") auto
      then have "b \<in> set vs"
        using Cons.prems(1) a finv_ends(1) [OF inv]
        by (cases vs) (auto simp: adj_append dest: adj_in_set)
      moreover have "b \<in> holds (fpcs s u)" using b(2) finv_own [OF inv] by simp
      ultimately show ?thesis using Cons.IH [of "us @ [v]" b u] Cons.prems(1) by simp
    next
      case False
      with busy show ?thesis by (metis option.exhaust)
    qed
  qed
qed

lemma finv_progress:
  assumes inv: "finv xs s" and "fpcs s t \<noteq> FIdle"
  shows "\<exists>u s'. fpcs s u \<noteq> FIdle \<and> fstep u s s'"
proof (cases "\<exists>b u. waits s (fpcs s t) = Some b \<and> owner s b = Some u")
  case True
  then obtain b u where "waits s (fpcs s t) = Some b" "b \<in> holds (fpcs s u)"
    using finv_own [OF inv] by blast
  moreover from this have "b \<in> set xs"
    using finv_pc [OF inv, of t] finv_ends(5) [OF inv] by (cases "fpcs s t") (auto dest: adj_in_set)
  ultimately show ?thesis using held_unblocked [OF inv, of "[]" xs b u] free_step [OF inv] by auto
next
  case False
  then show ?thesis using free_step [OF inv assms(2)] assms(2) by (metis option.exhaust)
qed

text \<open>Once every thread is done, the list is the increasing sequence of the contents.\<close>

lemma finished_validate:
  assumes inv: "finv xs s" and fin: "finished s"
  shows "validate s vs = Inr (vs = sorted_list_of_set (contents xs s))"
proof (rule sorted_validate [OF finv_sorted [OF inv]])
  show "nxt s a = Some (Some b)" if "adj xs a b" for a b
    using inv fin that by (auto simp: finv_def list_ok_def lnk_def finished_def)
  show "set xs \<subseteq> dom (fheap s)" using inv by (simp add: finv_def list_ok_def)
qed


definition demo_works :: "tid \<Rightarrow> work list" where
  "demo_works t = (if t = 0 then [\<lparr>work_type = CHR ''A'', work_value = 5\<rparr>] else [])"

definition demo_called :: fine where
  "demo_called = goto ((list_init 0 1 demo_works)\<lparr>ftodo := (\<lambda>_. []),
      fheap := (fheap (list_init 0 1 demo_works))(2 \<mapsto> \<lparr>fkey = 5, fnext = NULL, fowner = None\<rparr>)\<rparr>)
    0 (Enter (Add 5) (Some 2))"

lemma demo_start: "fine_start (list_init 0 1 demo_works)"
  by (auto simp: fine_start_def fine_init_def keys_below_max_def demo_works_def INT_MAX_def
      intro!: exI [of _ demo_works])

lemma demo_call: "fine_step (list_init 0 1 demo_works) demo_called"
proof -
  have td: "(ftodo (list_init 0 1 demo_works))(0 := []) = (\<lambda>_. [])"
    by (auto simp: list_init_def demo_works_def fun_eq_iff)
  have "call_step 0 (list_init 0 1 demo_works) demo_called"
    unfolding demo_called_def td [symmetric]
    by (rule call_step.call_add [where w = "\<lparr>work_type = CHR ''A'', work_value = 5\<rparr>"])
      (simp_all add: list_init_def demo_works_def op_of_def)
  then show ?thesis by (auto simp: fine_step_def fstep_def)
qed

lemma demo_reach: "reach fine_start fine_step demo_called"
  using reach_step [where init = fine_start and step = fine_step] reach_init demo_start demo_call by metis






end
