(* ===== verification/Optimistic_List.thy ===== *)
theory Optimistic_List
  imports Locked_List
begin

text \<open>
  lab11/optimistic.cpp: the sorted list with one mutex per node that is walked without
  locking.  An operation locks the two nodes it found and then validates, by a second walk
  from the head, that the first one is still in the list and still points to the second one;
  if not it starts again.  Removed nodes are never freed, so a walk may pass through them.
  The program is a step relation, one rule per visible action of one thread.
\<close>

section \<open>The program\<close>

datatype opc =
    OIdle
  | Begin set_op ptr \<comment> \<open>about to read \<open>head->next\<close>; the node of an add\<close>
  | Walk set_op ptr addr ptr \<comment> \<open>about to test the key of \<open>curr\<close>\<close>
  | Lock1 set_op ptr addr addr \<comment> \<open>about to lock \<open>prev\<close>\<close>
  | Lock2 set_op ptr addr addr \<comment> \<open>about to lock \<open>curr\<close>\<close>
  | Check set_op ptr addr addr ptr \<comment> \<open>in \<open>list_validate\<close>, with the loop variable \<open>it\<close>\<close>
  | Retry1 set_op ptr addr addr \<comment> \<open>validation failed, about to unlock \<open>prev\<close>\<close>
  | Retry2 set_op ptr addr \<comment> \<open>about to unlock \<open>curr\<close> and to start again\<close>
  | Found set_op ptr addr addr \<comment> \<open>validation succeeded, about to test the key of \<open>curr\<close>\<close>
  | Link set_op addr addr addr \<comment> \<open>\<open>node->next = curr\<close> is done, \<open>prev->next = node\<close> is not\<close>
  | Release1 set_op bool addr addr \<comment> \<open>about to unlock \<open>prev\<close>\<close>
  | Release2 set_op bool addr \<comment> \<open>about to unlock \<open>curr\<close>\<close>
  | ODone set_op bool

type_synonym opt = "opc locked"

text \<open>
  The two sentinels.  The program does not initialise their mutexes: \<open>u\<close> and \<open>v\<close> stand for
  what the fresh memory holds there.
\<close>

definition list_init :: "tid option \<Rightarrow> tid option \<Rightarrow> addr \<Rightarrow> addr \<Rightarrow> (tid \<Rightarrow> work list) \<Rightarrow> opt" where
  "list_init u v a b works =
     \<lparr>fheap = Map.empty(a \<mapsto> \<lparr>fkey = INT_MIN, fnext = Some b, fowner = u\<rparr>,
                        b \<mapsto> \<lparr>fkey = INT_MAX, fnext = NULL, fowner = v\<rparr>),
      fhead = a, ftail = b, fpcs = (\<lambda>_. OIdle), ftodo = works\<rparr>"

inductive call_step :: "tid \<Rightarrow> opt \<Rightarrow> opt \<Rightarrow> bool" where
  call_add: "fpcs s t = OIdle \<Longrightarrow> ftodo s t = w # ws \<Longrightarrow> op_of w = Some (Add k) \<Longrightarrow> fheap s x = None \<Longrightarrow>
    call_step t s (goto (s\<lparr>ftodo := (ftodo s)(t := ws),
        fheap := (fheap s)(x \<mapsto> \<lparr>fkey = k, fnext = junk, fowner = None\<rparr>)\<rparr>)
      t (Begin (Add k) (Some x)))"
| call_other: "fpcs s t = OIdle \<Longrightarrow> ftodo s t = w # ws \<Longrightarrow> op_of w = Some x \<Longrightarrow> (\<forall>k. x \<noteq> Add k) \<Longrightarrow>
    call_step t s (goto (s\<lparr>ftodo := (ftodo s)(t := ws)\<rparr>) t (Begin x NULL))"
| call_none: "fpcs s t = OIdle \<Longrightarrow> ftodo s t = w # ws \<Longrightarrow> op_of w = None \<Longrightarrow>
    call_step t s (s\<lparr>ftodo := (ftodo s)(t := ws)\<rparr>)"
| call_return: "fpcs s t = ODone x r \<Longrightarrow> call_step t s (goto s t OIdle)"

text \<open>The walk without locks, and the two locks at its end.\<close>

inductive walk_step :: "tid \<Rightarrow> opt \<Rightarrow> opt \<Rightarrow> bool" where
  read_head: "fpcs s t = Begin x nd \<Longrightarrow> fheap s (fhead s) = Some n \<Longrightarrow>
    walk_step t s (goto s t (Walk x nd (fhead s) (fnext n)))"
| advance: "fpcs s t = Walk x nd p (Some c) \<Longrightarrow> fheap s c = Some n \<Longrightarrow> fkey n < op_key x \<Longrightarrow>
    walk_step t s (goto s t (Walk x nd c (fnext n)))"
| stop: "fpcs s t = Walk x nd p (Some c) \<Longrightarrow> fheap s c = Some n \<Longrightarrow> op_key x \<le> fkey n \<Longrightarrow>
    walk_step t s (goto s t (Lock1 x nd p c))"
| lock_prev: "fpcs s t = Lock1 x nd p c \<Longrightarrow> fheap s p = Some n \<Longrightarrow> fowner n = None \<Longrightarrow>
    walk_step t s (goto (s\<lparr>fheap := set_owner (fheap s) p (Some t)\<rparr>) t (Lock2 x nd p c))"
| lock_curr: "fpcs s t = Lock2 x nd p c \<Longrightarrow> fheap s c = Some n \<Longrightarrow> fowner n = None \<Longrightarrow>
    walk_step t s (goto (s\<lparr>fheap := set_owner (fheap s) c (Some t)\<rparr>) t (Check x nd p c (Some (fhead s))))"

inductive list_validate :: "tid \<Rightarrow> opt \<Rightarrow> opt \<Rightarrow> bool" where
  at_prev: "fpcs s t = Check x nd p c (Some p) \<Longrightarrow> fheap s p = Some n \<Longrightarrow>
    list_validate t s (goto s t (if fnext n = Some c then Found x nd p c else Retry1 x nd p c))"
| next_node: "fpcs s t = Check x nd p c (Some i) \<Longrightarrow> i \<noteq> p \<Longrightarrow> fheap s i = Some n \<Longrightarrow> fheap s p = Some m \<Longrightarrow>
    fkey n \<le> fkey m \<Longrightarrow>
    list_validate t s (goto s t (Check x nd p c (fnext n)))"
| passed: "fpcs s t = Check x nd p c (Some i) \<Longrightarrow> fheap s i = Some n \<Longrightarrow> fheap s p = Some m \<Longrightarrow>
    fkey m < fkey n \<Longrightarrow>
    list_validate t s (goto s t (Retry1 x nd p c))"

inductive list_add :: "tid \<Rightarrow> opt \<Rightarrow> opt \<Rightarrow> bool" where
  add_found: "fpcs s t = Found (Add k) nd p c \<Longrightarrow> fheap s c = Some n \<Longrightarrow> fkey n = k \<Longrightarrow>
    list_add t s (goto s t (Release1 (Add k) False p c))"
| add_node: "fpcs s t = Found (Add k) (Some x) p c \<Longrightarrow> fheap s c = Some n \<Longrightarrow> fkey n \<noteq> k \<Longrightarrow>
    list_add t s (goto (s\<lparr>fheap := set_next (fheap s) x (Some c)\<rparr>) t (Link (Add k) x p c))"
| add_link: "fpcs s t = Link y x p c \<Longrightarrow>
    list_add t s (goto (s\<lparr>fheap := set_next (fheap s) p (Some x)\<rparr>) t (Release1 y True p c))"

inductive list_remove :: "tid \<Rightarrow> opt \<Rightarrow> opt \<Rightarrow> bool" where
  remove_absent: "fpcs s t = Found (Remove k) nd p c \<Longrightarrow> fheap s c = Some n \<Longrightarrow> fkey n \<noteq> k \<Longrightarrow>
    list_remove t s (goto s t (Release1 (Remove k) False p c))"
| remove_unlink: "fpcs s t = Found (Remove k) nd p c \<Longrightarrow> fheap s c = Some n \<Longrightarrow> fkey n = k \<Longrightarrow>
    list_remove t s (goto (s\<lparr>fheap := set_next (fheap s) p (fnext n)\<rparr>) t (Release1 (Remove k) True p c))"

inductive list_contains :: "tid \<Rightarrow> opt \<Rightarrow> opt \<Rightarrow> bool" where
  contains_test: "fpcs s t = Found (Contains k) nd p c \<Longrightarrow> fheap s c = Some n \<Longrightarrow>
    list_contains t s (goto s t (Release1 (Contains k) (fkey n = k) p c))"

inductive unlock_step :: "tid \<Rightarrow> opt \<Rightarrow> opt \<Rightarrow> bool" where
  retry_prev: "fpcs s t = Retry1 x nd p c \<Longrightarrow>
    unlock_step t s (goto (s\<lparr>fheap := set_owner (fheap s) p None\<rparr>) t (Retry2 x nd c))"
| retry_curr: "fpcs s t = Retry2 x nd c \<Longrightarrow>
    unlock_step t s (goto (s\<lparr>fheap := set_owner (fheap s) c None\<rparr>) t (Begin x nd))"
| release_prev: "fpcs s t = Release1 x r p c \<Longrightarrow>
    unlock_step t s (goto (s\<lparr>fheap := set_owner (fheap s) p None\<rparr>) t (Release2 x r c))"
| release_curr: "fpcs s t = Release2 x r c \<Longrightarrow>
    unlock_step t s (goto (s\<lparr>fheap := set_owner (fheap s) c None\<rparr>) t (ODone x r))"

definition ostep :: "tid \<Rightarrow> opt \<Rightarrow> opt \<Rightarrow> bool" where
  "ostep t s s' \<longleftrightarrow> call_step t s s' \<or> walk_step t s s' \<or> list_validate t s s' \<or> list_add t s s' \<or>
     list_remove t s s' \<or> list_contains t s s' \<or> unlock_step t s s'"

definition opt_step :: "opt \<Rightarrow> opt \<Rightarrow> bool" where
  "opt_step s s' \<longleftrightarrow> (\<exists>t. ostep t s s')"

text \<open>
  \<open>main\<close> starts the threads on the initial list and waits until every thread has done its
  work.  \<open>opt_start\<close> is the start when the fresh memory happens to hold free mutexes.
\<close>

definition opt_start :: "opt \<Rightarrow> bool" where
  "opt_start s \<longleftrightarrow> (\<exists>a b works. a \<noteq> b \<and> keys_below_max works \<and> s = list_init None None a b works)"

definition finished :: "opt \<Rightarrow> bool" where
  "finished s \<longleftrightarrow> (\<forall>t. fpcs s t = OIdle \<and> ftodo s t = [])"


section \<open>The invariant\<close>

fun holds :: "opc \<Rightarrow> addr set" where
  "holds (Lock2 x nd p c) = {p}"
| "holds (Check x nd p c i) = {p, c}"
| "holds (Retry1 x nd p c) = {p, c}"
| "holds (Retry2 x nd c) = {c}"
| "holds (Found x nd p c) = {p, c}"
| "holds (Link x nd p c) = {p, c}"
| "holds (Release1 x r p c) = {p, c}"
| "holds (Release2 x r c) = {c}"
| "holds _ = {}"

text \<open>The node of an add that has not been published yet.\<close>

fun priv :: "opc \<Rightarrow> addr set" where
  "priv (Begin x nd) = set_option nd"
| "priv (Walk x nd p c) = set_option nd"
| "priv (Lock1 x nd p c) = set_option nd"
| "priv (Lock2 x nd p c) = set_option nd"
| "priv (Check x nd p c i) = set_option nd"
| "priv (Retry1 x nd p c) = set_option nd"
| "priv (Retry2 x nd c) = set_option nd"
| "priv (Found x nd p c) = set_option nd"
| "priv (Link x nd p c) = {nd}"
| "priv _ = {}"

text \<open>The order in which nodes occur on any path of next pointers.\<close>

definition before :: "opt \<Rightarrow> addr \<Rightarrow> addr \<Rightarrow> bool" where
  "before s a b \<longleftrightarrow> b \<noteq> fhead s \<and> (a = fhead s \<or> key s a < key s b)"

definition points :: "opt \<Rightarrow> addr \<Rightarrow> addr \<Rightarrow> bool" where
  "points s a b \<longleftrightarrow> nxt s a = Some (Some b)"

definition found_ok :: "addr set \<Rightarrow> opt \<Rightarrow> set_op \<Rightarrow> addr \<Rightarrow> addr \<Rightarrow> bool" where
  "found_ok P s x p c \<longleftrightarrow> p \<in> P \<and> c \<in> P \<and> below s x p \<and> before s p c \<and> op_key x \<le> key s c"

fun pc_ok :: "addr list \<Rightarrow> addr set \<Rightarrow> opt \<Rightarrow> opc \<Rightarrow> bool" where
  "pc_ok xs P s (Begin x nd) = new_ok s x nd"
| "pc_ok xs P s (Walk x nd p c) = (new_ok s x nd \<and> p \<in> P \<and> below s x p \<and>
     (\<exists>c'. c = Some c' \<and> c' \<in> P \<and> before s p c'))"
| "pc_ok xs P s (Lock1 x nd p c) = (new_ok s x nd \<and> found_ok P s x p c)"
| "pc_ok xs P s (Lock2 x nd p c) = (new_ok s x nd \<and> found_ok P s x p c)"
| "pc_ok xs P s (Check x nd p c i) = (new_ok s x nd \<and> found_ok P s x p c \<and>
     (\<exists>i'. i = Some i' \<and> i' \<in> P \<and> (p \<notin> set xs \<longrightarrow> \<not> (points s)\<^sup>*\<^sup>* i' p)))"
| "pc_ok xs P s (Retry1 x nd p c) = (new_ok s x nd \<and> p \<noteq> c)"
| "pc_ok xs P s (Retry2 x nd c) = new_ok s x nd"
| "pc_ok xs P s (Found x nd p c) = (new_ok s x nd \<and> found_ok P s x p c \<and> adj xs p c)"
| "pc_ok xs P s (Link x nd p c) = (new_ok s x (Some nd) \<and> found_ok P s x p c \<and> adj xs p c \<and>
     points s nd c \<and> key s nd < key s c)"
| "pc_ok xs P s (Release1 x r p c) = (p \<noteq> c)"
| "pc_ok xs P s _ = True"

text \<open>
  \<open>xs\<close> is the list; \<open>P\<close> are the nodes that are or were in it.  Paths from a published node
  stay published, and only the tail sentinel has no successor.
\<close>

definition list_ok :: "addr list \<Rightarrow> addr set \<Rightarrow> opt \<Rightarrow> bool" where
  "list_ok xs P s \<longleftrightarrow> sorted_nodes xs s \<and> set xs \<subseteq> P \<and> P \<subseteq> dom (fheap s) \<and>
     (\<forall>a b. adj xs a b \<longrightarrow> points s a b) \<and> nxt s (ftail s) = Some NULL \<and>
     (\<forall>a \<in> P. a \<noteq> ftail s \<longrightarrow> (\<exists>b. points s a b)) \<and>
     (\<forall>a \<in> P. \<forall>b. points s a b \<longrightarrow> b \<in> P \<and> before s a b)"

definition locks_ok :: "opt \<Rightarrow> bool" where
  "locks_ok s \<longleftrightarrow> (\<forall>t a. a \<in> holds (fpcs s t) \<longleftrightarrow> owner s a = Some t)"

definition priv_ok :: "addr set \<Rightarrow> opt \<Rightarrow> bool" where
  "priv_ok P s \<longleftrightarrow> (\<forall>t. priv (fpcs s t) \<subseteq> dom (fheap s) - P) \<and>
     (\<forall>t u. t \<noteq> u \<longrightarrow> priv (fpcs s t) \<inter> priv (fpcs s u) = {})"

definition oinv :: "addr list \<Rightarrow> addr set \<Rightarrow> opt \<Rightarrow> bool" where
  "oinv xs P s \<longleftrightarrow> list_ok xs P s \<and> locks_ok s \<and> priv_ok P s \<and>
     (\<forall>t. pc_ok xs P s (fpcs s t)) \<and> todo_ok s"

lemma view_cong:
  assumes "key s' = key s" and "fhead s' = fhead s"
  shows "before s' = before s" and "found_ok P s' = found_ok P s"
  using assms below_cong [OF assms] by (auto simp: before_def found_ok_def fun_eq_iff)

lemma points_cong: "nxt s' = nxt s \<Longrightarrow> points s' = points s"
  by (simp add: points_def fun_eq_iff)

lemma opt_pc_ok_cong:
  "key s' = key s \<Longrightarrow> fhead s' = fhead s \<Longrightarrow> nxt s' = nxt s \<Longrightarrow> pc_ok xs P s' pc = pc_ok xs P s pc"
  using new_ok_cong [of s' s] below_cong [of s' s] view_cong [of s' s] points_cong [of s' s]
  by (cases pc) simp_all

lemma before_neq: "before s a b \<Longrightarrow> a \<noteq> b"
  by (auto simp: before_def)

lemma oinv_pc: "oinv xs P s \<Longrightarrow> pc_ok xs P s (fpcs s t)"
  by (simp add: oinv_def)

lemma oinv_own: "oinv xs P s \<Longrightarrow> owner s a = Some t \<longleftrightarrow> a \<in> holds (fpcs s t)"
  by (simp add: oinv_def locks_ok_def)

lemma oinv_held: "oinv xs P s \<Longrightarrow> a \<in> holds (fpcs s t) \<Longrightarrow> fheap s a \<noteq> None"
  using owner_dom oinv_own by blast

lemma oinv_todo: "oinv xs P s \<Longrightarrow> todo_ok s"
  by (simp add: oinv_def)

lemma oinv_sorted: "oinv xs P s \<Longrightarrow> sorted_nodes xs s"
  by (simp add: oinv_def list_ok_def)

lemmas oinv_ends = sorted_ends [OF oinv_sorted]

lemma oinv_list:
  assumes "oinv xs P s"
  shows "set xs \<subseteq> P" "P \<subseteq> dom (fheap s)" "adj xs a b \<Longrightarrow> points s a b" "nxt s (ftail s) = Some NULL"
    "a \<in> P \<Longrightarrow> a \<noteq> ftail s \<Longrightarrow> \<exists>b. points s a b"
    "a \<in> P \<Longrightarrow> points s a b \<Longrightarrow> b \<in> P" "a \<in> P \<Longrightarrow> points s a b \<Longrightarrow> before s a b"
  using assms unfolding oinv_def list_ok_def by blast+

lemma oinv_priv:
  assumes "oinv xs P s" and "a \<in> priv (fpcs s t)"
  shows "a \<notin> P" "fheap s a \<noteq> None" "u \<noteq> t \<Longrightarrow> a \<notin> priv (fpcs s u)"
  using assms unfolding oinv_def priv_ok_def by (blast, blast, blast)

lemma oinv_other:
  assumes inv: "oinv xs P s" and "p \<in> holds (fpcs s t)" and "u \<noteq> t"
  shows "p \<notin> holds (fpcs s u)"
  using assms oinv_own [OF inv, of p t] oinv_own [OF inv, of p u] by auto


section \<open>Every step keeps the invariant\<close>

text \<open>Steps that only move one thread and change mutexes.\<close>

lemma oinv_frame:
  assumes inv: "oinv xs P s"
    and same: "key s' = key s" "nxt s' = nxt s" "dom (fheap s') = dom (fheap s)"
      "fhead s' = fhead s" "ftail s' = ftail s" "fpcs s' = (fpcs s)(t := pc)"
    and own: "\<And>a. a \<in> holds pc \<longleftrightarrow> owner s' a = Some t"
      "\<And>a u. u \<noteq> t \<Longrightarrow> owner s' a = Some u \<longleftrightarrow> owner s a = Some u"
    and prv: "priv pc \<subseteq> priv (fpcs s t)" and pc: "pc_ok xs P s pc" and todo: "todo_ok s'"
  shows "oinv xs P s'"
proof -
  from inv same points_cong [OF same(2)] view_cong [OF same(1,4)] have "list_ok xs P s'"
    by (simp add: oinv_def list_ok_def sorted_nodes_def)
  moreover have "locks_ok s'"
    using inv own same(6) by (auto simp: oinv_def locks_ok_def)
  moreover have "priv_ok P s'"
    using inv same(3,6) prv unfolding oinv_def priv_ok_def by (simp add: fun_upd_def) blast
  moreover have "pc_ok xs P s' (fpcs s' u)" for u
    using inv pc same(6) opt_pc_ok_cong [OF same(1,4,2)] by (auto simp: oinv_def)
  ultimately show ?thesis using todo by (simp add: oinv_def)
qed

text \<open>Reading the next pointer of a published node below the key gives a published node.\<close>

lemma read_pub:
  assumes inv: "oinv xs P s" and "a \<in> P" and "fheap s a = Some n" and "a = fhead s \<or> fkey n < INT_MAX"
  shows "\<exists>b. fnext n = Some b \<and> b \<in> P \<and> before s a b \<and> points s a b"
proof -
  have "a \<noteq> ftail s" using assms(3,4) oinv_ends(4,8) [OF inv] by auto
  with oinv_list(5) [OF inv assms(2)] obtain b where b: "points s a b" by blast
  with assms(3) have "fnext n = Some b" by (simp add: points_def nxt_def)
  with b oinv_list(6,7) [OF inv assms(2) b] show ?thesis by blast
qed

lemma head_pub: "oinv xs P s \<Longrightarrow> fhead s \<in> P"
  using oinv_ends(5) oinv_list(1) by blast

text \<open>From a node of the list only nodes of the list can be reached.\<close>

lemma reach_list:
  assumes inv: "oinv xs P s" and "(points s)\<^sup>*\<^sup>* a b" and "a \<in> set xs"
  shows "b \<in> set xs"
  using assms(2,3)
proof (induction rule: rtranclp_induct)
  case base
  then show ?case .
next
  case (step b c)
  then have b: "b \<in> set xs" by simp
  have "b \<noteq> last xs" using step.hyps(2) oinv_list(4) [OF inv] oinv_ends(3) [OF inv] by (auto simp: points_def)
  with b adj_next_ex obtain d where "adj xs b d" by metis
  with oinv_list(3) [OF inv] step.hyps(2) show ?case by (auto simp: points_def dest: adj_in_set)
qed

lemma opt_walk_step_inv:
  assumes "walk_step t s s'" and inv: "oinv xs P s"
  shows "oinv xs P s'"
  using assms(1)
proof cases
  case (read_head x nd n)
  from read_pub [OF inv head_pub [OF inv] read_head(3)] obtain b where
    "fnext n = Some b" "b \<in> P" "before s (fhead s) b" by auto
  with read_head show ?thesis
    using oinv_pc [OF inv, of t] oinv_own [OF inv, of _ t] oinv_todo [OF inv] head_pub [OF inv]
    by (intro oinv_frame [OF inv, where t = t and pc = "Walk x nd (fhead s) (fnext n)"])
      (auto simp: below_def)
next
  case (advance x nd p c n)
  then have "c \<in> P" "fkey n < INT_MAX" using oinv_pc [OF inv, of t] by (auto simp: new_ok_def)
  with read_pub [OF inv _ advance(3)] obtain b where "fnext n = Some b" "b \<in> P" "before s c b" by auto
  with advance show ?thesis
    using oinv_pc [OF inv, of t] oinv_own [OF inv, of _ t] oinv_todo [OF inv]
    by (intro oinv_frame [OF inv, where t = t and pc = "Walk x nd c (fnext n)"])
      (auto simp: below_def)
next
  case (stop x nd p c n)
  then show ?thesis
    using oinv_pc [OF inv, of t] oinv_own [OF inv, of _ t] oinv_todo [OF inv]
    by (intro oinv_frame [OF inv, where t = t and pc = "Lock1 x nd p c"])
      (auto simp: found_ok_def)
next
  case (lock_prev x nd p c n)
  then show ?thesis
    using oinv_pc [OF inv, of t] oinv_own [OF inv, of _ t] oinv_todo [OF inv] free_own [of s p n]
    by (intro oinv_frame [OF inv, where t = t and pc = "Lock2 x nd p c"]) auto
next
  case (lock_curr x nd p c n)
  have "p \<notin> set xs \<Longrightarrow> \<not> (points s)\<^sup>*\<^sup>* (fhead s) p"
    using reach_list [OF inv] oinv_ends(5) [OF inv] by blast
  with lock_curr show ?thesis
    using oinv_pc [OF inv, of t] oinv_own [OF inv, of _ t] oinv_todo [OF inv] free_own [of s c n]
      head_pub [OF inv]
    by (intro oinv_frame [OF inv, where t = t and pc = "Check x nd p c (Some (fhead s))"]) auto
qed

lemma list_validate_inv:
  assumes "list_validate t s s'" and inv: "oinv xs P s"
  shows "oinv xs P s'"
  using assms(1)
proof cases
  case (at_prev x nd p c n)
  have pc: "new_ok s x nd" "found_ok P s x p c" "p \<in> set xs"
    using oinv_pc [OF inv, of t] at_prev(2) by auto
  have "adj xs p c" if "fnext n = Some c"
  proof -
    have "points s p c" using that at_prev(3) by (simp add: points_def nxt_def)
    moreover have "p \<noteq> last xs" using calculation oinv_list(4) [OF inv] oinv_ends(3) [OF inv]
      by (auto simp: points_def)
    then obtain d where "adj xs p d" using adj_next_ex pc(3) by metis
    ultimately show ?thesis using oinv_list(3) [OF inv, of p d] by (auto simp: points_def)
  qed
  with at_prev pc show ?thesis
    using oinv_own [OF inv, of _ t] oinv_todo [OF inv] before_neq [of s p c]
    by (intro oinv_frame [OF inv, where t = t and
          pc = "if fnext n = Some c then Found x nd p c else Retry1 x nd p c"])
      (auto simp: found_ok_def)
next
  case (next_node x nd p c i n m)
  have pc: "new_ok s x nd" "found_ok P s x p c" "i \<in> P" "p \<notin> set xs \<longrightarrow> \<not> (points s)\<^sup>*\<^sup>* i p"
    using oinv_pc [OF inv, of t] next_node(2) by auto
  have "i = fhead s \<or> fkey n < INT_MAX"
    using pc(1,2) next_node(3-6) oinv_ends(7) [OF inv] INT_MIN_less_MAX
    by (fastforce simp: found_ok_def below_def new_ok_def)
  with read_pub [OF inv pc(3) next_node(4)] obtain b where
    b: "fnext n = Some b" "b \<in> P" "points s i b" by auto
  with pc(4) have "p \<notin> set xs \<longrightarrow> \<not> (points s)\<^sup>*\<^sup>* b p" by (meson converse_rtranclp_into_rtranclp)
  with next_node(1,2) pc b show ?thesis
    using oinv_own [OF inv, of _ t] oinv_todo [OF inv]
    by (intro oinv_frame [OF inv, where t = t and pc = "Check x nd p c (fnext n)"]) auto
next
  case (passed x nd p c i n m)
  then show ?thesis
    using oinv_pc [OF inv, of t] oinv_own [OF inv, of _ t] oinv_todo [OF inv] before_neq [of s p c]
    by (intro oinv_frame [OF inv, where t = t and pc = "Retry1 x nd p c"]) (auto simp: found_ok_def)
qed

lemma opt_unlock_step_inv:
  assumes "unlock_step t s s'" and inv: "oinv xs P s"
  shows "oinv xs P s'"
  using assms(1)
proof cases
  case (retry_prev x nd p c)
  then have "fheap s p \<noteq> None" "\<And>u. u \<noteq> t \<Longrightarrow> owner s p \<noteq> Some u"
    using oinv_held [OF inv, of p t] oinv_own [OF inv, of p t] by simp_all
  with retry_prev show ?thesis
    using oinv_pc [OF inv, of t] oinv_own [OF inv, of _ t] oinv_todo [OF inv]
    by (intro oinv_frame [OF inv, where t = t and pc = "Retry2 x nd c"]) auto
next
  case (retry_curr x nd c)
  then have "fheap s c \<noteq> None" "\<And>u. u \<noteq> t \<Longrightarrow> owner s c \<noteq> Some u"
    using oinv_held [OF inv, of c t] oinv_own [OF inv, of c t] by simp_all
  with retry_curr show ?thesis
    using oinv_pc [OF inv, of t] oinv_own [OF inv, of _ t] oinv_todo [OF inv]
    by (intro oinv_frame [OF inv, where t = t and pc = "Begin x nd"]) auto
next
  case (release_prev x r p c)
  then have "fheap s p \<noteq> None" "\<And>u. u \<noteq> t \<Longrightarrow> owner s p \<noteq> Some u"
    using oinv_held [OF inv, of p t] oinv_own [OF inv, of p t] by simp_all
  with release_prev show ?thesis
    using oinv_pc [OF inv, of t] oinv_own [OF inv, of _ t] oinv_todo [OF inv]
    by (intro oinv_frame [OF inv, where t = t and pc = "Release2 x r c"]) auto
next
  case (release_curr x r c)
  then have "fheap s c \<noteq> None" "\<And>u. u \<noteq> t \<Longrightarrow> owner s c \<noteq> Some u"
    using oinv_held [OF inv, of c t] oinv_own [OF inv, of c t] by simp_all
  with release_curr show ?thesis
    using oinv_pc [OF inv, of t] oinv_own [OF inv, of _ t] oinv_todo [OF inv]
    by (intro oinv_frame [OF inv, where t = t and pc = "ODone x r"]) auto
qed

lemma oinv_unchanged:
  assumes inv: "oinv xs P s" and "fpcs s t = Found x nd p c"
  shows "oinv xs P (goto s t (Release1 x r p c))"
  using assms oinv_pc [OF inv, of t] oinv_own [OF inv, of _ t] oinv_todo [OF inv] before_neq [of s p c]
  by (intro oinv_frame [OF inv, where t = t and pc = "Release1 x r p c"]) (auto simp: found_ok_def)

text \<open>
  Steps that write a node which is not published: a fresh node, or the next pointer of the
  node of an add.
\<close>

lemma reach_same:
  assumes inv: "oinv xs P s" and "\<And>a b. a \<in> P \<Longrightarrow> points s' a b \<Longrightarrow> points s a b"
    and "(points s')\<^sup>*\<^sup>* a b" and "a \<in> P"
  shows "(points s)\<^sup>*\<^sup>* a b \<and> b \<in> P"
  using assms(3,4)
proof (induction rule: rtranclp_induct)
  case base
  then show ?case by simp
next
  case (step b c)
  then have b: "(points s)\<^sup>*\<^sup>* a b" "b \<in> P" by simp_all
  with assms(2) step.hyps(2) have "points s b c" by blast
  with b oinv_list(6) [OF inv b(2)] show ?case by (meson rtranclp.rtrancl_into_rtrancl)
qed

lemma oinv_outside:
  assumes inv: "oinv xs P s" and x: "x \<notin> P" "\<And>u. u \<noteq> t \<Longrightarrow> x \<notin> priv (fpcs s u)"
    and key: "\<And>a. a \<noteq> x \<Longrightarrow> key s' a = key s a" and nxt: "\<And>a. a \<noteq> x \<Longrightarrow> nxt s' a = nxt s a"
    and same: "dom (fheap s') = insert x (dom (fheap s))" "fhead s' = fhead s" "ftail s' = ftail s"
      "owner s' = owner s" "fpcs s' = (fpcs s)(t := pc)"
    and pc: "holds pc = holds (fpcs s t)" "priv pc = {x}" "pc_ok xs P s' pc" and todo: "todo_ok s'"
  shows "oinv xs P s'"
proof -
  have xs: "x \<notin> set xs" "x \<noteq> fhead s" "x \<noteq> ftail s"
    using x oinv_list(1) [OF inv] oinv_ends(5,6) [OF inv] by auto
  have pts: "points s' a b \<longleftrightarrow> points s a b" if "a \<in> P" for a b
    using nxt that x by (metis points_def)
  have bef: "before s' a b \<longleftrightarrow> before s a b" if "a \<in> P" "b \<in> P" for a b
    using key that x same(2) by (metis before_def)
  have bel: "below s' y p \<longleftrightarrow> below s y p" if "p \<in> P" for y p
    using key that x same(2) by (metis below_def)
  have fnd: "found_ok P s' y p c \<longleftrightarrow> found_ok P s y p c" for y p c
    using bef bel key x unfolding found_ok_def by metis
  have "increasing (key s') (tl xs) = increasing (key s) (tl xs)"
    using key xs by (intro increasing_cong) (metis in_set_tl)
  then have srt: "sorted_nodes xs s'"
    using oinv_sorted [OF inv] same xs key unfolding sorted_nodes_def by auto
  have "\<forall>a b. adj xs a b \<longrightarrow> points s' a b"
    using oinv_list(1,3) [OF inv] pts adj_in_set by (metis subset_iff)
  moreover have "\<forall>a \<in> P. a \<noteq> ftail s \<longrightarrow> (\<exists>b. points s' a b)" using oinv_list(5) [OF inv] pts by metis
  moreover have "\<forall>a \<in> P. \<forall>b. points s' a b \<longrightarrow> b \<in> P \<and> before s' a b"
    using oinv_list(6,7) [OF inv] pts bef by metis
  ultimately have "list_ok xs P s'"
    using oinv_list(1,2,4) [OF inv] srt same nxt [OF xs(3) [symmetric]] unfolding list_ok_def by auto
  moreover have "locks_ok s'"
    using oinv_own [OF inv] same pc(1) unfolding locks_ok_def by auto
  moreover have "priv_ok P s'"
    using inv x pc(2) same unfolding oinv_def priv_ok_def by auto
  moreover have "pc_ok xs P s' (fpcs s' u)" for u
  proof (cases "u = t")
    case True
    with pc same show ?thesis by simp
  next
    case False
    have nw: "new_ok s y nd \<Longrightarrow> set_option nd \<subseteq> priv (fpcs s u) \<Longrightarrow> new_ok s' y nd" for y nd
      using x(2) [OF False] key unfolding new_ok_def by (auto split: set_op.splits)
    have rch: "i \<in> P \<Longrightarrow> \<not> (points s)\<^sup>*\<^sup>* i p \<Longrightarrow> \<not> (points s')\<^sup>*\<^sup>* i p" for i p
      using reach_same [OF inv] pts by blast
    have lk: "n \<in> priv (fpcs s u) \<Longrightarrow> points s' n c = points s n c \<and> key s' n = key s n" for n c
      using x(2) [OF False] nxt key unfolding points_def by metis
    have cc: "found_ok P s y p c \<Longrightarrow> key s' c = key s c" for y p c
      using x key unfolding found_ok_def by metis
    show ?thesis using False same(5) oinv_pc [OF inv, of u] nw rch fnd bel bef lk cc
      by (cases "fpcs s u") auto
  qed
  ultimately show ?thesis using todo by (simp add: oinv_def)
qed

lemma opt_call_add_inv:
  assumes inv: "oinv xs P s" and at: "fpcs s t = OIdle" "ftodo s t = w # ws" "op_of w = Some (Add k)"
    and x: "fheap s x = None"
  shows "oinv xs P (goto (s\<lparr>ftodo := (ftodo s)(t := ws),
        fheap := (fheap s)(x \<mapsto> \<lparr>fkey = k, fnext = junk, fowner = None\<rparr>)\<rparr>)
      t (Begin (Add k) (Some x)))" (is "oinv xs P ?s")
proof (rule oinv_outside [OF inv, where x = x and t = t])
  show "x \<notin> P" using oinv_list(2) [OF inv] x by auto
  show "x \<notin> priv (fpcs s u)" for u using oinv_priv(2) [OF inv, of x u] x by blast
  have "k < INT_MAX"
    using at oinv_todo [OF inv] op_of_key [of w "Add k"] unfolding todo_ok_def
    by (metis list.set_intros(1) op_key.simps(1))
  then show "pc_ok xs P ?s (Begin (Add k) (Some x))" by (simp add: new_ok_def)
  show "owner ?s = owner s" using x by (auto simp: owner_def fun_eq_iff)
  show "todo_ok ?s" using todo_tail [OF oinv_todo [OF inv] at(2)] by (simp add: todo_ok_def)
qed (use at in \<open>auto simp: key_def nxt_def\<close>)

lemma opt_call_step_frame:
  assumes "call_step t s s'" and inv: "oinv xs P s" and "\<not> (\<exists>k nd. fpcs s' t = Begin (Add k) nd)"
  shows "oinv xs P s'"
  using assms(1)
proof cases
  case (call_add w ws k x junk)
  with assms(3) show ?thesis by simp
next
  case (call_other w ws x)
  have "op_key x < INT_MAX"
    using call_other oinv_todo [OF inv] op_of_key [of w x] unfolding todo_ok_def
    by (metis list.set_intros(1))
  with call_other show ?thesis
    using oinv_own [OF inv, of _ t] todo_tail [OF oinv_todo [OF inv]]
    by (intro oinv_frame [OF inv, where t = t and pc = "Begin x NULL"])
      (auto simp: new_ok_def key_def nxt_def owner_def fun_eq_iff split: set_op.split)
next
  case (call_none w ws)
  then show ?thesis
    using oinv_own [OF inv, of _ t] todo_tail [OF oinv_todo [OF inv]]
    by (intro oinv_frame [OF inv, where t = t and pc = OIdle])
      (auto simp: key_def nxt_def owner_def fun_eq_iff)
next
  case (call_return x r)
  then show ?thesis
    using oinv_own [OF inv, of _ t] oinv_todo [OF inv]
    by (intro oinv_frame [OF inv, where t = t and pc = OIdle]) auto
qed

lemma add_node_inv:
  assumes inv: "oinv xs P s" and at: "fpcs s t = Found (Add k) (Some x) p c"
    and n: "fheap s c = Some n" "fkey n \<noteq> k"
  shows "oinv xs P (goto (s\<lparr>fheap := set_next (fheap s) x (Some c)\<rparr>) t (Link (Add k) x p c))"
    (is "oinv xs P ?s")
proof (rule oinv_outside [OF inv, where x = x and t = t])
  have x: "x \<in> priv (fpcs s t)" using at by simp
  show xP: "x \<notin> P" by (rule oinv_priv(1) [OF inv x])
  show "x \<notin> priv (fpcs s u)" if "u \<noteq> t" for u by (rule oinv_priv(3) [OF inv x that])
  have h: "fheap s x \<noteq> None" by (rule oinv_priv(2) [OF inv x])
  then show "nxt ?s a = nxt s a" if "a \<noteq> x" for a using that by simp
  show "dom (fheap ?s) = insert x (dom (fheap s))" using h by auto
  have pc: "new_ok s (Add k) (Some x)" "found_ok P s (Add k) p c" "adj xs p c"
    using oinv_pc [OF inv, of t] at by auto
  moreover have "key s x < key s c" using pc(1,2) n by (auto simp: new_ok_def found_ok_def)
  moreover have "points ?s x c" using h by (simp add: points_def)
  ultimately show "pc_ok xs P ?s (Link (Add k) x p c)"
    using new_ok_cong [of ?s s] view_cong [of ?s s] by simp
  show "todo_ok ?s" using oinv_todo [OF inv] by simp
qed (use at in simp_all)

text \<open>What the other threads know survives a change of the list under locks they do not hold.\<close>

lemma opt_pc_ok_mono:
  assumes "pc_ok xs P s pc" and same: "key s' = key s" "fhead s' = fhead s" and "P \<subseteq> P'"
    and "\<And>a b. adj xs a b \<Longrightarrow> a \<in> holds pc \<Longrightarrow> b \<in> holds pc \<Longrightarrow> adj xs' a b"
    and "\<And>i q. i \<in> P \<Longrightarrow> q \<in> P \<Longrightarrow> q \<in> holds pc \<Longrightarrow> q \<notin> set xs' \<Longrightarrow> (points s')\<^sup>*\<^sup>* i q \<Longrightarrow>
           q \<notin> set xs \<and> (points s)\<^sup>*\<^sup>* i q"
    and "\<And>a b. a \<in> priv pc \<Longrightarrow> points s a b \<Longrightarrow> points s' a b"
  shows "pc_ok xs' P' s' pc"
proof -
  have fnd: "found_ok P s y p c \<Longrightarrow> found_ok P' s' y p c" for y p c
    using assms(4) view_cong(1) [OF same] below_cong [OF same] same unfolding found_ok_def by auto
  show ?thesis
  proof (cases "\<exists>y nd p c i. pc = Check y nd p c i")
    case True
    then obtain y nd p c i where pc: "pc = Check y nd p c i" by blast
    with assms(1) obtain i' where i: "i = Some i'" "i' \<in> P" "p \<notin> set xs \<longrightarrow> \<not> (points s)\<^sup>*\<^sup>* i' p"
      and f: "new_ok s y nd" "found_ok P s y p c" by auto
    have "\<not> (points s')\<^sup>*\<^sup>* i' p" if "p \<notin> set xs'"
      using assms(6) [OF i(2) _ _ that] i(3) f(2) pc by (auto simp: found_ok_def)
    with pc i f fnd assms(4) new_ok_cong [OF same(1)] show ?thesis by auto
  next
    case False
    with assms(1-5,7) fnd new_ok_cong [OF same(1)] below_cong [OF same] view_cong(1) [OF same]
    show ?thesis by (cases pc) auto
  qed
qed

lemma reach_link:
  assumes "(points s')\<^sup>*\<^sup>* a b" and "a \<in> P" and "x \<notin> P" and "c \<in> P" and "points s p c"
    and "\<And>d. points s' x d \<Longrightarrow> d = c"
    and "\<And>b d. b \<in> P \<Longrightarrow> points s' b d \<Longrightarrow> (b = p \<and> d = x) \<or> (d \<in> P \<and> points s b d)"
  shows "if b = x then (points s)\<^sup>*\<^sup>* a p else b \<in> P \<and> (points s)\<^sup>*\<^sup>* a b"
  using assms(1)
proof (induction rule: rtranclp_induct)
  case base
  with assms(2,3) show ?case by auto
next
  case (step b d)
  show ?case
  proof (cases "b = x")
    case True
    with step assms(3-6) show ?thesis by (auto intro: rtranclp.rtrancl_into_rtrancl)
  next
    case False
    with step assms(3) assms(7) [of b d] show ?thesis by (auto intro: rtranclp.rtrancl_into_rtrancl)
  qed
qed

lemma reach_unlink:
  assumes "(points s')\<^sup>*\<^sup>* a b" and "points s p c" and "points s c d"
    and "\<And>b e. points s' b e \<Longrightarrow> (b = p \<and> e = d) \<or> points s b e"
  shows "(points s)\<^sup>*\<^sup>* a b"
  using assms(1)
proof (induction rule: rtranclp_induct)
  case base
  then show ?case by simp
next
  case (step b e)
  with assms(4) [OF step.hyps(2)] assms(2,3) show ?case
    by (meson rtranclp.rtrancl_into_rtrancl)
qed

lemma points_set_next:
  assumes "fheap s p \<noteq> None"
  shows "points (goto (s\<lparr>fheap := set_next (fheap s) p (Some x)\<rparr>) t pc) a b \<longleftrightarrow> (if a = p then b = x else points s a b)"
  using assms by (auto simp: points_def)

text \<open>
  Linking: \<open>prev->next = node\<close> publishes the node between \<open>p\<close> and \<open>c\<close>.  First the list, then
  what the other threads know of it.
\<close>

lemma opt_link_facts:
  assumes inv: "oinv xs P s" and at: "fpcs s t = Link y x p c" and xs: "xs = us @ p # c # vs"
  shows "fheap s p \<noteq> None" "x \<notin> P" "fheap s x \<noteq> None" "x \<noteq> p" "p \<in> P" "c \<in> P"
    "points s x c" "points s p c" "before s p x" "before s x c" "sorted_nodes (us @ p # x # c # vs) s"
proof -
  have held: "p \<in> holds (fpcs s t)" and x: "x \<in> priv (fpcs s t)" using at by simp_all
  have pc: "new_ok s y (Some x)" "below s y p" "points s x c" "key s x < key s c" "p \<in> P" "c \<in> P"
    "before s p c"
    using oinv_pc [OF inv, of t] at by (auto simp: found_ok_def)
  have kx: "key s x = op_key y" using pc(1) by (auto simp: new_ok_def split: set_op.splits)
  have xP: "x \<notin> P" "fheap s x \<noteq> None" using oinv_priv [OF inv x] by auto
  then have xx: "x \<notin> set xs" using oinv_list(1) [OF inv] by auto
  show "fheap s p \<noteq> None" by (rule oinv_held [OF inv held])
  show "x \<notin> P" "fheap s x \<noteq> None" "x \<noteq> p" "p \<in> P" "c \<in> P" "points s x c" using xP pc by auto
  show "points s p c" using oinv_list(3) [OF inv, of p c] xs adjI [of us p c vs] by simp
  show "before s p x" "before s x c"
    using xP(1) head_pub [OF inv] pc(2,4,7) kx by (auto simp: before_def below_def)
  show "sorted_nodes (us @ p # x # c # vs) s"
    by (rule sorted_link [OF oinv_sorted [OF inv] xs xx pc(2) kx pc(4)])
qed

lemma opt_link_list_ok:
  assumes inv: "oinv xs P s" and at: "fpcs s t = Link y x p c" and xs: "xs = us @ p # c # vs"
  shows "list_ok (us @ p # x # c # vs) (insert x P)
    (goto (s\<lparr>fheap := set_next (fheap s) p (Some x)\<rparr>) t (Release1 y True p c))" (is "list_ok ?xs ?P ?s")
proof -
  note f = opt_link_facts [OF inv at xs]
  note pts = points_set_next [OF f(1), of x t "Release1 y True p c"]
  have srt: "sorted_nodes ?xs ?s" using f(11) by (simp add: sorted_nodes_def)
  have "points ?s a b" if "adj ?xs a b" for a b
    using adj_link [OF sorted_ends(1) [OF srt] that] pts f(4,7) oinv_list(3) [OF inv] xs by auto
  moreover have "nxt ?s (ftail s) = Some NULL"
    using oinv_list(4) [OF inv] f(1,8) by (auto simp: points_def)
  moreover have "\<exists>b. points ?s a b" if "a \<in> ?P" "a \<noteq> ftail s" for a
    using that pts f(7) oinv_list(5) [OF inv, of a] by auto
  moreover have "b \<in> ?P \<and> before ?s a b" if "a \<in> ?P" "points ?s a b" for a b
  proof -
    have "before ?s = before s" by (rule view_cong) simp_all
    moreover have "b = c" if "a = x" using that \<open>points ?s a b\<close> pts f(4,7) by (simp add: points_def)
    ultimately show ?thesis
      using that pts [of a b] f(6,9,10) oinv_list(6,7) [OF inv, of a b] by (cases "a = x") (auto split: if_splits)
  qed
  ultimately show ?thesis
    using srt xs oinv_list(1,2) [OF inv] f(3) unfolding list_ok_def by auto
qed

lemma opt_link_pc_ok:
  assumes inv: "oinv xs P s" and at: "fpcs s t = Link y x p c" and xs: "xs = us @ p # c # vs" and "u \<noteq> t"
  shows "pc_ok (us @ p # x # c # vs) (insert x P)
    (goto (s\<lparr>fheap := set_next (fheap s) p (Some x)\<rparr>) t (Release1 y True p c)) (fpcs s u)"
    (is "pc_ok ?xs ?P ?s _")
  using oinv_pc [OF inv, of u]
proof (rule opt_pc_ok_mono)
  note f = opt_link_facts [OF inv at xs]
  note pts = points_set_next [OF f(1), of x t "Release1 y True p c"]
  have h: "p \<notin> holds (fpcs s u)" by (rule oinv_other [OF inv _ assms(4)]) (simp add: at)
  show "adj ?xs a b" if "adj xs a b" "a \<in> holds (fpcs s u)" for a b
    using that h xs by (auto simp: adj_append)
  show "q \<notin> set xs \<and> (points s)\<^sup>*\<^sup>* i q"
    if "i \<in> P" "q \<in> P" "q \<notin> set ?xs" "(points ?s)\<^sup>*\<^sup>* i q" for i q
  proof -
    have "if q = x then (points s)\<^sup>*\<^sup>* i p else q \<in> P \<and> (points s)\<^sup>*\<^sup>* i q"
      using that(4,1) f(2,6,8)
    proof (rule reach_link)
      show "d = c" if "points ?s x d" for d
        using that pts [of x d] f(4,7) by (simp add: points_def)
      show "(b = p \<and> d = x) \<or> (d \<in> P \<and> points s b d)" if "b \<in> P" "points ?s b d" for b d
        using that pts [of b d] oinv_list(6) [OF inv, of b d] by (auto split: if_splits)
    qed
    with that(2,3) f(2) xs show ?thesis by (auto split: if_splits)
  qed
  show "points ?s a b" if "a \<in> priv (fpcs s u)" "points s a b" for a b
    using that oinv_priv(1) [OF inv that(1)] f(5) pts by auto
qed auto

lemma opt_add_link_inv:
  assumes inv: "oinv xs P s" and at: "fpcs s t = Link y x p c" and xs: "xs = us @ p # c # vs"
  shows "oinv (us @ p # x # c # vs) (insert x P)
    (goto (s\<lparr>fheap := set_next (fheap s) p (Some x)\<rparr>) t (Release1 y True p c))" (is "oinv ?xs ?P ?s")
proof -
  have x: "x \<in> priv (fpcs s t)" using at by simp
  have "locks_ok ?s"
    using oinv_own [OF inv] at unfolding locks_ok_def by auto
  moreover have "priv_ok ?P ?s"
    using inv x oinv_priv(3) [OF inv x] unfolding oinv_def priv_ok_def by auto
  moreover have "pc_ok ?xs ?P ?s (fpcs ?s u)" for u
    using opt_link_pc_ok [OF inv at xs, of u] oinv_ends(1) [OF inv] xs by (cases "u = t") simp_all
  moreover have "todo_ok ?s" using oinv_todo [OF inv] by simp
  ultimately show ?thesis using opt_link_list_ok [OF inv at xs] by (simp add: oinv_def)
qed

text \<open>Unlinking: \<open>prev->next = curr->next\<close> takes \<open>c\<close> out of the list; it stays published.\<close>

lemma opt_unlink_facts:
  assumes inv: "oinv xs P s" and at: "fpcs s t = Found y nd p c"
    and n: "fheap s c = Some n" and xs: "xs = us @ p # c # d # vs"
  shows "fheap s p \<noteq> None" "points s p c" "points s c d" "p \<in> P" "d \<in> P" "before s p d" "fnext n = Some d"
proof -
  have "p \<in> holds (fpcs s t)" using at by simp
  then show "fheap s p \<noteq> None" by (rule oinv_held [OF inv])
  show pc: "points s p c" and cd: "points s c d"
    using oinv_list(3) [OF inv, of p c] oinv_list(3) [OF inv, of c d] xs
      adjI [of us p c "d # vs"] adjI [of "us @ [p]" c d vs] by simp_all
  have P: "p \<in> P" "c \<in> P" "d \<in> P" using oinv_list(1) [OF inv] xs by auto
  then show "p \<in> P" "d \<in> P" by simp_all
  show "before s p d"
    using oinv_list(7) [OF inv P(1) pc] oinv_list(7) [OF inv P(2) cd] by (auto simp: before_def)
  show "fnext n = Some d" using cd n by (simp add: points_def nxt_def)
qed

lemma opt_unlink_list_ok:
  assumes inv: "oinv xs P s" and at: "fpcs s t = Found y nd p c"
    and n: "fheap s c = Some n" and xs: "xs = us @ p # c # d # vs"
  shows "list_ok (us @ p # d # vs) P
    (goto (s\<lparr>fheap := set_next (fheap s) p (Some d)\<rparr>) t (Release1 y True p c))" (is "list_ok ?xs P ?s")
proof -
  note f = opt_unlink_facts [OF inv at n xs]
  note pts = points_set_next [OF f(1), of d t "Release1 y True p c"]
  have srt: "sorted_nodes ?xs ?s"
    using sorted_unlink [OF oinv_sorted [OF inv] xs] by (simp add: sorted_nodes_def)
  have "points ?s a b" if "adj ?xs a b" for a b
    using adj_unlink [OF _ that, of c] oinv_ends(1) [OF inv] xs pts oinv_list(3) [OF inv] by auto
  moreover have "nxt ?s (ftail s) = Some NULL"
    using oinv_list(4) [OF inv] f(1,2) by (auto simp: points_def)
  moreover have "\<exists>b. points ?s a b" if "a \<in> P" "a \<noteq> ftail s" for a
    using that pts oinv_list(5) [OF inv, of a] by auto
  moreover have "b \<in> P \<and> before ?s a b" if "a \<in> P" "points ?s a b" for a b
  proof -
    have "before ?s = before s" by (rule view_cong) simp_all
    then show ?thesis
      using that pts [of a b] f(5,6) oinv_list(6,7) [OF inv, of a b] by (auto split: if_splits)
  qed
  ultimately show ?thesis
    using srt xs oinv_list(1,2) [OF inv] unfolding list_ok_def by auto
qed

lemma opt_unlink_pc_ok:
  assumes inv: "oinv xs P s" and at: "fpcs s t = Found y nd p c"
    and n: "fheap s c = Some n" and xs: "xs = us @ p # c # d # vs" and "u \<noteq> t"
  shows "pc_ok (us @ p # d # vs) P
    (goto (s\<lparr>fheap := set_next (fheap s) p (Some d)\<rparr>) t (Release1 y True p c)) (fpcs s u)"
    (is "pc_ok ?xs P ?s _")
  using oinv_pc [OF inv, of u]
proof (rule opt_pc_ok_mono)
  note f = opt_unlink_facts [OF inv at n xs]
  note pts = points_set_next [OF f(1), of d t "Release1 y True p c"]
  have h: "p \<notin> holds (fpcs s u)" "c \<notin> holds (fpcs s u)"
    by (rule oinv_other [OF inv _ assms(5)], simp add: at)+
  show "adj ?xs a b" if "adj xs a b" "a \<in> holds (fpcs s u)" for a b
  proof -
    have "a \<noteq> p" "a \<noteq> c" using that h by auto
    with that(1) xs show ?thesis by (auto simp: adj_append)
  qed
  show "q \<notin> set xs \<and> (points s)\<^sup>*\<^sup>* i q"
    if "q \<in> holds (fpcs s u)" "q \<notin> set ?xs" "(points ?s)\<^sup>*\<^sup>* i q" for i q
    using reach_unlink [OF that(3) f(2,3)] pts that(1,2) h xs by (auto split: if_splits)
  show "points ?s a b" if "a \<in> priv (fpcs s u)" "points s a b" for a b
    using that oinv_priv(1) [OF inv that(1)] f(4) pts by auto
qed auto

lemma opt_remove_unlink_inv:
  assumes inv: "oinv xs P s" and at: "fpcs s t = Found (Remove k) nd p c"
    and n: "fheap s c = Some n" and xs: "xs = us @ p # c # d # vs"
  shows "oinv (us @ p # d # vs) P
    (goto (s\<lparr>fheap := set_next (fheap s) p (fnext n)\<rparr>) t (Release1 (Remove k) True p c))"
    (is "oinv ?xs P ?s")
proof -
  have nd: "fnext n = Some d" by (rule opt_unlink_facts [OF inv at n xs])
  have "locks_ok ?s"
    using oinv_own [OF inv] at unfolding locks_ok_def by auto
  moreover have "priv_ok P ?s" using inv unfolding oinv_def priv_ok_def by auto
  moreover have "pc_ok ?xs P ?s (fpcs ?s u)" for u
    using opt_unlink_pc_ok [OF inv at n xs, of u] oinv_ends(1) [OF inv] xs nd by (cases "u = t") simp_all
  moreover have "todo_ok ?s" using oinv_todo [OF inv] by simp
  ultimately show ?thesis using opt_unlink_list_ok [OF inv at n xs] nd by (simp add: oinv_def)
qed


section \<open>The list is an atomic set\<close>

fun abs_pc :: "opc \<Rightarrow> apc" where
  "abs_pc OIdle = AIdle"
| "abs_pc (Release1 x r p c) = ADone x r"
| "abs_pc (Release2 x r c) = ADone x r"
| "abs_pc (ODone x r) = ADone x r"
| "abs_pc (Begin x nd) = ACalled x"
| "abs_pc (Walk x nd p c) = ACalled x"
| "abs_pc (Lock1 x nd p c) = ACalled x"
| "abs_pc (Lock2 x nd p c) = ACalled x"
| "abs_pc (Check x nd p c i) = ACalled x"
| "abs_pc (Retry1 x nd p c) = ACalled x"
| "abs_pc (Retry2 x nd c) = ACalled x"
| "abs_pc (Found x nd p c) = ACalled x"
| "abs_pc (Link x nd p c) = ACalled x"

text \<open>A step of the program is invisible or one step of the atomic set.\<close>

definition follows :: "addr list \<Rightarrow> opt \<Rightarrow> addr list \<Rightarrow> opt \<Rightarrow> bool" where
  "follows xs s ys s' \<longleftrightarrow> abs_list abs_pc ys s' = abs_list abs_pc xs s \<or>
     aset_step (abs_list abs_pc xs s) (abs_list abs_pc ys s')"

lemma oinv_contents:
  assumes inv: "oinv xs P s" and at: "fpcs s t = Found x nd p c" and n: "fheap s c = Some n"
  shows "op_key x \<in> contents xs s \<longleftrightarrow> fkey n = op_key x"
  using oinv_pc [OF inv, of t] at n
  by (intro found_contents [OF oinv_sorted [OF inv]]) (auto simp: new_ok_def found_ok_def)

lemma opt_list_add_sim:
  assumes "list_add t s s'" and inv: "oinv xs P s"
  shows "\<exists>ys Q. oinv ys Q s' \<and> follows xs s ys s'"
  using assms(1)
proof cases
  case (add_found k nd p c n)
  have "k \<in> contents xs s" using oinv_contents [OF inv add_found(2,3)] add_found(4) by simp
  then have "follows xs s xs s'"
    unfolding follows_def using add_found(1,2)
    by (intro disjI2 abs_perform [where t = t and x = "Add k" and r = False]) (auto simp: insert_absorb)
  with oinv_unchanged [OF inv add_found(2)] add_found(1) show ?thesis by auto
next
  case (add_node k x p c n)
  then have "follows xs s xs s'"
    unfolding follows_def by (intro disjI1 abs_stutter [where t = t]) auto
  with add_node_inv [OF inv add_node(2-4)] add_node(1) show ?thesis by auto
next
  case (add_link y x p c)
  from oinv_pc [OF inv, of t] add_link(2) have pc: "adj xs p c" "found_ok P s y p c" "new_ok s y (Some x)"
    "key s x < key s c" by auto
  then obtain k where y: "y = Add k" "key s x = k" by (auto simp: new_ok_def split: set_op.splits)
  from pc obtain us vs where xs: "xs = us @ p # c # vs" by (auto simp: adj_def)
  from oinv_held [OF inv, of c t] add_link(2) obtain n where n: "fheap s c = Some n" by auto
  have "k \<notin> contents xs s"
    using found_contents [OF oinv_sorted [OF inv] _ pc(1) _ n, of y] pc y n
    by (auto simp: found_ok_def new_ok_def)
  moreover have "x \<notin> set xs" using oinv_priv(1) [OF inv, of x t] oinv_list(1) [OF inv] add_link(2) by auto
  then have "contents (us @ p # x # c # vs) s' = insert k (contents xs s)"
    using linked_contents [OF oinv_sorted [OF inv] xs] y add_link(1) by simp
  ultimately have "follows xs s (us @ p # x # c # vs) s'"
    unfolding follows_def using add_link y
    by (intro disjI2 abs_perform [where t = t and x = "Add k" and r = True]) auto
  with opt_add_link_inv [OF inv add_link(2) xs] add_link(1) show ?thesis by blast
qed

lemma opt_list_remove_sim:
  assumes "list_remove t s s'" and inv: "oinv xs P s"
  shows "\<exists>ys Q. oinv ys Q s' \<and> follows xs s ys s'"
  using assms(1)
proof cases
  case (remove_absent k nd p c n)
  have "k \<notin> contents xs s" using oinv_contents [OF inv remove_absent(2,3)] remove_absent(4) by simp
  then have "follows xs s xs s'"
    unfolding follows_def using remove_absent(1,2)
    by (intro disjI2 abs_perform [where t = t and x = "Remove k" and r = False]) auto
  with oinv_unchanged [OF inv remove_absent(2)] remove_absent(1) show ?thesis by auto
next
  case (remove_unlink k nd p c n)
  from oinv_pc [OF inv, of t] remove_unlink(2) obtain us ws where ws: "xs = us @ p # c # ws"
    and k: "k < INT_MAX" by (auto simp: new_ok_def adj_def)
  have "c \<noteq> last xs"
    using oinv_ends(3,8) [OF inv] k remove_unlink(3,4) key_Some by (metis less_irrefl)
  with ws obtain d vs where xs: "xs = us @ p # c # d # vs" by (cases ws) auto
  have "k \<in> contents xs s" using oinv_contents [OF inv remove_unlink(2,3)] remove_unlink(4) by simp
  moreover have "contents (us @ p # d # vs) s' = contents xs s - {k}"
    using unlinked_contents [OF oinv_sorted [OF inv] xs] remove_unlink(1,3,4) by simp
  ultimately have "follows xs s (us @ p # d # vs) s'"
    unfolding follows_def using remove_unlink(1,2)
    by (intro disjI2 abs_perform [where t = t and x = "Remove k" and r = True
          and pc = "Release1 (Remove k) True p c"]) simp_all
  with opt_remove_unlink_inv [OF inv remove_unlink(2,3) xs] remove_unlink(1) show ?thesis by blast
qed

lemma opt_list_contains_sim:
  assumes "list_contains t s s'" and inv: "oinv xs P s"
  shows "\<exists>ys Q. oinv ys Q s' \<and> follows xs s ys s'"
  using assms(1)
proof cases
  case (contains_test k nd p c n)
  then have "follows xs s xs s'"
    unfolding follows_def using oinv_contents [OF inv contains_test(2,3)]
    by (intro disjI2 abs_perform [where t = t and x = "Contains k" and r = "fkey n = k"]) auto
  with oinv_unchanged [OF inv contains_test(2)] contains_test(1) show ?thesis by auto
qed

lemma opt_call_step_sim:
  assumes "call_step t s s'" and inv: "oinv xs P s"
  shows "\<exists>ys Q. oinv ys Q s' \<and> follows xs s ys s'"
  using assms(1)
proof cases
  case (call_add w ws k x junk)
  have "x \<notin> set xs" using oinv_list(1,2) [OF inv] call_add by auto
  then have "contents xs s' = contents xs s"
    unfolding contents_def call_add(1)
    by (intro image_cong) (auto simp: key_def dest: in_set_tl)
  then have "follows xs s xs s'"
    unfolding follows_def using call_add
    by (intro disjI2 abs_call [where t = t and x = "Add k"]) auto
  with opt_call_add_inv [OF inv call_add(2-5)] call_add(1) show ?thesis by auto
next
  case (call_other w ws x)
  then have "follows xs s xs s'"
    unfolding follows_def by (intro disjI2 abs_call [where t = t and x = x]) auto
  with opt_call_step_frame [OF assms(1) inv] call_other show ?thesis by auto
next
  case (call_none w ws)
  then have "follows xs s xs s'" by (simp add: follows_def abs_list_def)
  with opt_call_step_frame [OF assms(1) inv] call_none show ?thesis by auto
next
  case (call_return x r)
  then have "follows xs s xs s'"
    unfolding follows_def by (intro disjI2 abs_return [where t = t and x = x and r = r]) auto
  with opt_call_step_frame [OF assms(1) inv] call_return show ?thesis by auto
qed

lemma opt_walk_step_abs: "walk_step t s s' \<Longrightarrow> follows xs s xs s'"
  unfolding follows_def by (erule walk_step.cases; intro disjI1 abs_stutter [where t = t]) auto

lemma list_validate_abs: "list_validate t s s' \<Longrightarrow> follows xs s xs s'"
  unfolding follows_def by (erule list_validate.cases; intro disjI1 abs_stutter [where t = t]) auto

lemma opt_unlock_step_abs: "unlock_step t s s' \<Longrightarrow> follows xs s xs s'"
  unfolding follows_def by (erule unlock_step.cases; intro disjI1 abs_stutter [where t = t]) auto

lemma ostep_sim:
  assumes "ostep t s s'" and inv: "oinv xs P s"
  shows "\<exists>ys Q. oinv ys Q s' \<and> follows xs s ys s'"
  using assms(1) unfolding ostep_def
proof (elim disjE)
  assume "walk_step t s s'"
  then show ?thesis using opt_walk_step_inv [OF _ inv] opt_walk_step_abs by blast
next
  assume "list_validate t s s'"
  then show ?thesis using list_validate_inv [OF _ inv] list_validate_abs by blast
next
  assume "unlock_step t s s'"
  then show ?thesis using opt_unlock_step_inv [OF _ inv] opt_unlock_step_abs by blast
qed (erule opt_call_step_sim [OF _ inv] opt_list_add_sim [OF _ inv] opt_list_remove_sim [OF _ inv]
    opt_list_contains_sim [OF _ inv])+

lemma opt_list_init_inv:
  assumes "a \<noteq> b" and "keys_below_max works"
  shows "oinv [a, b] {a, b} (list_init None None a b works)"
  using assms
  by (auto simp: oinv_def list_ok_def sorted_nodes_def locks_ok_def priv_ok_def todo_ok_def list_init_def
      key_def owner_def points_def nxt_def before_def increasing_Cons keys_below_max_def)

definition opt_sim :: "opt \<Rightarrow> aset_state \<Rightarrow> bool" where
  "opt_sim s a \<longleftrightarrow> (\<exists>xs P. oinv xs P s \<and> a = abs_list abs_pc xs s)"

interpretation ol: simulation opt_start opt_step aset_init aset_step opt_sim
proof
  show "\<exists>a. aset_init a \<and> opt_sim s a" if "opt_start s" for s
  proof -
    from that obtain works a b where s: "s = list_init None None a b works" "a \<noteq> b" "keys_below_max works"
      by (auto simp: opt_start_def)
    then have "aset_init (abs_list abs_pc [a, b] s)"
      by (simp add: aset_init_def abs_list_def contents_def list_init_def)
    with opt_list_init_inv s show ?thesis unfolding opt_sim_def by blast
  qed
  show "opt_sim s' a \<or> (\<exists>a'. aset_step a a' \<and> opt_sim s' a')"
    if "opt_sim s a" "opt_step s s'" for s s' a
    using that ostep_sim unfolding opt_sim_def opt_step_def follows_def by metis
qed

interpretation oi: safety opt_start opt_step "\<lambda>s. \<exists>xs P. oinv xs P s"
proof
  show "\<exists>xs P. oinv xs P s" if "opt_start s" for s
    using that opt_list_init_inv unfolding opt_start_def by blast
  show "\<exists>xs P. oinv xs P s'" if "\<exists>xs P. oinv xs P s" "opt_step s s'" for s s'
    using that ostep_sim unfolding opt_step_def by blast
qed



section \<open>What the program guarantees\<close>

text \<open>A thread inside an operation that waits for nobody can go on.\<close>

fun waits :: "opc \<Rightarrow> addr option" where
  "waits (Lock1 x nd p c) = Some p"
| "waits (Lock2 x nd p c) = Some c"
| "waits _ = None"

lemma found_step:
  assumes inv: "oinv xs P s" and at: "fpcs s t = Found x nd p c"
  shows "\<exists>s'. ostep t s s'"
proof -
  from oinv_held [OF inv, of c t] at obtain n where n: "fheap s c = Some n" by auto
  from oinv_pc [OF inv, of t] at have "new_ok s x nd" by simp
  with at n show ?thesis unfolding ostep_def
    by (cases x; cases "fkey n = op_key x")
      (fastforce simp: new_ok_def intro: list_add.add_found list_add.add_node list_remove.intros list_contains.intros)+
qed

lemma check_step:
  assumes inv: "oinv xs P s" and at: "fpcs s t = Check x nd p c i"
  shows "\<exists>s'. ostep t s s'"
proof -
  from oinv_pc [OF inv, of t] at obtain j where i: "i = Some j" "j \<in> P" and p: "p \<in> P"
    by (auto simp: found_ok_def)
  then obtain n m where n: "fheap s j = Some n" and m: "fheap s p = Some m"
    using oinv_list(2) [OF inv] by blast
  consider "j = p" | "j \<noteq> p" "fkey n \<le> fkey m" | "fkey m < fkey n" by linarith
  then show ?thesis
  proof cases
    case 1
    with at i m list_validate.at_prev show ?thesis unfolding ostep_def by metis
  next
    case 2
    with at i n m list_validate.next_node show ?thesis unfolding ostep_def by metis
  next
    case 3
    with at i n m list_validate.passed show ?thesis unfolding ostep_def by metis
  qed
qed

lemma walk_free_step:
  assumes inv: "oinv xs P s" and at: "fpcs s t = Walk x nd p c"
  shows "\<exists>s'. ostep t s s'"
proof -
  from oinv_pc [OF inv, of t] at obtain j where c: "c = Some j" "j \<in> P" by auto
  then obtain n where n: "fheap s j = Some n" using oinv_list(2) [OF inv] by blast
  show ?thesis
  proof (cases "fkey n < op_key x")
    case True
    with at c n walk_step.advance show ?thesis unfolding ostep_def by metis
  next
    case False
    with at c n walk_step.stop [of s t x nd p j n] show ?thesis unfolding ostep_def by (metis not_less)
  qed
qed

lemma opt_free_step:
  assumes inv: "oinv xs P s" and busy: "fpcs s t \<noteq> OIdle"
    and free: "\<And>a. waits (fpcs s t) = Some a \<Longrightarrow> owner s a = None"
  shows "\<exists>s'. ostep t s s'"
proof (cases "fpcs s t")
  case (Begin x nd)
  obtain n where n: "fheap s (fhead s) = Some n"
    using head_pub [OF inv] oinv_list(2) [OF inv] by blast
  with walk_step.read_head [OF Begin n] show ?thesis unfolding ostep_def by blast
next
  case (Walk x nd p c)
  then show ?thesis by (rule walk_free_step [OF inv])
next
  case (Lock1 x nd p c)
  with oinv_pc [OF inv, of t] obtain n where n: "fheap s p = Some n"
    using oinv_list(2) [OF inv] by (auto simp: found_ok_def)
  with free Lock1 have "fowner n = None" by (simp add: owner_def)
  with walk_step.lock_prev [OF Lock1 n] show ?thesis unfolding ostep_def by blast
next
  case (Lock2 x nd p c)
  with oinv_pc [OF inv, of t] obtain n where n: "fheap s c = Some n"
    using oinv_list(2) [OF inv] by (auto simp: found_ok_def)
  with free Lock2 have "fowner n = None" by (simp add: owner_def)
  with walk_step.lock_curr [OF Lock2 n] show ?thesis unfolding ostep_def by blast
next
  case (Check x nd p c i)
  then show ?thesis by (rule check_step [OF inv])
next
  case (Found x nd p c)
  then show ?thesis by (rule found_step [OF inv])
qed (use busy in \<open>auto simp: ostep_def intro: call_step.call_return list_add.add_link unlock_step.intros\<close>)

text \<open>
  A thread that holds a node waits only for a node that comes later on every path, so the
  waiting ends at a thread that can go on.
\<close>

lemma waits_before:
  assumes inv: "oinv xs P s" and "waits (fpcs s t) = Some b" and "a \<in> holds (fpcs s t)"
  shows "before s a b" and "a = fhead s \<or> key s a < INT_MAX"
  using assms(2,3) oinv_pc [OF inv, of t]
  by (cases "fpcs s t"; auto simp: found_ok_def below_def new_ok_def)+

definition unblocked :: "opt \<Rightarrow> bool" where
  "unblocked s \<longleftrightarrow> (\<exists>u. fpcs s u \<noteq> OIdle \<and> (\<forall>b. waits (fpcs s u) = Some b \<longrightarrow> owner s b = None))"

lemma unblockedI:
  assumes inv: "oinv xs P s" and "fpcs s t \<noteq> OIdle"
    and "\<And>b u. waits (fpcs s t) = Some b \<Longrightarrow> b \<in> holds (fpcs s u) \<Longrightarrow> unblocked s"
  shows "unblocked s"
proof (cases "\<exists>b u. waits (fpcs s t) = Some b \<and> owner s b = Some u")
  case True
  then show ?thesis using assms(3) oinv_own [OF inv] by blast
next
  case False
  with assms(2) show ?thesis unfolding unblocked_def by (metis option.exhaust)
qed

lemma opt_held_unblocked:
  assumes inv: "oinv xs P s" and "a \<in> holds (fpcs s t)" and "a \<noteq> fhead s"
  shows "unblocked s"
  using assms(2,3)
proof (induction "nat (INT_MAX - key s a)" arbitrary: a t rule: less_induct)
  case less
  show ?case
  proof (rule unblockedI [OF inv])
    show "fpcs s t \<noteq> OIdle" using less.prems by auto
    fix b u assume b: "waits (fpcs s t) = Some b" "b \<in> holds (fpcs s u)"
    with waits_before [OF inv b(1) less.prems(1)] less.prems(2)
    show "unblocked s" by (intro less.hyps [of b u]) (auto simp: before_def)
  qed
qed

lemma oinv_progress:
  assumes inv: "oinv xs P s" and "fpcs s t \<noteq> OIdle"
  shows "\<exists>u s'. fpcs s u \<noteq> OIdle \<and> ostep u s s'"
proof -
  have held: "unblocked s" if "b \<in> holds (fpcs s u)" for b u
  proof (rule unblockedI [OF inv])
    show "fpcs s u \<noteq> OIdle" using that by auto
    fix c v assume "waits (fpcs s u) = Some c" "c \<in> holds (fpcs s v)"
    with waits_before(1) [OF inv _ that] opt_held_unblocked [OF inv] show "unblocked s"
      by (auto simp: before_def)
  qed
  have "unblocked s" using assms(2) held by (rule unblockedI [OF inv])
  then show ?thesis using opt_free_step [OF inv] unfolding unblocked_def by blast
qed

text \<open>The nodes whose fields or mutex the next action of a thread reads or writes.\<close>

fun touches :: "opt \<Rightarrow> opc \<Rightarrow> ptr set" where
  "touches s (Begin x nd) = {Some (fhead s)}"
| "touches s (Walk x nd p c) = {c}"
| "touches s (Lock1 x nd p c) = {Some p}"
| "touches s (Lock2 x nd p c) = {Some c}"
| "touches s (Check x nd p c i) = {Some p, i}"
| "touches s (Retry1 x nd p c) = {Some p}"
| "touches s (Retry2 x nd c) = {Some c}"
| "touches s (Found x nd p c) = {Some p, Some c} \<union> Some ` set_option nd"
| "touches s (Link x nd p c) = {Some p}"
| "touches s (Release1 x r p c) = {Some p}"
| "touches s (Release2 x r c) = {Some c}"
| "touches s _ = {}"

lemma oinv_touches:
  assumes inv: "oinv xs P s" and "q \<in> touches s (fpcs s t)"
  shows "\<exists>n. deref (fheap s) q = Inr n"
proof -
  have "\<exists>a. q = Some a \<and> fheap s a \<noteq> None"
    using assms(2) oinv_pc [OF inv, of t] oinv_held [OF inv, of _ t] subsetD [OF oinv_list(2) [OF inv]]
      oinv_priv(2) [OF inv, of _ t] head_pub [OF inv]
    by (cases "fpcs s t") (auto simp: found_ok_def domIff simp del: not_None_eq)
  then show ?thesis by (auto simp: deref_def)
qed

lemma opt_finished_validate:
  assumes inv: "oinv xs P s"
  shows "validate s vs = Inr (vs = sorted_list_of_set (contents xs s))"
  using oinv_list(1-3) [OF inv]
  by (intro sorted_validate [OF oinv_sorted [OF inv]]) (auto simp: points_def)


definition demo_works :: "tid \<Rightarrow> work list" where
  "demo_works t = (if t = 0 then [\<lparr>work_type = CHR ''R'', work_value = 5\<rparr>] else [])"

definition demo_called :: opt where
  "demo_called = goto ((list_init None None 0 1 demo_works)\<lparr>ftodo := (\<lambda>_. [])\<rparr>) 0 (Begin (Remove 5) NULL)"

definition demo_walk :: opt where
  "demo_walk = goto demo_called 0 (Walk (Remove 5) NULL 0 (Some 1))"

lemma opt_demo_start: "opt_start (list_init None None 0 1 demo_works)"
  unfolding opt_start_def
  by (intro exI [of _ 0] exI [of _ 1] exI [of _ demo_works])
    (simp add: keys_below_max_def demo_works_def INT_MAX_def)

lemma opt_demo_call: "opt_step (list_init None None 0 1 demo_works) demo_called"
proof -
  have td: "(ftodo (list_init None None 0 1 demo_works))(0 := []) = (\<lambda>_. [])"
    by (auto simp: list_init_def demo_works_def fun_eq_iff)
  have "call_step 0 (list_init None None 0 1 demo_works) demo_called"
    unfolding demo_called_def td [symmetric]
    by (rule call_step.call_other [where w = "\<lparr>work_type = CHR ''R'', work_value = 5\<rparr>"])
      (simp_all add: list_init_def demo_works_def op_of_def)
  then show ?thesis by (auto simp: opt_step_def ostep_def)
qed

lemma demo_read: "opt_step demo_called demo_walk"
proof -
  have "walk_step 0 demo_called (goto demo_called 0 (Walk (Remove 5) NULL (fhead demo_called) (Some 1)))"
    using walk_step.read_head [of demo_called 0 "Remove 5" NULL "\<lparr>fkey = INT_MIN, fnext = Some 1, fowner = None\<rparr>"]
    by (simp add: demo_called_def list_init_def)
  then show ?thesis by (auto simp: opt_step_def ostep_def demo_walk_def demo_called_def list_init_def)
qed

lemma opt_demo_reach: "reach opt_start opt_step demo_walk"
  using reach_step [where init = opt_start and step = opt_step] reach_init opt_demo_start opt_demo_call demo_read by metis







section \<open>Uninitialised mutexes\<close>

text \<open>
  \<open>list_init\<close> leaves the mutexes of the sentinels as \<open>malloc\<close> delivers them.  If the memory
  of the head's mutex does not happen to look free, no thread gets past its first lock.
\<close>

definition bad_start :: "opt \<Rightarrow> bool" where
  "bad_start s \<longleftrightarrow> (\<exists>u v a b works. a \<noteq> b \<and> keys_below_max works \<and> s = list_init (Some u) v a b works)"

fun stuck_pc :: "opt \<Rightarrow> opc \<Rightarrow> bool" where
  "stuck_pc s OIdle = True"
| "stuck_pc s (Begin x nd) = (op_key x < INT_MAX)"
| "stuck_pc s (Walk x nd p c) = (op_key x < INT_MAX \<and> p = fhead s \<and> c = Some (ftail s))"
| "stuck_pc s (Lock1 x nd p c) = (p = fhead s)"
| "stuck_pc s _ = False"

definition stuck :: "opt \<Rightarrow> bool" where
  "stuck s \<longleftrightarrow> owner s (fhead s) \<noteq> None \<and> nxt s (fhead s) = Some (Some (ftail s)) \<and>
     key s (ftail s) = INT_MAX \<and> fheap s (ftail s) \<noteq> None \<and> todo_ok s \<and> (\<forall>t. stuck_pc s (fpcs s t))"

lemma stuck_pc_cong: "fhead s' = fhead s \<Longrightarrow> ftail s' = ftail s \<Longrightarrow> stuck_pc s' pc = stuck_pc s pc"
  by (cases pc) simp_all

lemma stuck_goto: "stuck s \<Longrightarrow> stuck_pc s pc \<Longrightarrow> stuck (goto s t pc)"
  using stuck_pc_cong [of "goto s t pc" s] by (simp add: stuck_def)

lemma stuck_todo:
  assumes "stuck s" and "ftodo s t = w # ws"
  shows "stuck (s\<lparr>ftodo := (ftodo s)(t := ws)\<rparr>)" and "op_of w = Some x \<Longrightarrow> op_key x < INT_MAX"
proof -
  show "stuck (s\<lparr>ftodo := (ftodo s)(t := ws)\<rparr>)"
    using assms todo_tail [of s t w ws] stuck_pc_cong [of "s\<lparr>ftodo := (ftodo s)(t := ws)\<rparr>" s]
    by (simp add: stuck_def owner_def nxt_def key_def)
  show "op_key x < INT_MAX" if "op_of w = Some x"
    using op_of_key [OF that] assms unfolding stuck_def todo_ok_def by (metis list.set_intros(1))
qed

lemma stuck_alloc: "stuck s \<Longrightarrow> fheap s x = None \<Longrightarrow> stuck (s\<lparr>fheap := (fheap s)(x \<mapsto> n)\<rparr>)"
  using stuck_pc_cong [of "s\<lparr>fheap := (fheap s)(x \<mapsto> n)\<rparr>" s]
  by (auto simp: stuck_def owner_def nxt_def key_def split: if_splits)

lemma stuck_call:
  assumes "call_step t s s'" and "stuck s"
  shows "stuck s'"
  using assms(1)
proof cases
  case (call_add w ws k x junk)
  let ?s = "s\<lparr>ftodo := (ftodo s)(t := ws)\<rparr>"
  let ?h = "?s\<lparr>fheap := (fheap s)(x \<mapsto> \<lparr>fkey = k, fnext = junk, fowner = None\<rparr>)\<rparr>"
  have "stuck ?s" "k < INT_MAX" using stuck_todo [OF assms(2) call_add(3)] call_add(4) by auto
  with call_add have "stuck ?h" using stuck_alloc [of ?s x] by simp
  with \<open>k < INT_MAX\<close> call_add(1) stuck_goto [of ?h "Begin (Add k) (Some x)" t] show ?thesis by simp
next
  case (call_other w ws x)
  with stuck_todo [OF assms(2) call_other(3)] stuck_goto show ?thesis by simp
next
  case (call_none w ws)
  with stuck_todo [OF assms(2) call_none(3)] show ?thesis by simp
next
  case (call_return x r)
  with assms(2) have "stuck_pc s (ODone x r)" unfolding stuck_def by metis
  then show ?thesis by simp
qed

lemma stuck_walk:
  assumes "walk_step t s s'" and "stuck s"
  shows "stuck s'"
proof -
  have pc: "stuck_pc s (fpcs s t)" using assms(2) by (simp add: stuck_def)
  from assms(1) show ?thesis
  proof cases
    case (read_head x nd n)
    then have "fnext n = Some (ftail s)" using assms(2) by (auto simp: stuck_def nxt_def)
    with read_head pc show ?thesis using stuck_goto [OF assms(2)] by simp
  next
    case (advance x nd p c n)
    with pc have "key s (ftail s) < INT_MAX" by auto
    with assms(2) show ?thesis by (simp add: stuck_def)
  next
    case (stop x nd p c n)
    with pc show ?thesis using stuck_goto [OF assms(2)] by simp
  next
    case (lock_prev x nd p c n)
    with pc assms(2) show ?thesis by (auto simp: stuck_def owner_def)
  qed (use pc in simp)
qed

interpretation os: safety bad_start opt_step stuck
proof
  show "stuck s" if "bad_start s" for s
    using that
    by (auto simp: bad_start_def stuck_def list_init_def owner_def nxt_def key_def todo_ok_def keys_below_max_def)
  show "stuck s'" if s: "stuck s" and step: "opt_step s s'" for s s'
  proof -
    from step obtain t where "ostep t s s'" by (auto simp: opt_step_def)
    moreover have pc: "stuck_pc s (fpcs s t)" using s by (simp add: stuck_def)
    ultimately show ?thesis
      using stuck_call [OF _ s] stuck_walk [OF _ s] unfolding ostep_def
      by (auto elim: list_validate.cases list_add.cases list_remove.cases list_contains.cases unlock_step.cases)
  qed
qed



end
