(* ===== verification/List_Template.thy ===== *)
theory List_Template
  imports Coarse_List
begin

text \<open>
  lab11/list_template.cpp, the exercise the three lists start from: the nodes, the
  initialisation, the work loop and the check of \<open>main\<close> are those of the coarse list, the
  three operations are stubs that return true.
\<close>

definition list_init :: "calloc \<Rightarrow> cheap \<Rightarrow> fault + coarse" where
  "list_init malloc h =
     (case malloc h of
        None \<Rightarrow> Inl NullDeref
      | Some (a, ja) \<Rightarrow>
          (let h1 = h(a \<mapsto> ja\<lparr>ckey := INT_MIN\<rparr>) in
           case malloc h1 of
             None \<Rightarrow> Inl NullDeref
           | Some (b, jb) \<Rightarrow>
               (let h2 = h1(b \<mapsto> jb\<lparr>ckey := INT_MAX, cnext := NULL\<rparr>) in
                Inr \<lparr>cheap = h2(a \<mapsto> (the (h2 a))\<lparr>cnext := Some b\<rparr>),
                     chead = Some a, ctail = Some b\<rparr>)))"

definition list_add :: "int \<Rightarrow> coarse \<Rightarrow> bool \<times> coarse" where
  "list_add k st = (True, st)"

definition list_remove :: "int \<Rightarrow> coarse \<Rightarrow> bool \<times> coarse" where
  "list_remove k st = (True, st)"

definition list_contains :: "int \<Rightarrow> coarse \<Rightarrow> bool \<times> coarse" where
  "list_contains k st = (True, st)"

fun ThreadFunc :: "work list \<Rightarrow> coarse \<Rightarrow> coarse" where
  "ThreadFunc [] st = st"
| "ThreadFunc (w # ws) st =
     ThreadFunc ws
       (if work_type w = CHR ''A'' then snd (list_add (work_value w) st)
        else if work_type w = CHR ''R'' then snd (list_remove (work_value w) st)
        else if work_type w = CHR ''C'' then snd (list_contains (work_value w) st)
        else st)"

definition main :: "calloc \<Rightarrow> (tid \<Rightarrow> work list) \<Rightarrow> tid list \<Rightarrow> int list \<Rightarrow> fault + bool" where
  "main malloc works sched result =
     (case list_init malloc Map.empty of
        Inl e \<Rightarrow> Inl e
      | Inr st \<Rightarrow> validate (ThreadFunc (served works sched) st) result)"

lemma ThreadFunc_id: "ThreadFunc ws st = st"
  by (induction ws) (simp_all add: list_add_def list_remove_def list_contains_def)



end
