(* ===== verification/Ring_Queue.thy ===== *)
theory Ring_Queue
  imports Prelude "HOL-Library.Word"
begin

unbundle bit_operations_syntax

text \<open>
  lab13/queue_giantlock.cpp: a bounded queue of 1024 slots with tickets.  Every slot has a
  round flag; a producer waits until the flag of its slot says that it is free for its
  round, a consumer until it says that it is full.  All counters are 64 bit words.  Every
  rule of the step relation is one access of one thread to shared memory; the increment
  \<open>flag++\<close> is a load and a store, as in the code.
\<close>

section \<open>The program\<close>

definition NUM_PRODUCER :: nat where "NUM_PRODUCER = 4"
definition NUM_THREADS :: nat where "NUM_THREADS = NUM_PRODUCER + NUM_PRODUCER"
definition NUM_ENQUEUE :: nat where "NUM_ENQUEUE = 1000000"
definition QUEUE_SIZE :: "64 word" where "QUEUE_SIZE = 1024"

record queue_node =
  qkey :: int
  qflag :: "64 word"

datatype rpc =
    RIdle
  | EnqSpin int "64 word" \<comment> \<open>the key and the ticket; about to read the flag\<close>
  | EnqKey int "64 word" \<comment> \<open>the slot is free; about to write the key\<close>
  | EnqLoad "64 word" \<comment> \<open>about to load the flag for the increment\<close>
  | EnqStore "64 word" "64 word" \<comment> \<open>about to store the loaded flag plus one\<close>
  | DeqSpin "64 word"
  | DeqKey "64 word"
  | DeqLoad "64 word" int
  | DeqStore "64 word" int "64 word"

record ring =
  queue :: "nat \<Rightarrow> queue_node"
  front :: "64 word"
  rear :: "64 word"
  rpcs :: "tid \<Rightarrow> rpc"
  calls :: "tid \<Rightarrow> nat" \<comment> \<open>the loop counter of the thread: completed calls\<close>
  flag_verification :: "int set"

definition init_queue :: ring where
  "init_queue = \<lparr>queue = (\<lambda>_. \<lparr>qkey = 0, qflag = 0\<rparr>), front = 0, rear = 0, rpcs = (\<lambda>_. RIdle),
     calls = (\<lambda>_. 0), flag_verification = {}\<rparr>"

definition goto :: "ring \<Rightarrow> tid \<Rightarrow> rpc \<Rightarrow> ring" where
  "goto s t pc = s\<lparr>rpcs := (rpcs s)(t := pc)\<rparr>"

definition slot_idx :: "64 word \<Rightarrow> nat" where
  "slot_idx seq = unat (seq mod QUEUE_SIZE)"

definition round_of :: "64 word \<Rightarrow> 64 word" where
  "round_of seq = seq div QUEUE_SIZE"

definition flag_at :: "ring \<Rightarrow> 64 word \<Rightarrow> 64 word" where
  "flag_at s seq = qflag (queue s (slot_idx seq))"

definition set_slot :: "ring \<Rightarrow> 64 word \<Rightarrow> (queue_node \<Rightarrow> queue_node) \<Rightarrow> ring" where
  "set_slot s seq f = s\<lparr>queue := (queue s)(slot_idx seq := f (queue s (slot_idx seq)))\<rparr>"

text \<open>\<open>__sync_fetch_and_and(&rear, 1)\<close> gives the old value and leaves its bitwise AND with 1.\<close>

definition fetch_and_and :: "64 word \<Rightarrow> 64 word \<Rightarrow> 64 word \<times> 64 word" where
  "fetch_and_and x y = (x, x AND y)"

text \<open>The key of the next call of a producer: \<open>NUM_ENQUEUE_PER_PRODUCER * tid + i\<close>.\<close>

definition key_enqueue :: "tid \<Rightarrow> nat \<Rightarrow> int" where
  "key_enqueue t i = int NUM_ENQUEUE * int t + int i"

inductive enqueue :: "tid \<Rightarrow> ring \<Rightarrow> ring \<Rightarrow> bool" where
  ticket: "rpcs s t = RIdle \<Longrightarrow> t < NUM_PRODUCER \<Longrightarrow> calls s t < NUM_ENQUEUE \<Longrightarrow>
    fetch_and_and (rear s) 1 = (seq, r) \<Longrightarrow>
    enqueue t s (goto (s\<lparr>rear := r\<rparr>) t (EnqSpin (key_enqueue t (calls s t)) seq))"
| yield: "rpcs s t = EnqSpin k seq \<Longrightarrow> flag_at s seq mod 2 = 1 \<or> flag_at s seq div 2 \<noteq> round_of seq \<Longrightarrow>
    enqueue t s s"
| pass: "rpcs s t = EnqSpin k seq \<Longrightarrow> flag_at s seq mod 2 \<noteq> 1 \<Longrightarrow> flag_at s seq div 2 = round_of seq \<Longrightarrow>
    enqueue t s (goto s t (EnqKey k seq))"
| write_key: "rpcs s t = EnqKey k seq \<Longrightarrow>
    enqueue t s (goto (set_slot s seq (\<lambda>n. n\<lparr>qkey := k\<rparr>)) t (EnqLoad seq))"
| load_flag: "rpcs s t = EnqLoad seq \<Longrightarrow> enqueue t s (goto s t (EnqStore seq (flag_at s seq)))"
| store_flag: "rpcs s t = EnqStore seq f \<Longrightarrow>
    enqueue t s (goto (set_slot (s\<lparr>calls := (calls s)(t := Suc (calls s t))\<rparr>) seq (\<lambda>n. n\<lparr>qflag := f + 1\<rparr>)) t RIdle)"

inductive dequeue :: "tid \<Rightarrow> ring \<Rightarrow> ring \<Rightarrow> bool" where
  ticket: "rpcs s t = RIdle \<Longrightarrow> NUM_PRODUCER \<le> t \<Longrightarrow> t < NUM_THREADS \<Longrightarrow> calls s t < NUM_ENQUEUE \<Longrightarrow>
    fetch_and_and (front s) 1 = (seq, r) \<Longrightarrow>
    dequeue t s (goto (s\<lparr>front := r\<rparr>) t (DeqSpin seq))"
| yield: "rpcs s t = DeqSpin seq \<Longrightarrow> flag_at s seq mod 2 = 0 \<or> flag_at s seq div 2 \<noteq> round_of seq \<Longrightarrow>
    dequeue t s s"
| pass: "rpcs s t = DeqSpin seq \<Longrightarrow> flag_at s seq mod 2 \<noteq> 0 \<Longrightarrow> flag_at s seq div 2 = round_of seq \<Longrightarrow>
    dequeue t s (goto s t (DeqKey seq))"
| read_key: "rpcs s t = DeqKey seq \<Longrightarrow>
    dequeue t s (goto s t (DeqLoad seq (qkey (queue s (slot_idx seq)))))"
| load_flag: "rpcs s t = DeqLoad seq k \<Longrightarrow> dequeue t s (goto s t (DeqStore seq k (flag_at s seq)))"
| store_flag: "rpcs s t = DeqStore seq k f \<Longrightarrow>
    dequeue t s (goto (set_slot (s\<lparr>calls := (calls s)(t := Suc (calls s t)),
        flag_verification := insert k (flag_verification s)\<rparr>) seq (\<lambda>n. n\<lparr>qflag := f + 1\<rparr>)) t RIdle)"

definition ring_step :: "ring \<Rightarrow> ring \<Rightarrow> bool" where
  "ring_step s s' \<longleftrightarrow> (\<exists>t. enqueue t s s' \<or> dequeue t s s')"

text \<open>\<open>main\<close> joins all threads, then verifies that every key came out of the queue.\<close>

definition joined :: "ring \<Rightarrow> bool" where
  "joined s \<longleftrightarrow> (\<forall>t < NUM_THREADS. calls s t = NUM_ENQUEUE)"

definition verify :: "ring \<Rightarrow> bool" where
  "verify s \<longleftrightarrow> (\<forall>i < NUM_PRODUCER * NUM_ENQUEUE. int i \<in> flag_verification s)"


section \<open>The tickets never advance\<close>

text \<open>
  Both tickets are taken with a bitwise AND instead of an addition, so every call uses slot 0
  in round 0.  The flag of slot 0 leaves 0 with the first completed enqueue and never
  returns, so no producer passes its wait twice.
\<close>

fun seq_of :: "rpc \<Rightarrow> 64 word" where
  "seq_of RIdle = 0"
| "seq_of (EnqSpin k q) = q"
| "seq_of (EnqKey k q) = q"
| "seq_of (EnqLoad q) = q"
| "seq_of (EnqStore q f) = q"
| "seq_of (DeqSpin q) = q"
| "seq_of (DeqKey q) = q"
| "seq_of (DeqLoad q k) = q"
| "seq_of (DeqStore q k f) = q"

fun loaded :: "rpc \<Rightarrow> 64 word" where
  "loaded (EnqStore q f) = f"
| "loaded (DeqStore q k f) = f"
| "loaded _ = 0"

definition total :: "ring \<Rightarrow> nat" where
  "total s = (\<Sum>t < NUM_THREADS. calls s t)"

definition produced :: "int set" where
  "produced = {key_enqueue t i | t i. t < NUM_PRODUCER \<and> i < NUM_ENQUEUE}"

fun pc_ok :: "ring \<Rightarrow> tid \<Rightarrow> rpc \<Rightarrow> bool" where
  "pc_ok s t RIdle = True"
| "pc_ok s t (EnqSpin k q) = (t < NUM_PRODUCER \<and> calls s t < NUM_ENQUEUE \<and> k \<in> produced)"
| "pc_ok s t (EnqKey k q) = (t < NUM_PRODUCER \<and> calls s t = 0 \<and> k \<in> produced)"
| "pc_ok s t (EnqLoad q) = (t < NUM_PRODUCER \<and> calls s t = 0 \<and> qkey (queue s 0) \<in> produced)"
| "pc_ok s t (EnqStore q f) = (t < NUM_PRODUCER \<and> calls s t = 0 \<and> qkey (queue s 0) \<in> produced)"
| "pc_ok s t (DeqSpin q) = (t < NUM_THREADS \<and> NUM_PRODUCER \<le> t \<and> calls s t < NUM_ENQUEUE)"
| "pc_ok s t (DeqKey q) = (t < NUM_THREADS \<and> NUM_PRODUCER \<le> t \<and> calls s t < NUM_ENQUEUE \<and> qkey (queue s 0) \<in> produced)"
| "pc_ok s t (DeqLoad q k) = (t < NUM_THREADS \<and> NUM_PRODUCER \<le> t \<and> calls s t < NUM_ENQUEUE \<and> k \<in> produced \<and>
     qkey (queue s 0) \<in> produced)"
| "pc_ok s t (DeqStore q k f) = (t < NUM_THREADS \<and> NUM_PRODUCER \<le> t \<and> calls s t < NUM_ENQUEUE \<and> k \<in> produced \<and>
     qkey (queue s 0) \<in> produced)"

definition ring_inv :: "ring \<Rightarrow> bool" where
  "ring_inv s \<longleftrightarrow> front s = 0 \<and> rear s = 0 \<and> (\<forall>t. seq_of (rpcs s t) = 0) \<and>
     (\<forall>t < NUM_PRODUCER. calls s t \<le> 1) \<and> (\<forall>t. calls s t \<le> NUM_ENQUEUE) \<and>
     (\<forall>t < NUM_PRODUCER. calls s t = 1 \<longrightarrow> qflag (queue s 0) \<noteq> 0) \<and>
     (qflag (queue s 0) \<noteq> 0 \<longrightarrow> qkey (queue s 0) \<in> produced) \<and>
     unat (qflag (queue s 0)) \<le> total s \<and> (\<forall>t. unat (loaded (rpcs s t)) \<le> total s) \<and>
     (\<forall>t. pc_ok s t (rpcs s t)) \<and> flag_verification s \<subseteq> produced"

lemma slot_zero [simp]: "slot_idx 0 = 0" "round_of 0 = 0" "fetch_and_and 0 1 = (0, 0)"
  by (simp_all add: slot_idx_def round_of_def fetch_and_and_def QUEUE_SIZE_def)

lemma sizes [simp]: "NUM_PRODUCER \<le> NUM_THREADS" "0 < NUM_ENQUEUE" "Suc 0 < NUM_ENQUEUE"
  by (simp_all add: NUM_THREADS_def NUM_PRODUCER_def NUM_ENQUEUE_def)

lemma word_half:
  fixes x :: "64 word"
  assumes "x div 2 = 0"
  shows "x = 0 \<or> x = 1"
proof -
  have "unat x div unat (2 :: 64 word) = 0" using assms by (metis unat_div_distrib unat_0)
  then have "unat x = 0 \<or> unat x = 1" by auto
  then show ?thesis by (metis unat_0 unat_1 unsigned_word_eqI)
qed

text \<open>A free slot of round 0 has flag 0, a full one flag 1.\<close>

lemma flag_free: "(x :: 64 word) mod 2 \<noteq> 1 \<Longrightarrow> x div 2 = 0 \<Longrightarrow> x = 0"
  using word_half by fastforce

lemma flag_full: "(x :: 64 word) mod 2 \<noteq> 0 \<Longrightarrow> x div 2 = 0 \<Longrightarrow> x = 1"
  using word_half by fastforce

lemma ring_goto_simps [simp]:
  "queue (goto s t pc) = queue s" "front (goto s t pc) = front s" "rear (goto s t pc) = rear s"
  "rpcs (goto s t pc) = (rpcs s)(t := pc)" "calls (goto s t pc) = calls s"
  "flag_verification (goto s t pc) = flag_verification s" "total (goto s t pc) = total s"
  by (simp_all add: goto_def total_def)

lemma set_slot_simps [simp]:
  "queue (set_slot s q f) = (queue s)(slot_idx q := f (queue s (slot_idx q)))"
  "front (set_slot s q f) = front s" "rear (set_slot s q f) = rear s" "rpcs (set_slot s q f) = rpcs s"
  "calls (set_slot s q f) = calls s" "flag_verification (set_slot s q f) = flag_verification s"
  "total (set_slot s q f) = total s"
  by (simp_all add: set_slot_def total_def)

lemma total_suc:
  assumes "t < NUM_THREADS" and "calls s' = (calls s)(t := Suc (calls s t))"
  shows "total s' = Suc (total s)"
proof -
  have "total s' = (\<Sum>u \<in> {..<NUM_THREADS} - {t}. calls s u) + Suc (calls s t)"
    using assms by (simp add: total_def sum.remove [of _ t])
  also have "\<dots> = Suc (total s)" using assms(1) by (simp add: total_def sum.remove [of _ t])
  finally show ?thesis .
qed

lemma total_bound:
  assumes "\<forall>t. calls s t \<le> NUM_ENQUEUE"
  shows "total s < 2 ^ 64 - 1"
proof -
  have "total s \<le> (\<Sum>t < NUM_THREADS. NUM_ENQUEUE)" unfolding total_def using assms by (intro sum_mono) blast
  also have "\<dots> = NUM_THREADS * NUM_ENQUEUE" by simp
  finally show ?thesis by (simp add: NUM_THREADS_def NUM_PRODUCER_def NUM_ENQUEUE_def)
qed

text \<open>The increment of a flag does not wrap around: it is bounded by the number of calls.\<close>

lemma flag_incr:
  fixes f :: "64 word"
  assumes "ring_inv s" and "unat f \<le> total s"
  shows "unat (f + 1) = unat f + 1" and "f + 1 \<noteq> 0"
proof -
  have "total s < 2 ^ 64 - 1" using assms(1) by (intro total_bound) (simp add: ring_inv_def)
  with assms(2) have "unat f < 2 ^ 64 - 1" by linarith
  then show "unat (f + 1) = unat f + 1" by (simp add: unat_word_ariths(1))
  then show "f + 1 \<noteq> 0" by (metis add_is_0 unat_0 zero_neq_one)
qed

lemma ring_frame:
  assumes inv: "ring_inv s" and "seq_of pc = 0" and "unat (loaded pc) \<le> total s" and "pc_ok s t pc"
  shows "ring_inv (goto s t pc)"
proof -
  have "pc_ok (goto s t pc) u p = pc_ok s u p" for u p by (cases p) simp_all
  with assms show ?thesis by (simp add: ring_inv_def)
qed

lemma ring_invD:
  assumes "ring_inv s"
  shows "front s = 0" "rear s = 0" "seq_of (rpcs s t) = 0" "t < NUM_PRODUCER \<Longrightarrow> calls s t \<le> 1"
    "calls s t \<le> NUM_ENQUEUE" "t < NUM_PRODUCER \<Longrightarrow> calls s t = 1 \<Longrightarrow> qflag (queue s 0) \<noteq> 0"
    "qflag (queue s 0) \<noteq> 0 \<Longrightarrow> qkey (queue s 0) \<in> produced"
    "unat (qflag (queue s 0)) \<le> total s" "unat (loaded (rpcs s t)) \<le> total s"
    "pc_ok s t (rpcs s t)" "flag_verification s \<subseteq> produced"
  using assms unfolding ring_inv_def by blast+

text \<open>The store that completes a call.\<close>

lemma ring_complete:
  assumes inv: "ring_inv s" and f: "loaded (rpcs s t) = f" and t: "t < NUM_THREADS" "calls s t < NUM_ENQUEUE"
    and prod: "t < NUM_PRODUCER \<longrightarrow> calls s t = 0" and key: "qkey (queue s 0) \<in> produced"
    and V: "V \<subseteq> produced"
  shows "ring_inv (goto (set_slot (s\<lparr>calls := (calls s)(t := Suc (calls s t)), flag_verification := V\<rparr>) 0
    (\<lambda>n. n\<lparr>qflag := f + 1\<rparr>)) t RIdle)" (is "ring_inv ?s")
proof -
  have tot: "total ?s = Suc (total s)" using t(1) by (intro total_suc [where t = t]) simp_all
  have fl: "unat f \<le> total s" using ring_invD(9) [OF inv, of t] f by simp
  note inc = flag_incr [OF inv fl]
  have pc: "pc_ok ?s u (rpcs s u)" if "u \<noteq> t" for u
    using ring_invD(10) [OF inv, of u] that key by (cases "rpcs s u") simp_all
  show ?thesis
    unfolding ring_inv_def
  proof (intro conjI allI impI)
    show "calls ?s u \<le> 1" if "u < NUM_PRODUCER" for u using that ring_invD(4) [OF inv] prod by simp
    show "calls ?s u \<le> NUM_ENQUEUE" for u using ring_invD(5) [OF inv] t(2) by simp
    show "unat (qflag (queue ?s 0)) \<le> total ?s" using inc fl tot by simp
    show "unat (loaded (rpcs ?s u)) \<le> total ?s" for u using ring_invD(9) [OF inv, of u] tot by simp
    show "pc_ok ?s u (rpcs ?s u)" for u using pc by simp
  qed (use ring_invD [OF inv] inc key V in simp_all)
qed

lemma ring_enqueue_inv:
  assumes "enqueue t s s'" and inv: "ring_inv s"
  shows "ring_inv s'"
proof -
  note D = ring_invD [OF inv]
  have pc: "pc_ok s t (rpcs s t)" "seq_of (rpcs s t) = 0" using D(3,10) by simp_all
  from assms(1) show ?thesis
  proof cases
    case (ticket seq r)
    then have "seq = 0" "r = 0" using D(2) by simp_all
    moreover have "s\<lparr>rear := 0\<rparr> = s" using D(2) by simp
    moreover have "key_enqueue t (calls s t) \<in> produced" using ticket by (auto simp: produced_def)
    ultimately show ?thesis using ticket by (simp add: ring_frame [OF inv])
  next
    case (pass k seq)
    then have "qflag (queue s 0) = 0" using pc(2) flag_free by (simp add: flag_at_def)
    then have "calls s t = 0" using D(4,6) [of t] pc(1) pass(2) by force
    then show ?thesis using pass pc by (simp add: ring_frame [OF inv])
  next
    case (write_key k seq)
    then have k: "k \<in> produced" "seq = 0" "t < NUM_PRODUCER" "calls s t = 0" using pc by simp_all
    let ?s = "set_slot s 0 (\<lambda>n. n\<lparr>qkey := k\<rparr>)"
    have "pc_ok ?s u (rpcs s u)" for u using D(10) [of u] k(1) by (cases "rpcs s u") simp_all
    then have "ring_inv ?s" using D k(1) by (simp add: ring_inv_def)
    then show ?thesis using write_key k by (simp add: ring_frame)
  next
    case (load_flag seq)
    then show ?thesis using pc D(8) by (simp add: ring_frame [OF inv] flag_at_def)
  next
    case (store_flag seq f)
    have "ring_inv (goto (set_slot (s\<lparr>calls := (calls s)(t := Suc (calls s t)),
        flag_verification := flag_verification s\<rparr>) 0 (\<lambda>n. n\<lparr>qflag := f + 1\<rparr>)) t RIdle)"
      using store_flag pc D(11) by (intro ring_complete [OF inv]) (simp_all add: NUM_THREADS_def)
    then show ?thesis using store_flag pc by simp
  qed (use inv in simp)
qed

lemma ring_dequeue_inv:
  assumes "dequeue t s s'" and inv: "ring_inv s"
  shows "ring_inv s'"
proof -
  note D = ring_invD [OF inv]
  have pc: "pc_ok s t (rpcs s t)" "seq_of (rpcs s t) = 0" using D(3,10) by simp_all
  from assms(1) show ?thesis
  proof cases
    case (ticket seq r)
    then have "seq = 0" "r = 0" using D(1) by simp_all
    moreover have "s\<lparr>front := 0\<rparr> = s" using D(1) by simp
    ultimately show ?thesis using ticket by (simp add: ring_frame [OF inv])
  next
    case (pass seq)
    then have "qflag (queue s 0) = 1" using pc(2) flag_full by (simp add: flag_at_def)
    then have "qkey (queue s 0) \<in> produced" using D(7) by simp
    then show ?thesis using pass pc by (simp add: ring_frame [OF inv])
  next
    case (read_key seq)
    then show ?thesis using pc by (simp add: ring_frame [OF inv])
  next
    case (load_flag seq k)
    then show ?thesis using pc D(8) by (simp add: ring_frame [OF inv] flag_at_def)
  next
    case (store_flag seq k f)
    have "ring_inv (goto (set_slot (s\<lparr>calls := (calls s)(t := Suc (calls s t)),
        flag_verification := insert k (flag_verification s)\<rparr>) 0 (\<lambda>n. n\<lparr>qflag := f + 1\<rparr>)) t RIdle)"
      using store_flag pc D(11) by (intro ring_complete [OF inv]) simp_all
    then show ?thesis using store_flag pc by simp
  qed (use inv in simp)
qed

interpretation rq: safety "\<lambda>s. s = init_queue" ring_step ring_inv
proof
  show "ring_inv s" if "s = init_queue" for s
    using that by (simp add: ring_inv_def init_queue_def)
  show "ring_inv s'" if "ring_inv s" "ring_step s s'" for s s'
    using that ring_enqueue_inv ring_dequeue_inv unfolding ring_step_def by blast
qed

text \<open>
  C12: the ticket bug: in every reachable state every producer has completed at most one of
  its 1000000 enqueues, so the threads are never joined and the program never verifies.
\<close>

theorem ring_producers_starve:
  assumes "reach (\<lambda>s. s = init_queue) ring_step s"
  shows "(\<forall>t < NUM_PRODUCER. calls s t \<le> 1) \<and> \<not> joined s"
proof -
  note D = ring_invD [OF rq.reach_inv [OF assms]]
  have "calls s 0 \<le> 1" using D(4) [of 0] by (simp add: NUM_PRODUCER_def)
  then have "calls s 0 \<noteq> NUM_ENQUEUE" by (simp add: NUM_ENQUEUE_def)
  then have "\<not> joined s" unfolding joined_def NUM_THREADS_def NUM_PRODUCER_def by (metis zero_less_numeral add_pos_pos)
  with D(4) show ?thesis by blast
qed

lemma ring_steps:
  "reach i ring_step s \<Longrightarrow> enqueue t s s' \<Longrightarrow> reach i ring_step s'"
  "reach i ring_step s \<Longrightarrow> dequeue t s s' \<Longrightarrow> reach i ring_step s'"
  by (erule reach_step, auto simp: ring_step_def)+

definition demo_enqueued :: ring where
  "demo_enqueued = goto (init_queue\<lparr>queue := (queue init_queue)(0 := \<lparr>qkey = 0, qflag = 1\<rparr>),
     calls := (calls init_queue)(0 := 1)\<rparr>) 0 RIdle"

lemma ring_demo_reach: "reach (\<lambda>s. s = init_queue) ring_step demo_enqueued"
proof -
  let ?e = "\<lambda>pc. goto init_queue 0 pc"
  have e1: "enqueue 0 init_queue (?e (EnqSpin 0 0))"
    using enqueue.ticket [of init_queue 0 0 0]
    by (simp add: init_queue_def goto_def NUM_PRODUCER_def NUM_ENQUEUE_def key_enqueue_def)
  have e2: "enqueue 0 (?e (EnqSpin 0 0)) (?e (EnqKey 0 0))"
    using enqueue.pass [of "?e (EnqSpin 0 0)" 0 0 0] by (simp add: init_queue_def goto_def flag_at_def)
  have e3: "enqueue 0 (?e (EnqKey 0 0)) (?e (EnqLoad 0))"
    using enqueue.write_key [of "?e (EnqKey 0 0)" 0 0 0]
    by (simp add: init_queue_def goto_def set_slot_def fun_upd_idem)
  have e4: "enqueue 0 (?e (EnqLoad 0)) (?e (EnqStore 0 0))"
    using enqueue.load_flag [of "?e (EnqLoad 0)" 0 0] by (simp add: init_queue_def goto_def flag_at_def)
  have e5: "enqueue 0 (?e (EnqStore 0 0)) demo_enqueued"
    using enqueue.store_flag [of "?e (EnqStore 0 0)" 0 0 0]
    by (simp add: init_queue_def goto_def set_slot_def demo_enqueued_def)
  have "reach (\<lambda>s. s = init_queue) ring_step init_queue" by (rule reach_init) simp
  note r = ring_steps(1) [OF ring_steps(1) [OF ring_steps(1) [OF this e1] e2] e3]
  show ?thesis by (rule ring_steps(1) [OF ring_steps(1) [OF r e4] e5])
qed

theorem ring_producers_starve_witness: "calls demo_enqueued 0 = 1 \<and> \<not> joined demo_enqueued"
  using ring_producers_starve [OF ring_demo_reach] by (simp add: demo_enqueued_def)


definition demo_dequeued :: ring where
  "demo_dequeued = goto (demo_enqueued\<lparr>queue := (queue init_queue)(0 := \<lparr>qkey = 0, qflag = 2\<rparr>),
     calls := (calls demo_enqueued)(4 := 1), flag_verification := {0}\<rparr>) 4 RIdle"

lemma demo_reach_deq: "reach (\<lambda>s. s = init_queue) ring_step demo_dequeued"
proof -
  let ?e = "\<lambda>pc. goto demo_enqueued 4 pc"
  note defs = init_queue_def goto_def demo_enqueued_def
  have e1: "dequeue 4 demo_enqueued (?e (DeqSpin 0))"
    using dequeue.ticket [of demo_enqueued 4 0 0]
    by (simp add: defs NUM_PRODUCER_def NUM_THREADS_def NUM_ENQUEUE_def)
  have e2: "dequeue 4 (?e (DeqSpin 0)) (?e (DeqKey 0))"
    using dequeue.pass [of "?e (DeqSpin 0)" 4 0] by (simp add: defs flag_at_def)
  have e3: "dequeue 4 (?e (DeqKey 0)) (?e (DeqLoad 0 0))"
    using dequeue.read_key [of "?e (DeqKey 0)" 4 0] by (simp add: defs)
  have e4: "dequeue 4 (?e (DeqLoad 0 0)) (?e (DeqStore 0 0 1))"
    using dequeue.load_flag [of "?e (DeqLoad 0 0)" 4 0 0] by (simp add: defs flag_at_def)
  have e5: "dequeue 4 (?e (DeqStore 0 0 1)) demo_dequeued"
    using dequeue.store_flag [of "?e (DeqStore 0 0 1)" 4 0 0 1]
    by (simp add: defs set_slot_def demo_dequeued_def)
  note r = ring_steps(2) [OF ring_steps(2) [OF ring_steps(2) [OF ring_demo_reach e1] e2] e3]
  show ?thesis by (rule ring_steps(2) [OF ring_steps(2) [OF r e4] e5])
qed


end
