(* ===== verification/Unbounded_Queue.thy ===== *)
theory Unbounded_Queue
  imports Prelude
begin

text \<open>
  lab14/queue_unbounded.cpp: a linked queue with compare-and-swap.  The source names the new
  node \<open>newNode\<close> and then \<open>new_node\<close>; both are the node of the call here.  An enqueue runs
  the second and the third way of the source one after the other, as the code does.  Every
  rule of the step relation is one access to shared memory.
\<close>

section \<open>The program\<close>

record unode =
  ukey :: int
  unext :: ptr

datatype upc =
    UIdle
  | Enq2 addr \<comment> \<open>second way: about to read \<open>tail\<close>\<close>
  | Cas2 addr ptr \<comment> \<open>about to compare and swap \<open>tail->next\<close> from null to the node\<close>
  | Set2 addr \<comment> \<open>about to set \<open>tail\<close> to the node\<close>
  | Enq3 addr \<comment> \<open>third way: about to copy \<open>tail\<close>\<close>
  | Cas3 addr ptr \<comment> \<open>about to compare and swap the next pointer of the copy\<close>
  | Help3 addr ptr ptr \<comment> \<open>about to help \<open>tail\<close> on to the successor found\<close>
  | Fin3 addr ptr \<comment> \<open>about to move \<open>tail\<close> to the node if it is still the copy\<close>
  | EnqDone
  | Deq \<comment> \<open>about to copy \<open>head\<close>\<close>
  | DeqTest ptr \<comment> \<open>about to test the next pointer of the copy\<close>
  | DeqNext ptr \<comment> \<open>about to read the next pointer again for the swap\<close>
  | DeqCas ptr ptr \<comment> \<open>about to compare and swap \<open>head\<close>\<close>
  | DeqKey ptr \<comment> \<open>about to read the key of the successor\<close>
  | DeqDone int

record uqueue =
  uheap :: "addr \<rightharpoonup> unode"
  uhead :: ptr
  utail :: ptr
  upcs :: "tid \<Rightarrow> upc"

definition goto :: "uqueue \<Rightarrow> tid \<Rightarrow> upc \<Rightarrow> uqueue" where
  "goto s t pc = s\<lparr>upcs := (upcs s)(t := pc)\<rparr>"

text \<open>
  \<open>main\<close> allocates \<open>head\<close> and \<open>tail\<close> (addresses \<open>h\<close> and \<open>t\<close>), \<open>init_queue\<close> allocates the
  sentinel \<open>c\<close> and links both to it.  The keys of the three nodes are what the memory holds.
\<close>

definition init_queue :: "addr \<Rightarrow> addr \<Rightarrow> addr \<Rightarrow> int \<Rightarrow> int \<Rightarrow> int \<Rightarrow> uqueue" where
  "init_queue h t c kh kt kc =
     \<lparr>uheap = Map.empty(h \<mapsto> \<lparr>ukey = kh, unext = Some c\<rparr>, t \<mapsto> \<lparr>ukey = kt, unext = Some c\<rparr>,
        c \<mapsto> \<lparr>ukey = kc, unext = NULL\<rparr>),
      uhead = Some h, utail = Some t, upcs = (\<lambda>_. UIdle)\<rparr>"

definition set_next :: "uqueue \<Rightarrow> addr \<Rightarrow> ptr \<Rightarrow> uqueue" where
  "set_next s a p = (case uheap s a of None \<Rightarrow> s | Some n \<Rightarrow> s\<lparr>uheap := (uheap s)(a \<mapsto> n\<lparr>unext := p\<rparr>)\<rparr>)"

inductive enqueue :: "tid \<Rightarrow> uqueue \<Rightarrow> uqueue \<Rightarrow> bool" where
  malloc: "upcs s t = UIdle \<Longrightarrow> uheap s x = None \<Longrightarrow>
    enqueue t s (goto (s\<lparr>uheap := (uheap s)(x \<mapsto> \<lparr>ukey = k, unext = NULL\<rparr>)\<rparr>) t (Enq2 x))"
| read2: "upcs s t = Enq2 x \<Longrightarrow> enqueue t s (goto s t (Cas2 x (utail s)))"
| cas2_fail: "upcs s t = Cas2 x p \<Longrightarrow> deref (uheap s) p = Inr n \<Longrightarrow> unext n \<noteq> NULL \<Longrightarrow>
    enqueue t s (goto s t (Enq2 x))"
| cas2_ok: "upcs s t = Cas2 x (Some a) \<Longrightarrow> uheap s a = Some n \<Longrightarrow> unext n = NULL \<Longrightarrow>
    enqueue t s (goto (set_next s a (Some x)) t (Set2 x))"
| set2: "upcs s t = Set2 x \<Longrightarrow> enqueue t s (goto (s\<lparr>utail := Some x\<rparr>) t (Enq3 x))"
| read3: "upcs s t = Enq3 x \<Longrightarrow> enqueue t s (goto s t (Cas3 x (utail s)))"
| cas3_ok: "upcs s t = Cas3 x (Some a) \<Longrightarrow> uheap s a = Some n \<Longrightarrow> unext n = NULL \<Longrightarrow>
    enqueue t s (goto (set_next s a (Some x)) t (Fin3 x (Some a)))"
| cas3_fail: "upcs s t = Cas3 x p \<Longrightarrow> deref (uheap s) p = Inr n \<Longrightarrow> unext n \<noteq> NULL \<Longrightarrow>
    enqueue t s (goto s t (Help3 x p (unext n)))"
| help3: "upcs s t = Help3 x p q \<Longrightarrow>
    enqueue t s (goto (if utail s = p then s\<lparr>utail := q\<rparr> else s) t (Enq3 x))"
| fin3: "upcs s t = Fin3 x p \<Longrightarrow>
    enqueue t s (goto (if utail s = p then s\<lparr>utail := Some x\<rparr> else s) t EnqDone)"
| enq_return: "upcs s t = EnqDone \<Longrightarrow> enqueue t s (goto s t UIdle)"

inductive dequeue :: "tid \<Rightarrow> uqueue \<Rightarrow> uqueue \<Rightarrow> bool" where
  deq_call: "upcs s t = UIdle \<Longrightarrow> dequeue t s (goto s t Deq)"
| read_head: "upcs s t = Deq \<Longrightarrow> dequeue t s (goto s t (DeqTest (uhead s)))"
| empty: "upcs s t = DeqTest p \<Longrightarrow> deref (uheap s) p = Inr n \<Longrightarrow> unext n = NULL \<Longrightarrow>
    dequeue t s (goto s t Deq)"
| nonempty: "upcs s t = DeqTest p \<Longrightarrow> deref (uheap s) p = Inr n \<Longrightarrow> unext n \<noteq> NULL \<Longrightarrow>
    dequeue t s (goto s t (DeqNext p))"
| read_next: "upcs s t = DeqNext p \<Longrightarrow> deref (uheap s) p = Inr n \<Longrightarrow>
    dequeue t s (goto s t (DeqCas p (unext n)))"
| cas_ok: "upcs s t = DeqCas p q \<Longrightarrow> uhead s = p \<Longrightarrow>
    dequeue t s (goto (s\<lparr>uhead := q\<rparr>) t (DeqKey p))"
| cas_fail: "upcs s t = DeqCas p q \<Longrightarrow> uhead s \<noteq> p \<Longrightarrow> dequeue t s (goto s t Deq)"
| read_key: "upcs s t = DeqKey p \<Longrightarrow> deref (uheap s) p = Inr n \<Longrightarrow> deref (uheap s) (unext n) = Inr m \<Longrightarrow>
    dequeue t s (goto s t (DeqDone (ukey m)))"
| deq_return: "upcs s t = DeqDone k \<Longrightarrow> dequeue t s (goto s t UIdle)"

definition uq_step :: "uqueue \<Rightarrow> uqueue \<Rightarrow> bool" where
  "uq_step s s' \<longleftrightarrow> (\<exists>t. enqueue t s s' \<or> dequeue t s s')"

definition uq_start :: "addr \<Rightarrow> addr \<Rightarrow> addr \<Rightarrow> int \<Rightarrow> uqueue \<Rightarrow> bool" where
  "uq_start h t c kc s \<longleftrightarrow> distinct [h, t, c] \<and> (\<exists>kh kt. s = init_queue h t c kh kt kc)"


section \<open>The queue stays empty\<close>

text \<open>
  \<open>init_queue\<close> makes \<open>tail\<close> a node that points to the sentinel instead of the sentinel
  itself.  Its next pointer is never null, so the swap of the second way never succeeds.
\<close>

fun upc_ok :: "uqueue \<Rightarrow> addr \<Rightarrow> addr \<Rightarrow> addr \<Rightarrow> int \<Rightarrow> upc \<Rightarrow> bool" where
  "upc_ok s h t c kc UIdle = True"
| "upc_ok s h t c kc (Enq2 x) = True"
| "upc_ok s h t c kc (Cas2 x p) = (p = Some t)"
| "upc_ok s h t c kc Deq = True"
| "upc_ok s h t c kc (DeqTest p) = (p = Some h \<or> p = Some c \<and> uhead s = Some c)"
| "upc_ok s h t c kc (DeqNext p) = (p = Some h)"
| "upc_ok s h t c kc (DeqCas p q) = (p = Some h \<and> q = Some c)"
| "upc_ok s h t c kc (DeqKey p) = (p = Some h \<and> uhead s = Some c)"
| "upc_ok s h t c kc (DeqDone k) = (k = kc \<and> uhead s = Some c)"
| "upc_ok s h t c kc _ = False"

definition uq_inv :: "addr \<Rightarrow> addr \<Rightarrow> addr \<Rightarrow> int \<Rightarrow> uqueue \<Rightarrow> bool" where
  "uq_inv h t c kc s \<longleftrightarrow> utail s = Some t \<and> uhead s \<in> {Some h, Some c} \<and>
     (\<exists>k. uheap s h = Some \<lparr>ukey = k, unext = Some c\<rparr>) \<and>
     (\<exists>k. uheap s t = Some \<lparr>ukey = k, unext = Some c\<rparr>) \<and>
     uheap s c = Some \<lparr>ukey = kc, unext = NULL\<rparr> \<and> (\<forall>u. upc_ok s h t c kc (upcs s u))"

lemma uq_goto_simps [simp]:
  "uheap (goto s t pc) = uheap s" "uhead (goto s t pc) = uhead s" "utail (goto s t pc) = utail s"
  "upcs (goto s t pc) = (upcs s)(t := pc)"
  by (simp_all add: goto_def)

lemma upc_ok_mono:
  assumes "upc_ok s h t c kc pc" and "uhead s' = uhead s \<or> uhead s' = Some c"
  shows "upc_ok s' h t c kc pc"
  using assms by (cases pc) auto

lemma upc_ok_goto [simp]: "upc_ok (goto s u pc') h t c kc pc = upc_ok s h t c kc pc"
  by (cases pc) simp_all

lemma uq_frame:
  assumes inv: "uq_inv h t c kc s" and "upc_ok s h t c kc pc"
  shows "uq_inv h t c kc (goto s u pc)"
  using assms by (simp add: uq_inv_def)

lemma uq_enqueue_inv:
  assumes "enqueue u s s'" and inv: "uq_inv h t c kc s"
  shows "uq_inv h t c kc s'"
proof -
  have pc: "upc_ok s h t c kc (upcs s u)" using inv by (simp add: uq_inv_def)
  from assms(1) show ?thesis
  proof cases
    case (malloc x k)
    let ?s = "s\<lparr>uheap := (uheap s)(x \<mapsto> \<lparr>ukey = k, unext = NULL\<rparr>)\<rparr>"
    have "uq_inv h t c kc ?s" using inv malloc(3) upc_ok_mono [of s h t c kc _ ?s]
      by (auto simp: uq_inv_def)
    then show ?thesis using malloc by (simp add: uq_frame)
  next
    case (cas2_ok x a n)
    with pc inv show ?thesis by (auto simp: uq_inv_def)
  qed (use pc inv in \<open>auto simp: uq_frame\<close>, auto simp: uq_inv_def)
qed

lemma uq_dequeue_inv:
  assumes "dequeue u s s'" and inv: "uq_inv h t c kc s"
  shows "uq_inv h t c kc s'"
proof -
  have pc: "upc_ok s h t c kc (upcs s u)" using inv by (simp add: uq_inv_def)
  from assms(1) show ?thesis
  proof cases
    case (cas_ok p q)
    let ?s = "s\<lparr>uhead := q\<rparr>"
    have "uq_inv h t c kc ?s" using inv pc cas_ok upc_ok_mono [of s h t c kc _ ?s]
      by (auto simp: uq_inv_def)
    then show ?thesis using cas_ok pc by (simp add: uq_frame)
  next
    case read_head
    then show ?thesis using inv by (auto simp: uq_inv_def intro!: uq_frame)
  next
    case (nonempty p n)
    then show ?thesis using inv pc by (auto simp: uq_inv_def intro!: uq_frame)
  next
    case (read_next p n)
    then show ?thesis using inv pc by (auto simp: uq_inv_def intro!: uq_frame)
  next
    case (read_key p n m)
    then show ?thesis using inv pc by (auto simp: uq_inv_def intro!: uq_frame)
  qed (use inv in \<open>simp_all add: uq_frame\<close>)
qed

interpretation uq: safety "uq_start h t c kc" uq_step "uq_inv h t c kc" for h t c kc
proof
  show "uq_inv h t c kc s" if "uq_start h t c kc s" for s
    using that by (auto simp: uq_start_def uq_inv_def init_queue_def)
  show "uq_inv h t c kc s'" if "uq_inv h t c kc s" "uq_step s s'" for s s'
    using that uq_enqueue_inv uq_dequeue_inv unfolding uq_step_def by blast
qed

text \<open>
  C14: the initialisation bug: no enqueue ever gets past its first compare-and-swap, and
  whatever a dequeue returns is the uninitialised key of the sentinel.
\<close>

theorem unbounded_never_enqueues:
  assumes "reach (uq_start h t c kc) uq_step s"
  shows "upcs s u \<noteq> Set2 x \<and> upcs s u \<noteq> EnqDone \<and> (upcs s u = DeqDone k \<longrightarrow> k = kc)"
proof -
  have "upc_ok s h t c kc (upcs s u)" using uq.reach_inv [OF assms] by (simp add: uq_inv_def)
  then show ?thesis by auto
qed

lemma uq_deq: "reach i uq_step s \<Longrightarrow> dequeue t s s' \<Longrightarrow> reach i uq_step s'"
  by (erule reach_step) (auto simp: uq_step_def)

definition demo :: uqueue where
  "demo = init_queue 0 1 2 8 9 42"

definition demo_deq :: uqueue where
  "demo_deq = goto (demo\<lparr>uhead := Some 2\<rparr>) 0 (DeqDone 42)"

lemma uq_demo_reach: "reach (uq_start 0 1 2 42) uq_step demo_deq"
proof -
  let ?c = "\<lparr>ukey = 8, unext = Some 2\<rparr>" and ?g = "\<lambda>pc. goto demo 0 pc"
  note defs = demo_def init_queue_def goto_def
  have d1: "dequeue 0 demo (?g Deq)"
    using dequeue.deq_call [of demo 0] by (simp add: defs)
  have d2: "dequeue 0 (?g Deq) (?g (DeqTest (Some 0)))"
    using dequeue.read_head [of "?g Deq" 0] by (simp add: defs)
  have d3: "dequeue 0 (?g (DeqTest (Some 0))) (?g (DeqNext (Some 0)))"
    using dequeue.nonempty [of "?g (DeqTest (Some 0))" 0 "Some 0" ?c] by (simp add: defs deref_def)
  have d4: "dequeue 0 (?g (DeqNext (Some 0))) (?g (DeqCas (Some 0) (Some 2)))"
    using dequeue.read_next [of "?g (DeqNext (Some 0))" 0 "Some 0" ?c] by (simp add: defs deref_def)
  have d5: "dequeue 0 (?g (DeqCas (Some 0) (Some 2))) (goto (demo\<lparr>uhead := Some 2\<rparr>) 0 (DeqKey (Some 0)))"
    using dequeue.cas_ok [of "?g (DeqCas (Some 0) (Some 2))" 0 "Some 0" "Some 2"] by (simp add: defs)
  have d6: "dequeue 0 (goto (demo\<lparr>uhead := Some 2\<rparr>) 0 (DeqKey (Some 0))) demo_deq"
    using dequeue.read_key [of "goto (demo\<lparr>uhead := Some 2\<rparr>) 0 (DeqKey (Some 0))" 0 "Some 0" ?c
        "\<lparr>ukey = 42, unext = NULL\<rparr>"]
    by (simp add: defs deref_def demo_deq_def)
  have "reach (uq_start 0 1 2 42) uq_step demo"
    by (rule reach_init) (simp add: uq_start_def demo_def, blast)
  note r = uq_deq [OF uq_deq [OF uq_deq [OF this d1] d2] d3]
  show ?thesis by (rule uq_deq [OF uq_deq [OF uq_deq [OF r d4] d5] d6])
qed

theorem unbounded_never_enqueues_witness: "upcs demo_deq 0 = DeqDone 42 \<and> upcs demo_deq 1 \<noteq> EnqDone"
  using unbounded_never_enqueues [OF uq_demo_reach, of 1] by (simp add: demo_deq_def)

end
