(* ===== verification/Kmp_Search.thy ===== *)
theory Kmp_Search
  imports Prelude "HOL-Library.Sublist"
begin

text \<open>
  project1/kmp_solution/ref_solution.cpp, the search of one word: the failure function
  \<open>getPi\<close> and the search \<open>kmp\<close>, which gives the position of the first occurrence or -1.
  The inner while loop follows the failure function; it is a partial function, not
  returning is \<open>None\<close>.  Reading a string at its length gives the terminating zero.
\<close>

section \<open>The program\<close>

definition char_at :: "string \<Rightarrow> nat \<Rightarrow> char" where
  "char_at s i = (if i < length s then s ! i else CHR 0x00)"

partial_function (option) fall_back :: "nat list \<Rightarrow> string \<Rightarrow> char \<Rightarrow> nat \<Rightarrow> nat option" where
  "fall_back pi p c j = (if j > 0 \<and> c \<noteq> char_at p j then fall_back pi p c (pi ! (j - 1)) else Some j)"

text \<open>The loop of \<open>getPi\<close> from index \<open>i\<close> with \<open>n\<close> turns left.\<close>

fun getPi_loop :: "string \<Rightarrow> nat \<Rightarrow> nat \<Rightarrow> nat list \<Rightarrow> nat \<Rightarrow> nat list option" where
  "getPi_loop p i 0 pi j = Some pi"
| "getPi_loop p i (Suc n) pi j =
     (case fall_back pi p (char_at p i) j of
        None \<Rightarrow> None
      | Some j' \<Rightarrow>
          if char_at p i = char_at p j' then getPi_loop p (Suc i) n (pi[i := Suc j']) (Suc j')
          else getPi_loop p (Suc i) n pi j')"

definition getPi :: "string \<Rightarrow> nat list option" where
  "getPi p = getPi_loop p 1 (length p - 1) (replicate (length p) 0) 0"

text \<open>The loop of \<open>kmp\<close> over the rest of the input; \<open>i\<close> is the position, -1 means no match.\<close>

fun kmp_loop :: "nat list \<Rightarrow> string \<Rightarrow> nat \<Rightarrow> string \<Rightarrow> nat \<Rightarrow> int option" where
  "kmp_loop pi word i [] j = Some (- 1)"
| "kmp_loop pi word i (c # cs) j =
     (case fall_back pi word c j of
        None \<Rightarrow> None
      | Some j' \<Rightarrow>
          if c = char_at word j' then
            if int j' = int (length word) - 1 then Some (int i - int (length word) + 1)
            else kmp_loop pi word (Suc i) cs (Suc j')
          else kmp_loop pi word (Suc i) cs j')"

definition kmp :: "string \<Rightarrow> string \<Rightarrow> int option" where
  "kmp input word = (case getPi word of None \<Rightarrow> None | Some pi \<Rightarrow> kmp_loop pi word 0 input 0)"


section \<open>Longest prefixes\<close>

text \<open>
  \<open>best p n xs j\<close>: the longest prefix of \<open>p\<close> of length below \<open>n\<close> that is a suffix of \<open>xs\<close>
  has length \<open>j\<close>.  The failure function is right up to \<open>n\<close> if it gives the longest proper
  border of each prefix.
\<close>

definition best :: "string \<Rightarrow> nat \<Rightarrow> string \<Rightarrow> nat \<Rightarrow> bool" where
  "best p n xs j \<longleftrightarrow> j < n \<and> suffix (take j p) xs \<and> (\<forall>k < n. suffix (take k p) xs \<longrightarrow> k \<le> j)"

definition pi_ok :: "string \<Rightarrow> nat \<Rightarrow> nat list \<Rightarrow> bool" where
  "pi_ok p n pi \<longleftrightarrow> length pi = length p \<and> (\<forall>i < n. best p (Suc i) (take (Suc i) p) (pi ! i))"

lemma suffix_take_snoc:
  assumes "k < length p"
  shows "suffix (take (Suc k) p) (xs @ [c]) \<longleftrightarrow> suffix (take k p) xs \<and> p ! k = c"
  using assms by (auto simp: take_Suc_conv_app_nth)

lemma best_border:
  assumes "suffix (take j p) xs" and "suffix (take k p) xs" and "k \<le> j" and "j \<le> length p"
  shows "suffix (take k p) (take j p)"
  using assms by (auto intro: suffix_length_suffix)

text \<open>
  Following the failure function finds the longest prefix that can be extended by \<open>c\<close>.
\<close>

definition extends :: "string \<Rightarrow> nat \<Rightarrow> string \<Rightarrow> char \<Rightarrow> nat \<Rightarrow> bool" where
  "extends p n xs c j \<longleftrightarrow> j < n \<and> suffix (take j p) xs \<and> (j = 0 \<or> p ! j = c) \<and>
     (\<forall>k < n. suffix (take k p) xs \<and> p ! k = c \<longrightarrow> k \<le> j)"

lemma fall_back_ok:
  assumes "pi_ok p m pi" and "n \<le> length p" and "j \<le> m" and "j < n" and "suffix (take j p) xs"
    and "\<forall>k < n. suffix (take k p) xs \<and> p ! k = c \<longrightarrow> k \<le> j"
  shows "\<exists>j'. fall_back pi p c j = Some j' \<and> extends p n xs c j'"
  using assms(3-6)
proof (induction j rule: less_induct)
  case (less j)
  have at: "char_at p j = p ! j" using less.prems(2) assms(2) by (simp add: char_at_def)
  show ?case
  proof (cases "j > 0 \<and> c \<noteq> p ! j")
    case False
    then have "fall_back pi p c j = Some j" using at by (subst fall_back.simps) auto
    moreover have "extends p n xs c j" using False less.prems by (auto simp: extends_def)
    ultimately show ?thesis by blast
  next
    case True
    let ?k = "pi ! (j - 1)"
    have b: "best p j (take j p) ?k" using assms(1) True less.prems(1) unfolding pi_ok_def
      by (metis Suc_pred' diff_less less_le_trans zero_less_one)
    then have kj: "?k < j" and sk: "suffix (take ?k p) (take j p)" by (auto simp: best_def)
    have "fall_back pi p c j = fall_back pi p c ?k" using True at by (subst fall_back.simps) simp
    moreover have "\<exists>j'. fall_back pi p c ?k = Some j' \<and> extends p n xs c j'"
    proof (rule less.IH [OF kj])
      show "suffix (take ?k p) xs" using sk less.prems(3) by (rule suffix_order.trans)
      show "\<forall>i < n. suffix (take i p) xs \<and> p ! i = c \<longrightarrow> i \<le> ?k"
      proof (intro allI impI)
        fix i assume i: "i < n" "suffix (take i p) xs \<and> p ! i = c"
        with less.prems(4) True have "i < j" by (metis le_neq_implies_less)
        moreover have "suffix (take i p) (take j p)"
          using best_border [of j p xs i] less.prems(2,3) i(2) calculation assms(2) by simp
        ultimately show "i \<le> ?k" using b by (simp add: best_def)
      qed
    qed (use kj less.prems in auto)
    ultimately show ?thesis by simp
  qed
qed

lemma extend_best:
  assumes "extends p n xs c j" and "n \<le> length p"
  shows "best p (Suc n) (xs @ [c]) (if c = p ! j then Suc j else j)"
proof -
  have up: "k \<le> (if c = p ! j then Suc j else j)" if "k < Suc n" "suffix (take k p) (xs @ [c])" for k
  proof (cases k)
    case (Suc i)
    with that assms(2) have "suffix (take i p) xs" "p ! i = c" "i < n"
      using suffix_take_snoc [of i p xs c] by auto
    with assms(1) Suc show ?thesis by (fastforce simp: extends_def)
  qed simp
  show ?thesis
  proof (cases "c = p ! j")
    case True
    then show ?thesis using assms up suffix_take_snoc [of j p xs c] by (auto simp: best_def extends_def)
  next
    case False
    then have "j = 0" using assms(1) by (auto simp: extends_def)
    then show ?thesis using False up by (auto simp: best_def)
  qed
qed

lemma best_fall_back:
  assumes "pi_ok p m pi" and "n \<le> length p" and "j \<le> m" and "best p n xs j"
  obtains j' where "fall_back pi p c j = Some j'" and "j' < n" and "c \<noteq> p ! j' \<Longrightarrow> j' = 0"
    and "best p (Suc n) (xs @ [c]) (if c = p ! j' then Suc j' else j')"
proof -
  have "\<exists>j'. fall_back pi p c j = Some j' \<and> extends p n xs c j'"
    using assms by (intro fall_back_ok) (auto simp: best_def)
  then obtain j' where j': "fall_back pi p c j = Some j'" "extends p n xs c j'" by blast
  then have "j' < n" "c \<noteq> p ! j' \<Longrightarrow> j' = 0" by (auto simp: extends_def)
  with j' extend_best [OF j'(2) assms(2)] that show thesis by blast
qed

lemma getPi_loop_ok:
  assumes "pi_ok p i pi" and "length p = i + n" and "0 < i" and "best p i (take i p) j"
    and "\<forall>k. i \<le> k \<and> k < length p \<longrightarrow> pi ! k = 0"
  shows "\<exists>pi'. getPi_loop p i n pi j = Some pi' \<and> pi_ok p (length p) pi'"
  using assms
proof (induction n arbitrary: i pi j)
  case 0
  then show ?case by simp
next
  case (Suc n)
  have i: "i < length p" using Suc.prems(2) by simp
  have j: "j \<le> i" using Suc.prems(4) by (simp add: best_def)
  obtain j' where j': "fall_back pi p (p ! i) j = Some j'" "j' < i" "p ! i \<noteq> p ! j' \<Longrightarrow> j' = 0"
    "best p (Suc i) (take i p @ [p ! i]) (if p ! i = p ! j' then Suc j' else j')"
    using best_fall_back [OF Suc.prems(1) _ j Suc.prems(4)] i by (metis less_imp_le)
  have tk: "take i p @ [p ! i] = take (Suc i) p" using i by (simp add: take_Suc_conv_app_nth)
  note b = j'(4) [unfolded tk]
  have at: "char_at p i = p ! i" "char_at p j' = p ! j'" using i j'(2) by (auto simp: char_at_def)
  have len: "length pi = length p" using Suc.prems(1) by (simp add: pi_ok_def)
  show ?case
  proof (cases "p ! i = p ! j'")
    case True
    have "pi_ok p (Suc i) (pi[i := Suc j'])"
      using Suc.prems(1) b True len i unfolding pi_ok_def by (auto simp: less_Suc_eq)
    with Suc.IH [of "Suc i" "pi[i := Suc j']" "Suc j'"] Suc.prems(2,5) True j'(1) at b show ?thesis
      by simp
  next
    case False
    have "pi_ok p (Suc i) pi"
      using Suc.prems(1,5) j'(3) b False i unfolding pi_ok_def by (auto simp: less_Suc_eq)
    with Suc.IH [of "Suc i" pi j'] Suc.prems(2,5) False j'(1) at b show ?thesis
      by simp
  qed
qed

lemma getPi_ok: "\<exists>pi. getPi p = Some pi \<and> pi_ok p (length p) pi"
proof (cases p)
  case Nil
  then show ?thesis by (simp add: getPi_def pi_ok_def)
next
  case (Cons c cs)
  have "pi_ok p 1 (replicate (length p) 0)" using Cons by (auto simp: pi_ok_def best_def)
  moreover have "best p 1 (take 1 p) 0" by (simp add: best_def)
  ultimately show ?thesis
    unfolding getPi_def using Cons by (intro getPi_loop_ok) auto
qed


section \<open>First occurrences\<close>

definition occurs_at :: "string \<Rightarrow> string \<Rightarrow> nat \<Rightarrow> bool" where
  "occurs_at w input i \<longleftrightarrow> prefix w (drop i input) \<and> i \<le> length input"

definition is_first :: "string \<Rightarrow> string \<Rightarrow> int \<Rightarrow> bool" where
  "is_first w input r \<longleftrightarrow>
     (if r = - 1 then \<forall>i. \<not> occurs_at w input i
      else 0 \<le> r \<and> occurs_at w input (nat r) \<and> (\<forall>i < nat r. \<not> occurs_at w input i))"

lemma occurs_at_suffix:
  "occurs_at w input i \<longleftrightarrow> i + length w \<le> length input \<and> suffix w (take (i + length w) input)"
proof
  assume "occurs_at w input i"
  then obtain ys where "drop i input = w @ ys" and i: "i \<le> length input"
    by (auto simp: occurs_at_def prefix_def)
  then have "input = take i input @ w @ ys" by (metis append_take_drop_id)
  then obtain us where us: "input = us @ w @ ys" "length us = i" using i by (metis length_take min_absorb2)
  then show "i + length w \<le> length input \<and> suffix w (take (i + length w) input)"
    by (auto simp: suffix_def)
next
  assume r: "i + length w \<le> length input \<and> suffix w (take (i + length w) input)"
  then obtain us where us: "take (i + length w) input = us @ w" by (auto simp: suffix_def)
  then have "length us = i" using r by (metis add_right_cancel length_append length_take min_absorb2)
  moreover have "input = us @ w @ drop (i + length w) input"
    using us by (metis append.assoc append_take_drop_id)
  ultimately have "drop i input = w @ drop (i + length w) input" by (metis append_eq_conv_conj)
  then show "occurs_at w input i" using r by (auto simp: occurs_at_def)
qed

lemma kmp_loop_ok:
  assumes "pi_ok p (length p) pi" and "p \<noteq> []" and "best p (length p) xs j"
    and "\<forall>k \<le> length xs. \<not> suffix p (take k xs)"
  shows "\<exists>r. kmp_loop pi p (length xs) cs j = Some r \<and> is_first p (xs @ cs) r"
  using assms(3,4)
proof (induction cs arbitrary: xs j)
  case Nil
  then have "is_first p xs (- 1)" by (auto simp: is_first_def occurs_at_suffix)
  then show ?case by simp
next
  case (Cons c cs)
  have j: "j \<le> length p" using Cons.prems(1) by (simp add: best_def)
  obtain j' where j': "fall_back pi p c j = Some j'" "j' < length p" "c \<noteq> p ! j' \<Longrightarrow> j' = 0"
    "best p (Suc (length p)) (xs @ [c]) (if c = p ! j' then Suc j' else j')"
    using best_fall_back [OF assms(1) _ j Cons.prems(1)] by (metis le_refl)
  have at: "char_at p j' = p ! j'" using j'(2) by (simp add: char_at_def)
  show ?case
  proof (cases "c = p ! j' \<and> Suc j' = length p")
    case True
    let ?r = "int (length xs) - int (length p) + 1"
    have suf: "suffix p (xs @ [c])" using j'(4) True by (simp add: best_def)
    then have len: "length p \<le> Suc (length xs)" by (metis length_append_singleton suffix_length_le)
    have first: "is_first p (xs @ c # cs) ?r"
    proof -
      have nr: "?r \<ge> 0" "?r \<noteq> - 1" "nat ?r + length p = Suc (length xs)" using len by auto
      have "occurs_at p (xs @ c # cs) (nat ?r)"
        unfolding occurs_at_suffix nr(3) using suf by simp
      moreover have "\<not> occurs_at p (xs @ c # cs) i" if "i < nat ?r" for i
      proof
        assume "occurs_at p (xs @ c # cs) i"
        then have "suffix p (take (i + length p) (xs @ c # cs))" by (simp add: occurs_at_suffix)
        moreover have le: "i + length p \<le> length xs" using that nr(3) by linarith
        ultimately show False using Cons.prems(2) by simp
      qed
      ultimately show ?thesis using nr by (simp add: is_first_def)
    qed
    have "kmp_loop pi p (length xs) (c # cs) j = Some ?r"
      using True j' at by (auto simp: of_nat_diff)
    with first show ?thesis by blast
  next
    case False
    let ?j = "if c = p ! j' then Suc j' else j'"
    have lt: "?j < length p" using False j'(2) by auto
    have b: "best p (length p) (xs @ [c]) ?j" using j'(4) lt by (auto simp: best_def)
    have no: "\<not> suffix p (xs @ [c])"
    proof
      assume "suffix p (xs @ [c])"
      then have "length p \<le> ?j" using j'(4) unfolding best_def by (metis lessI order_refl take_all)
      with lt show False by simp
    qed
    have "\<forall>k \<le> length (xs @ [c]). \<not> suffix p (take k (xs @ [c]))"
      using Cons.prems(2) no by (auto simp: le_Suc_eq)
    from Cons.IH [OF b this] False j' at show ?thesis by auto
  qed
qed

lemma kmp_first_occurrence_lemma:
  assumes "word \<noteq> []"
  shows "\<exists>r. kmp input word = Some r \<and> is_first word input r"
proof -
  obtain pi where pi: "getPi word = Some pi" "pi_ok word (length word) pi" using getPi_ok by blast
  have "best word (length word) [] 0" using assms by (auto simp: best_def suffix_def)
  with kmp_loop_ok [OF pi(2) assms, of "[]" 0 input] assms pi(1) show ?thesis
    by (simp add: kmp_def)
qed

text \<open>
  C5: the search is right and always returns: for a non-empty word it gives the position of
  the first occurrence in the input, and -1 exactly if the word does not occur.
\<close>

theorem kmp_first_occurrence:
  assumes "word \<noteq> []"
  shows "\<exists>r. kmp input word = Some r \<and> is_first word input r"
  by (rule kmp_first_occurrence_lemma [OF assms])

theorem kmp_first_occurrence_witness: "is_first ''ab'' ''aab'' 1"
proof -
  have "kmp ''aab'' ''ab'' = Some 1" by (simp add: kmp_def getPi_def fall_back.simps char_at_def)
  with kmp_first_occurrence [of "''ab''" "''aab''"] show ?thesis by simp
qed

end
