(* ===== verification/Trie_Search.thy ===== *)
theory Trie_Search
  imports Prelude "HOL-Library.Sublist"
begin

text \<open>
  project1/ahocorasick.h and ahocorasick.cpp: the words as a graph in a two-dimensional
  array, one row of 26 edges per state.  The states below \<open>init_state\<close> are the final
  states, numbered like the words; the other states follow.  Out-of-range accesses are
  undefined behaviour in the source and \<open>None\<close> here, so a result \<open>Some\<close> says that every
  access was in range.
\<close>

section \<open>The program\<close>

definition MAX_ALPHA :: nat where "MAX_ALPHA = 26"

type_synonym graph = "int list list"

record fsa =
  graph :: graph
  words :: "string list"
  del :: "nat set"
  init_state :: nat
  patternNum :: nat
  state_num :: nat
  cur_size :: nat
  patternLen :: nat

definition blank :: "int list" where
  "blank = replicate MAX_ALPHA (- 1)"

definition AhoCorasick0 :: fsa where
  "AhoCorasick0 = \<lparr>graph = replicate 1 blank, words = [], del = {}, init_state = 0, patternNum = 0,
     state_num = 1, cur_size = 1, patternLen = 0\<rparr>"

definition AhoCorasick :: "nat \<Rightarrow> nat \<Rightarrow> fsa" where
  "AhoCorasick pn pl = \<lparr>graph = replicate (pn + pl * 2 + 1) blank, words = [], del = {}, init_state = 0,
     patternNum = 0, state_num = 1, cur_size = pn + pl * 2 + 1, patternLen = 0\<rparr>"

text \<open>\<open>c - 'a'\<close>, and the accesses to the array.\<close>

definition letter :: "char \<Rightarrow> int" where
  "letter c = int (of_char c) - 97"

definition in_range :: "graph \<Rightarrow> int \<Rightarrow> int \<Rightarrow> bool" where
  "in_range g s a \<longleftrightarrow> 0 \<le> s \<and> nat s < length g \<and> 0 \<le> a \<and> nat a < length (g ! nat s)"

definition get_edge :: "graph \<Rightarrow> int \<Rightarrow> int \<Rightarrow> int option" where
  "get_edge g s a = (if in_range g s a then Some (g ! nat s ! nat a) else None)"

definition set_edge :: "graph \<Rightarrow> int \<Rightarrow> int \<Rightarrow> int \<Rightarrow> graph option" where
  "set_edge g s a v = (if in_range g s a then Some (g[nat s := (g ! nat s)[nat a := v]]) else None)"

definition swap_rows :: "graph \<Rightarrow> int \<Rightarrow> int \<Rightarrow> graph option" where
  "swap_rows g i j =
     (if 0 \<le> i \<and> nat i < length g \<and> 0 \<le> j \<and> nat j < length g
      then Some (g[nat i := g ! nat j, nat j := g ! nat i]) else None)"

text \<open>The variables of the loop of \<open>makeGraph\<close>: graph, \<open>cur_state\<close>, \<open>final_state\<close>, \<open>state_num\<close>.\<close>

record build =
  bg :: graph
  cur_state :: int
  final_state :: nat
  next_state :: nat

text \<open>One letter of a word: the body of the inner loop.\<close>

definition add_letter :: "char \<Rightarrow> bool \<Rightarrow> build \<Rightarrow> build option" where
  "add_letter c at_end b =
     Option.bind (get_edge (bg b) (cur_state b) (letter c)) (\<lambda>e.
       if e = - 1 then
         Option.bind (set_edge (bg b) (cur_state b) (letter c) (int (next_state b))) (\<lambda>g1.
           if at_end then
             Option.bind (set_edge g1 (cur_state b) (letter c) (int (final_state b))) (\<lambda>g2.
               Option.bind (swap_rows g2 (int (next_state b)) (int (final_state b))) (\<lambda>g3.
                 Some \<lparr>bg = g3, cur_state = int (next_state b), final_state = Suc (final_state b),
                       next_state = Suc (next_state b)\<rparr>))
           else Some (b\<lparr>bg := g1, cur_state := int (next_state b), next_state := Suc (next_state b)\<rparr>))
       else if at_end then
         Option.bind (swap_rows (bg b) e (int (final_state b))) (\<lambda>g1.
           Option.bind (set_edge g1 (cur_state b) (letter c) (int (final_state b))) (\<lambda>g2.
             Option.bind (get_edge g2 (cur_state b) (letter c)) (\<lambda>e'.
               Some (b\<lparr>bg := g2, cur_state := e', final_state := Suc (final_state b)\<rparr>))))
       else Some (b\<lparr>cur_state := e\<rparr>))"

fun add_letters :: "string \<Rightarrow> build \<Rightarrow> build option" where
  "add_letters [] b = Some b"
| "add_letters (c # cs) b = Option.bind (add_letter c (cs = []) b) (add_letters cs)"

fun add_all :: "int \<Rightarrow> string list \<Rightarrow> build \<Rightarrow> build option" where
  "add_all init [] b = Some b"
| "add_all init (w # ws) b =
     Option.bind (add_letters w (b\<lparr>cur_state := init\<rparr>)) (add_all init ws)"

definition makeGraph :: "fsa \<Rightarrow> fsa option" where
  "makeGraph f =
     (let n = length (words f);
          size = (if cur_size f < n + patternLen f + 1 then n + patternLen f * 2 + 1 else cur_size f);
          g = replicate (if cur_size f < n + patternLen f + 1 then size else length (graph f)) blank
      in Option.bind (add_all (int n) (words f)
             \<lparr>bg = g, cur_state = 0, final_state = 0, next_state = n + 1\<rparr>)
           (\<lambda>b. Some (f\<lparr>graph := bg b, init_state := n, patternNum := n, state_num := next_state b,
                        cur_size := size\<rparr>)))"

definition addWord :: "string list \<Rightarrow> fsa \<Rightarrow> fsa option" where
  "addWord ws f =
     makeGraph (f\<lparr>words := words f @ ws, patternLen := patternLen f + sum_list (map length ws)\<rparr>)"

text \<open>
  The inner loop of \<open>search\<close> over the rest of the input: \<open>s\<close> is the string followed so far,
  \<open>check\<close> the strings already marked as found.
\<close>

fun follow :: "fsa \<Rightarrow> string \<Rightarrow> string \<Rightarrow> int \<Rightarrow> string set \<Rightarrow> string list \<Rightarrow> (string set \<times> string list) option" where
  "follow f [] s cur check result = Some (check, result)"
| "follow f (c # cs) s cur check result =
     Option.bind (get_edge (graph f) cur (letter c)) (\<lambda>e.
       let s' = s @ [c] in
       if e = - 1 then Some (check, result)
       else if e < int (init_state f) \<and> s' \<notin> check \<and> nat e \<notin> del f then
         follow f cs s' e (insert s' check) (result @ [s'])
       else follow f cs s' e check result)"

fun search_from :: "fsa \<Rightarrow> string \<Rightarrow> string set \<Rightarrow> string list \<Rightarrow> string list option" where
  "search_from f [] check result = Some result"
| "search_from f (c # cs) check result =
     Option.bind (follow f (c # cs) [] (int (init_state f)) check result)
       (\<lambda>(check', result'). search_from f cs check' result')"

definition search :: "fsa \<Rightarrow> string \<Rightarrow> string list option" where
  "search f input = search_from f input {} []"

definition deleteWord :: "string \<Rightarrow> fsa \<Rightarrow> fsa" where
  "deleteWord w f = f\<lparr>del := del f \<union> {i. i < length (words f) \<and> words f ! i = w}\<rparr>"


section \<open>The graph is a tree of prefixes\<close>

definition lower :: "string \<Rightarrow> bool" where
  "lower w \<longleftrightarrow> (\<forall>c \<in> set w. 0 \<le> letter c \<and> letter c < 26)"

text \<open>
  \<open>tree g init T nm\<close>: the strings \<open>T\<close> are the nodes, \<open>nm\<close> gives their rows.  A row has an
  edge for a letter exactly if the extended string is a node; all other rows are blank.
\<close>

definition tree :: "graph \<Rightarrow> nat \<Rightarrow> string set \<Rightarrow> (string \<Rightarrow> nat) \<Rightarrow> bool" where
  "tree g init T nm \<longleftrightarrow> [] \<in> T \<and> nm [] = init \<and> inj_on nm T \<and> (\<forall>u \<in> T. nm u < length g) \<and>
     (\<forall>u c. u @ [c] \<in> T \<longrightarrow> u \<in> T) \<and> (\<forall>i < length g. length (g ! i) = 26) \<and>
     (\<forall>u \<in> T. \<forall>c. lower [c] \<longrightarrow>
        g ! nm u ! nat (letter c) = (if u @ [c] \<in> T then int (nm (u @ [c])) else - 1)) \<and>
     (\<forall>i < length g. i \<notin> nm ` T \<longrightarrow> g ! i = blank)"

lemma lower_letter: "lower [c] \<Longrightarrow> nat (letter c) < 26" "lower [c] \<Longrightarrow> 0 \<le> letter c"
  by (auto simp: lower_def)

lemma letter_inj: "lower [c] \<Longrightarrow> lower [d] \<Longrightarrow> nat (letter c) = nat (letter d) \<longleftrightarrow> c = d"
  by (auto simp: lower_def letter_def eq_nat_nat_iff)

lemma lower_append [simp]: "lower []" "lower (u @ v) \<longleftrightarrow> lower u \<and> lower v"
  by (auto simp: lower_def)

lemma blank_nth [simp]: "i < 26 \<Longrightarrow> blank ! i = - 1" "length blank = 26"
  by (simp_all add: blank_def MAX_ALPHA_def)

lemma treeD:
  assumes "tree g init T nm"
  shows "[] \<in> T" "nm [] = init" "inj_on nm T" "u \<in> T \<Longrightarrow> nm u < length g" "u @ [c] \<in> T \<Longrightarrow> u \<in> T"
    "i < length g \<Longrightarrow> length (g ! i) = 26"
    "u \<in> T \<Longrightarrow> lower [c] \<Longrightarrow>
       g ! nm u ! nat (letter c) = (if u @ [c] \<in> T then int (nm (u @ [c])) else - 1)"
    "i < length g \<Longrightarrow> i \<notin> nm ` T \<Longrightarrow> g ! i = blank"
  using assms unfolding tree_def by (simp, simp, simp, simp, blast, simp, simp, simp)

lemma tree_neq: "tree g init T nm \<Longrightarrow> u \<in> T \<Longrightarrow> v \<in> T \<Longrightarrow> nm u = nm v \<longleftrightarrow> u = v"
  by (meson inj_on_eq_iff treeD(3))

text \<open>A new node with a blank row; moving a node to a blank row.\<close>

lemma tree_new:
  assumes t: "tree g init T nm" and v: "v \<in> T" "v @ [c] \<notin> T" and k: "k \<notin> nm ` T" "k < length g"
    and c: "lower [c]"
  shows "tree (g[nm v := (g ! nm v)[nat (letter c) := int k]]) init (insert (v @ [c]) T) (nm(v @ [c] := k))"
    (is "tree ?g init ?T ?nm")
proof -
  note D = treeD [OF t]
  have kv: "k \<noteq> nm v" using k v by auto
  have nmT: "?nm u = nm u" if "u \<in> T" for u using that v by auto
  have im: "?nm ` ?T = insert k (nm ` T)" using nmT v by (auto simp: image_iff)
  have edge: "?g ! ?nm u ! nat (letter d) = (if u @ [d] \<in> ?T then int (?nm (u @ [d])) else - 1)"
    if u: "u \<in> ?T" and d: "lower [d]" for u d
  proof (cases "u = v @ [c]")
    case True
    have "u @ [d] \<notin> ?T" using D(5) v True by auto
    moreover have "?g ! k = blank" using D(8) [OF k(2,1)] kv by simp
    ultimately show ?thesis using True lower_letter(1) [OF d] by simp
  next
    case False
    then have uT: "u \<in> T" using u by simp
    show ?thesis
    proof (cases "u = v")
      case True
      have len: "nm v < length g" "length (g ! nm v) = 26" using D(4,6) v by auto
      then have "?g ! ?nm u = (g ! nm v)[nat (letter c) := int k]" using True v nmT by simp
      then show ?thesis using True v len D(7) [OF v(1) d] letter_inj [OF c d] lower_letter(1) [OF c]
        by (cases "c = d") simp_all
    next
      case False
      then have "nm u \<noteq> nm v" using tree_neq [OF t uT v(1)] by simp
      then have "?g ! ?nm u = g ! nm u" using nmT [OF uT] by simp
      then show ?thesis using D(7) [OF uT d] False by simp
    qed
  qed
  show ?thesis
    unfolding tree_def
  proof (intro conjI ballI allI impI)
    show "inj_on ?nm ?T" using D(3) k nmT v by (auto simp: inj_on_def)
    show "?nm u < length ?g" if "u \<in> ?T" for u using that D(4) k by auto
    show "u \<in> ?T" if "u @ [d] \<in> ?T" for u d using that D(5) v by auto
    show "length (?g ! i) = 26" if "i < length ?g" for i
      using that D(6) D(4) [OF v(1)] by (simp add: nth_list_update)
    show "?g ! i = blank" if "i < length ?g" "i \<notin> ?nm ` ?T" for i
      using that D(8) D(4) [OF v(1)] v unfolding im by (auto simp: nth_list_update)
    show "?g ! ?nm u ! nat (letter d) = (if u @ [d] \<in> ?T then int (?nm (u @ [d])) else - 1)"
      if "u \<in> ?T" "lower [d]" for u d by (rule edge [OF that])
  qed (use D(1,2) in simp_all)
qed

lemma tree_move:
  assumes t: "tree g init T nm" and v: "v \<in> T" "v @ [c] \<in> T" and k: "k \<notin> nm ` T" "k < length g"
    and c: "lower [c]" and g': "g' = g[nm (v @ [c]) := g ! k, k := g ! nm (v @ [c])]"
  shows "tree (g'[nm v := (g' ! nm v)[nat (letter c) := int k]]) init T (nm(v @ [c] := k))"
    (is "tree ?g init T ?nm")
proof -
  note D = treeD [OF t]
  let ?w = "v @ [c]"
  have ne: "k \<noteq> nm v" "k \<noteq> nm ?w" "nm v \<noteq> nm ?w" using k v tree_neq [OF t v] by auto
  have len: "nm v < length g" "nm ?w < length g" using D(4) v by auto
  have row: "?g ! ?nm u = (if u = v then (g ! nm v)[nat (letter c) := int k] else g ! nm u)" if "u \<in> T" for u
    using that ne len k v tree_neq [OF t that v(1)] tree_neq [OF t that v(2)]
    unfolding g' by (auto simp: nth_list_update)
  have im: "?nm ` T = insert k (nm ` T - {nm ?w})"
    using v tree_neq [OF t _ v(2)] by (auto simp: image_iff)
  have edge: "?g ! ?nm u ! nat (letter d) = (if u @ [d] \<in> T then int (?nm (u @ [d])) else - 1)"
    if u: "u \<in> T" and d: "lower [d]" for u d
  proof (cases "u = v")
    case True
    have "length (g ! nm v) = 26" using D(6) len by auto
    then show ?thesis
      using True row [OF v(1)] v D(7) [OF v(1) d] letter_inj [OF c d] lower_letter(1) [OF c]
      by (cases "c = d") simp_all
  next
    case False
    then show ?thesis using row [OF u] D(7) [OF u d] by auto
  qed
  show ?thesis
    unfolding tree_def
  proof (intro conjI ballI allI impI)
    show "inj_on ?nm T" using D(3) k by (auto simp: inj_on_def)
    show "?nm u < length ?g" if "u \<in> T" for u using that D(4) k by (auto simp: g')
    show "length (?g ! i) = 26" if "i < length ?g" for i
      using that D(6) len k by (auto simp: nth_list_update g')
    show "?g ! i = blank" if "i < length ?g" "i \<notin> ?nm ` T" for i
    proof -
      have "i \<noteq> k" "i = nm ?w \<or> i \<notin> nm ` T" "i < length g" using that unfolding im by (auto simp: g')
      then show ?thesis using D(8) k ne v(1) len unfolding g' by (auto simp: nth_list_update)
    qed
    show "?g ! ?nm u ! nat (letter d) = (if u @ [d] \<in> T then int (?nm (u @ [d])) else - 1)"
      if "u \<in> T" "lower [d]" for u d by (rule edge [OF that])
    show "u \<in> T" if "u @ [d] \<in> T" for u d by (rule D(5) [OF that])
  qed (use D(1,2) in simp_all)
qed


section \<open>Building the graph\<close>

text \<open>
  After the words \<open>done\<close>: the row of a complete word is its last index in \<open>done\<close>, the rows
  of the other nodes are above \<open>init\<close>.
\<close>

definition is_last :: "string list \<Rightarrow> string \<Rightarrow> nat \<Rightarrow> bool" where
  "is_last ws u i \<longleftrightarrow> i < length ws \<and> ws ! i = u \<and> (\<forall>j. i < j \<and> j < length ws \<longrightarrow> ws ! j \<noteq> u)"

definition numbered :: "nat \<Rightarrow> string list \<Rightarrow> string set \<Rightarrow> (string \<Rightarrow> nat) \<Rightarrow> nat \<Rightarrow> bool" where
  "numbered init ws T nm nx \<longleftrightarrow> length ws \<le> init \<and> init < nx \<and>
     (\<forall>u \<in> T. is_last ws u (nm u) \<or> init \<le> nm u \<and> nm u < nx) \<and> (\<forall>u \<in> set ws. u \<in> T \<and> nm u < init)"

definition built :: "nat \<Rightarrow> string list \<Rightarrow> string set \<Rightarrow> (string \<Rightarrow> nat) \<Rightarrow> build \<Rightarrow> bool" where
  "built init ws T nm b \<longleftrightarrow> tree (bg b) init T nm \<and> final_state b = length ws \<and>
     numbered init ws T nm (next_state b)"

lemma numbered_fresh:
  assumes "numbered init ws T nm nx"
  shows "nx \<notin> nm ` T" and "length ws < init \<Longrightarrow> length ws \<notin> nm ` T"
  using assms by (auto simp: numbered_def is_last_def)

lemma numbered_new:
  assumes "numbered init ws T nm nx" and "w \<notin> T"
  shows "numbered init ws (insert w T) (nm(w := nx)) (Suc nx)"
  using assms by (auto simp: numbered_def)

lemma is_last_snoc: "u \<noteq> w \<Longrightarrow> is_last ws u i \<Longrightarrow> is_last (ws @ [w]) u i"
  by (auto simp: is_last_def nth_append less_Suc_eq)

lemma is_last_new: "is_last (ws @ [w]) w (length ws)"
  by (auto simp: is_last_def)

lemma numbered_final:
  assumes "numbered init ws T nm nx" and "length ws < init" and "nx \<le> nx'"
  shows "numbered init (ws @ [w]) (insert w T) (nm(w := length ws)) nx'"
  using assms is_last_new [of ws w] is_last_snoc [of _ w ws] by (auto simp: numbered_def)

lemma get_edge_tree:
  assumes t: "tree g init T nm" and u: "u \<in> T" and c: "lower [c]"
  shows "get_edge g (int (nm u)) (letter c) = Some (if u @ [c] \<in> T then int (nm (u @ [c])) else - 1)"
    and "in_range g (int (nm u)) (letter c)"
proof -
  show "in_range g (int (nm u)) (letter c)"
    using treeD(4,6) [OF t] u lower_letter [OF c] by (simp add: in_range_def)
  then show "get_edge g (int (nm u)) (letter c) = Some (if u @ [c] \<in> T then int (nm (u @ [c])) else - 1)"
    using treeD(7) [OF t u c] by (simp add: get_edge_def)
qed

lemma in_range_update [simp]: "length r = length (g ! i) \<Longrightarrow> in_range (g[i := r]) s a = in_range g s a"
  by (cases "i = nat s") (auto simp: in_range_def)

lemma add_letter_inner:
  assumes b: "built init ws T nm b" and v: "v \<in> T" "cur_state b = int (nm v)" and c: "lower [c]"
    and sz: "next_state b < length (bg b)"
  obtains b' nm' where "add_letter c False b = Some b'" and "built init ws (insert (v @ [c]) T) nm' b'"
    and "cur_state b' = int (nm' (v @ [c]))" and "next_state b' \<le> Suc (next_state b)"
    and "length (bg b') = length (bg b)"
proof -
  have t: "tree (bg b) init T nm" and n: "numbered init ws T nm (next_state b)"
    using b by (simp_all add: built_def)
  note e = get_edge_tree [OF t v(1) c]
  show thesis
  proof (cases "v @ [c] \<in> T")
    case True
    then show thesis
      using e v b that [of "b\<lparr>cur_state := int (nm (v @ [c]))\<rparr>" nm]
      by (simp add: add_letter_def built_def insert_absorb)
  next
    case False
    let ?g = "(bg b)[nm v := (bg b ! nm v)[nat (letter c) := int (next_state b)]]"
    let ?b = "b\<lparr>bg := ?g, cur_state := int (next_state b), next_state := Suc (next_state b)\<rparr>"
    have "add_letter c False b = Some ?b"
      using e v False by (simp add: add_letter_def set_edge_def)
    moreover have "built init ws (insert (v @ [c]) T) (nm(v @ [c] := next_state b)) ?b"
      using b tree_new [OF t v(1) False numbered_fresh(1) [OF n] sz c] numbered_new [OF n False]
      by (simp add: built_def)
    ultimately show thesis using that [of ?b "nm(v @ [c] := next_state b)"] by simp
  qed
qed

lemma add_letter_last:
  assumes b: "built init ws T nm b" and v: "v \<in> T" "cur_state b = int (nm v)" and c: "lower [c]"
    and sz: "next_state b < length (bg b)" and more: "length ws < init"
  obtains b' nm' where "add_letter c True b = Some b'" and "built init (ws @ [v @ [c]]) (insert (v @ [c]) T) nm' b'"
    and "next_state b' \<le> Suc (next_state b)" and "length (bg b') = length (bg b)"
proof -
  have t: "tree (bg b) init T nm" and n: "numbered init ws T nm (next_state b)"
    and fin: "final_state b = length ws"
    using b by (simp_all add: built_def)
  note e = get_edge_tree [OF t v(1) c] and D = treeD [OF t]
  have fr: "next_state b \<notin> nm ` T" "length ws \<notin> nm ` T" using numbered_fresh [OF n] more by auto
  have lt: "length ws < length (bg b)" using more n sz by (auto simp: numbered_def)
  show thesis
  proof (cases "v @ [c] \<in> T")
    case False
    let ?g = "(bg b)[nm v := (bg b ! nm v)[nat (letter c) := int (length ws)]]"
    let ?b = "\<lparr>bg = ?g, cur_state = int (next_state b), final_state = Suc (length ws), next_state = Suc (next_state b)\<rparr>"
    have "nm v \<noteq> next_state b" "nm v \<noteq> length ws" using fr v(1) by (metis imageI)+
    then have "?g ! next_state b = blank" "?g ! length ws = blank"
      using D(8) [OF sz fr(1)] D(8) [OF lt fr(2)] by simp_all
    then have "?g[next_state b := ?g ! length ws, length ws := ?g ! next_state b] = ?g"
      by (metis list_update_id)
    then have "swap_rows ?g (int (next_state b)) (int (length ws)) = Some ?g"
      using sz lt by (simp add: swap_rows_def)
    then have "add_letter c True b = Some ?b"
      using e v False fin D(4) [OF v(1)] by (simp add: add_letter_def set_edge_def)
    moreover have "built init (ws @ [v @ [c]]) (insert (v @ [c]) T) (nm(v @ [c] := length ws)) ?b"
      using tree_new [OF t v(1) False fr(2) lt c] numbered_final [OF n more, of "Suc (next_state b)"]
      by (simp add: built_def)
    ultimately show thesis using that [of ?b "nm(v @ [c] := length ws)"] by simp
  next
    case True
    let ?h = "(bg b)[nm (v @ [c]) := bg b ! length ws, length ws := bg b ! nm (v @ [c])]"
    let ?g = "?h[nm v := (?h ! nm v)[nat (letter c) := int (length ws)]]"
    let ?b = "b\<lparr>bg := ?g, cur_state := int (length ws), final_state := Suc (length ws)\<rparr>"
    have t': "tree ?g init T (nm(v @ [c] := length ws))"
      by (rule tree_move [OF t v(1) True fr(2) lt c refl])
    have nv: "nm v < length (bg b)" "nm (v @ [c]) < length (bg b)" "v \<noteq> v @ [c]" using D(4) v True by auto
    have "in_range ?g (int (nm v)) (letter c)"
      using get_edge_tree(2) [OF t' v(1) c] by simp
    then have r: "in_range ?h (int (nm v)) (letter c)" by simp
    have "swap_rows (bg b) (int (nm (v @ [c]))) (int (length ws)) = Some ?h"
      using nv lt by (simp add: swap_rows_def)
    then have "add_letter c True b = Some ?b"
      using e v True fin r get_edge_tree(1) [OF t' v(1) c] by (simp add: add_letter_def set_edge_def)
    moreover have "built init (ws @ [v @ [c]]) (insert (v @ [c]) T) (nm(v @ [c] := length ws)) ?b"
      using t' numbered_final [OF n more, of "next_state b" "v @ [c]"] True
      by (simp add: built_def insert_absorb)
    ultimately show thesis using that [of ?b "nm(v @ [c] := length ws)"] by simp
  qed
qed

lemma union_step: "X = insert v Y \<Longrightarrow> x \<in> Y \<Longrightarrow> v \<in> T \<Longrightarrow> T \<union> X = insert x T \<union> Y"
  by auto

lemma add_letters_ok:
  assumes "built init ws T nm b" and "v \<in> T" and "cur_state b = int (nm v)" and "lower cs" and "cs \<noteq> []"
    and "next_state b + length cs \<le> length (bg b)" and "length ws < init"
  shows "\<exists>b' nm'. add_letters cs b = Some b' \<and>
    built init (ws @ [v @ cs]) (T \<union> {v @ u | u. prefix u cs}) nm' b' \<and>
    next_state b' \<le> next_state b + length cs \<and> length (bg b') = length (bg b)"
  using assms
proof (induction cs arbitrary: T nm b v)
  case Nil
  then show ?case by simp
next
  case (Cons c cs)
  have c: "lower [c]" "lower cs" using Cons.prems(4) by (simp_all add: lower_def)
  have sz: "next_state b < length (bg b)" using Cons.prems(6) by simp
  have "{v @ u | u. prefix u (c # cs)} = insert v {(v @ [c]) @ u | u. prefix u cs}"
  proof -
    have "{u. prefix u (c # cs)} = insert [] ((#) c ` {u. prefix u cs})"
      by (auto simp: prefix_Cons)
    then have "(@) v ` {u. prefix u (c # cs)} = insert v ((@) (v @ [c]) ` {u. prefix u cs})"
      by (simp add: image_image)
    then show ?thesis by (simp add: setcompr_eq_image)
  qed
  moreover have "v @ [c] \<in> {(v @ [c]) @ u | u. prefix u cs}" by (rule CollectI, rule exI [of _ "[]"]) simp
  ultimately have S: "T \<union> {v @ u | u. prefix u (c # cs)} = insert (v @ [c]) T \<union> {(v @ [c]) @ u | u. prefix u cs}"
    using Cons.prems(2) by (rule union_step)
  show ?case
  proof (cases "cs = []")
    case True
    obtain b' nm' where b': "add_letter c True b = Some b'"
      "built init (ws @ [v @ [c]]) (insert (v @ [c]) T) nm' b'"
      "next_state b' \<le> Suc (next_state b)" "length (bg b') = length (bg b)"
      using add_letter_last [OF Cons.prems(1-3) c(1) sz Cons.prems(7)] by blast
    have "T \<union> {v @ u | u. prefix u (c # cs)} = insert (v @ [c]) T"
      unfolding S using True by auto
    with b'(2) have "built init (ws @ [v @ c # cs]) (T \<union> {v @ u | u. prefix u (c # cs)}) nm' b'"
      using True by (simp only:)
    moreover have "add_letters (c # cs) b = Some b'" using b'(1) True by simp
    moreover have "next_state b' \<le> next_state b + length (c # cs)" using b'(3) by simp
    ultimately show ?thesis using b'(4) by blast
  next
    case False
    obtain b' nm' where b': "add_letter c False b = Some b'" "built init ws (insert (v @ [c]) T) nm' b'"
      "cur_state b' = int (nm' (v @ [c]))" "next_state b' \<le> Suc (next_state b)" "length (bg b') = length (bg b)"
      using add_letter_inner [OF Cons.prems(1-3) c(1) sz] by blast
    have sz': "next_state b' + length cs \<le> length (bg b')" using b'(4,5) Cons.prems(6) by simp
    from Cons.IH [OF b'(2) insertI1 b'(3) c(2) False sz' Cons.prems(7)] obtain b'' nm'' where
      b'': "add_letters cs b' = Some b''"
      "built init (ws @ [(v @ [c]) @ cs]) (insert (v @ [c]) T \<union> {(v @ [c]) @ u | u. prefix u cs}) nm'' b''"
      "next_state b'' \<le> next_state b' + length cs" "length (bg b'') = length (bg b')" by blast
    have "add_letters (c # cs) b = Some b''" using b'(1) b''(1) False by simp
    moreover have "(v @ [c]) @ cs = v @ c # cs" by simp
    with b''(2) have "built init (ws @ [v @ c # cs]) (T \<union> {v @ u | u. prefix u (c # cs)}) nm'' b''"
      unfolding S by (simp only:)
    moreover have "next_state b'' \<le> next_state b + length (c # cs)" using b''(3) b'(4) by simp
    moreover have "length (bg b'') = length (bg b)" using b''(4) b'(5) by simp
    ultimately show ?thesis by blast
  qed
qed

definition Prefixes :: "string list \<Rightarrow> string set" where
  "Prefixes ws = insert [] {u. \<exists>w \<in> set ws. prefix u w}"

definition word_ok :: "string \<Rightarrow> bool" where
  "word_ok w \<longleftrightarrow> w \<noteq> [] \<and> lower w"

lemma add_all_ok:
  assumes "built init ws (Prefixes ws) nm b" and "\<forall>w \<in> set rest. word_ok w"
    and "next_state b + sum_list (map length rest) \<le> length (bg b)" and "length ws + length rest \<le> init"
  shows "\<exists>b' nm'. add_all (int init) rest b = Some b' \<and> built init (ws @ rest) (Prefixes (ws @ rest)) nm' b' \<and>
    length (bg b') = length (bg b)"
  using assms
proof (induction rest arbitrary: ws nm b)
  case Nil
  then show ?case by auto
next
  case (Cons w rest)
  let ?b = "b\<lparr>cur_state := int init\<rparr>"
  have t: "tree (bg b) init (Prefixes ws) nm" using Cons.prems(1) by (simp add: built_def)
  have w: "w \<noteq> []" "lower w" using Cons.prems(2) by (auto simp: word_ok_def)
  have b: "built init ws (Prefixes ws) nm ?b" using Cons.prems(1) by (simp add: built_def)
  obtain b' nm' where b': "add_letters w ?b = Some b'"
    "built init (ws @ [[] @ w]) (Prefixes ws \<union> {[] @ u | u. prefix u w}) nm' b'"
    "next_state b' \<le> next_state b + length w" "length (bg b') = length (bg b)"
    using add_letters_ok [OF b treeD(1) [OF t] _ w(2,1)] treeD(2) [OF t] Cons.prems(3,4) by auto
  have "Prefixes ws \<union> {[] @ u | u. prefix u w} = Prefixes (ws @ [w])" by (auto simp: Prefixes_def)
  with b'(2) have "built init (ws @ [w]) (Prefixes (ws @ [w])) nm' b'" by simp
  from Cons.IH [OF this] b' Cons.prems(2-4) show ?case by auto
qed

text \<open>The invariant of the class: the graph is the tree of the prefixes of the words.\<close>

definition fsa_ok :: "fsa \<Rightarrow> bool" where
  "fsa_ok f \<longleftrightarrow> length (graph f) = cur_size f \<and> patternLen f = sum_list (map length (words f)) \<and>
     init_state f = length (words f) \<and> (\<forall>w \<in> set (words f). word_ok w) \<and>
     (\<exists>nm nx. tree (graph f) (init_state f) (Prefixes (words f)) nm \<and>
        numbered (init_state f) (words f) (Prefixes (words f)) nm nx)"

lemma tree_blank: "n < N \<Longrightarrow> tree (replicate N blank) n (Prefixes []) (\<lambda>_. n)"
  using lower_letter by (auto simp: tree_def Prefixes_def)

lemma AhoCorasick_ok: "fsa_ok (AhoCorasick pn pl)"
  unfolding fsa_ok_def
  using tree_blank [of 0 "pn + pl * 2 + 1"]
  by (auto simp: AhoCorasick_def numbered_def Prefixes_def intro!: exI [of _ "\<lambda>_. 0"] exI [of _ 1])

lemma makeGraph_ok:
  assumes len: "length (graph f) = cur_size f" "patternLen f = sum_list (map length (words f))"
    and ok: "\<forall>w \<in> set (words f). word_ok w"
  shows "\<exists>f'. makeGraph f = Some f' \<and> fsa_ok f' \<and> words f' = words f \<and> del f' = del f"
proof -
  define n where "n = length (words f)"
  define size where "size = (if cur_size f < n + patternLen f + 1 then n + patternLen f * 2 + 1 else cur_size f)"
  define b where "b = \<lparr>bg = replicate size blank, cur_state = 0, final_state = 0, next_state = n + 1\<rparr>"
  have sz: "n + patternLen f + 1 \<le> size" by (simp add: size_def)
  have bl: "built n [] (Prefixes []) (\<lambda>_. n) b"
    using tree_blank [of n size] sz by (simp add: b_def built_def numbered_def Prefixes_def)
  have nx: "next_state b + sum_list (map length (words f)) \<le> length (bg b)"
    using sz len(2) by (simp add: b_def)
  have "length [] + length (words f) \<le> n" by (simp add: n_def)
  from add_all_ok [OF bl ok nx this] obtain b' nm' where
    b': "add_all (int n) (words f) b = Some b'" "built n (words f) (Prefixes (words f)) nm' b'"
      "length (bg b') = size"
    by (auto simp: b_def)
  let ?f = "f\<lparr>graph := bg b', init_state := n, patternNum := n, state_num := next_state b', cur_size := size\<rparr>"
  have "(if cur_size f < n + patternLen f + 1 then size else length (graph f)) = size"
    using len(1) by (simp add: size_def)
  then have "makeGraph f = Some ?f"
    using b'(1) unfolding makeGraph_def Let_def n_def [symmetric] size_def [symmetric] b_def by simp
  moreover have "fsa_ok ?f"
    using b'(2,3) ok len(2) unfolding fsa_ok_def built_def by (auto simp: n_def)
  ultimately show ?thesis by auto
qed

lemma addWord_ok:
  assumes f: "fsa_ok f" and ws: "\<forall>w \<in> set ws. word_ok w"
  shows "\<exists>f'. addWord ws f = Some f' \<and> fsa_ok f' \<and> words f' = words f @ ws \<and> del f' = del f"
  using makeGraph_ok [of "f\<lparr>words := words f @ ws, patternLen := patternLen f + sum_list (map length ws)\<rparr>"] assms
  by (auto simp: addWord_def fsa_ok_def)

lemma deleteWord_ok: "fsa_ok f \<Longrightarrow> fsa_ok (deleteWord w f)"
  by (simp add: fsa_ok_def deleteWord_def cong: conj_cong)


section \<open>Searching\<close>

text \<open>
  The words that count: the last entry of the word is not deleted.  The reference search
  lists, position by position, the prefixes of the rest of the input that count, and keeps
  the first mention of each.
\<close>

definition live :: "fsa \<Rightarrow> string set" where
  "live f = {u. \<exists>i. is_last (words f) u i \<and> i \<notin> del f}"

fun hits :: "string set \<Rightarrow> string \<Rightarrow> string \<Rightarrow> string list" where
  "hits L s [] = []"
| "hits L s (c # cs) = (if s @ [c] \<in> L then [s @ [c]] else []) @ hits L (s @ [c]) cs"

fun scan :: "string set \<Rightarrow> string \<Rightarrow> string list" where
  "scan L [] = []"
| "scan L (c # cs) = hits L [] (c # cs) @ scan L cs"

fun dedup :: "string list \<Rightarrow> string list \<Rightarrow> string list" where
  "dedup acc [] = acc"
| "dedup acc (u # us) = dedup (if u \<in> set acc then acc else acc @ [u]) us"

lemma dedup_append: "dedup acc (us @ vs) = dedup (dedup acc us) vs"
  by (induction acc us rule: dedup.induct) auto

lemma is_last_unique: "is_last ws u i \<Longrightarrow> is_last ws u j \<Longrightarrow> i = j"
  unfolding is_last_def by (metis linorder_neqE_nat)

lemma live_prefix: "u \<in> live f \<Longrightarrow> prefix v u \<Longrightarrow> v \<in> Prefixes (words f)"
  by (auto simp: live_def is_last_def Prefixes_def)

lemma hits_none:
  assumes "s \<notin> Prefixes (words f)"
  shows "hits (live f) s cs = []"
proof -
  have "s @ t \<notin> live f" for t using assms live_prefix [of "s @ t" f s] by auto
  then show ?thesis
  proof (induction cs arbitrary: s)
    case (Cons c cs)
    have "(s @ [c]) @ t \<notin> live f" for t using Cons.prems [of "c # t"] by simp
    from Cons.IH [OF this] Cons.prems [of "[c]"] show ?case by simp
  qed simp
qed

lemma numbered_live:
  assumes f: "fsa_ok f" and n: "numbered (init_state f) (words f) (Prefixes (words f)) nm nx"
    and u: "u \<in> Prefixes (words f)"
  shows "u \<in> live f \<longleftrightarrow> nm u < init_state f \<and> nm u \<notin> del f"
proof
  assume "u \<in> live f"
  then obtain i where i: "is_last (words f) u i" "i \<notin> del f" by (auto simp: live_def)
  then have "u \<in> set (words f)" by (auto simp: is_last_def)
  with n u have "nm u < init_state f" "is_last (words f) u (nm u)"
    unfolding numbered_def by (blast, metis leD)
  with i is_last_unique show "nm u < init_state f \<and> nm u \<notin> del f" by blast
next
  assume "nm u < init_state f \<and> nm u \<notin> del f"
  with n u show "u \<in> live f" by (force simp: numbered_def live_def)
qed

lemma follow_ok:
  assumes f: "fsa_ok f" and t: "tree (graph f) (init_state f) (Prefixes (words f)) nm"
    and n: "numbered (init_state f) (words f) (Prefixes (words f)) nm nx"
    and "s \<in> Prefixes (words f)" and "lower cs"
  shows "follow f cs s (int (nm s)) (set res) res =
    Some (set (dedup res (hits (live f) s cs)), dedup res (hits (live f) s cs))"
  using assms(4,5)
proof (induction cs arbitrary: s res)
  case Nil
  then show ?case by simp
next
  case (Cons c cs)
  have c: "lower [c]" "lower cs" using Cons.prems(2) by (simp_all add: lower_def)
  note e = get_edge_tree(1) [OF t Cons.prems(1) c(1)]
  show ?case
  proof (cases "s @ [c] \<in> Prefixes (words f)")
    case False
    then have "s @ [c] \<notin> live f" using live_prefix by blast
    then show ?thesis using False e hits_none [OF False] by simp
  next
    case True
    have live: "s @ [c] \<in> live f \<longleftrightarrow> nm (s @ [c]) < init_state f \<and> nm (s @ [c]) \<notin> del f"
      by (rule numbered_live [OF f n True])
    show ?thesis
    proof (cases "s @ [c] \<in> live f \<and> s @ [c] \<notin> set res")
      case new: True
      with live e True Cons.IH [OF True c(2), of "res @ [s @ [c]]"] show ?thesis
        by (simp add: Let_def)
    next
      case old: False
      then have "dedup res (hits (live f) s (c # cs)) = dedup res (hits (live f) (s @ [c]) cs)" by auto
      moreover have "follow f (c # cs) s (int (nm s)) (set res) res =
          follow f cs (s @ [c]) (int (nm (s @ [c]))) (set res) res"
        using old live e True by (auto simp: Let_def)
      ultimately show ?thesis using Cons.IH [OF True c(2), of res] by simp
    qed
  qed
qed

lemma search_from_ok:
  assumes f: "fsa_ok f" and "lower input"
  shows "search_from f input (set res) res = Some (dedup res (scan (live f) input))"
proof -
  obtain nm nx where t: "tree (graph f) (init_state f) (Prefixes (words f)) nm"
    and n: "numbered (init_state f) (words f) (Prefixes (words f)) nm nx"
    using f by (auto simp: fsa_ok_def)
  from assms(2) show ?thesis
  proof (induction input arbitrary: res)
    case Nil
    then show ?case by simp
  next
    case (Cons c cs)
    have "lower cs" using Cons.prems by (simp add: lower_def)
    with Cons follow_ok [OF f t n treeD(1) [OF t] Cons.prems, of res] show ?case
      by (simp add: treeD(2) [OF t] dedup_append del: follow.simps hits.simps)
  qed
qed

lemma trie_search_ok: "fsa_ok f \<Longrightarrow> lower input \<Longrightarrow> search f input = Some (dedup [] (scan (live f) input))"
  using search_from_ok [of f input "[]"] by (simp add: search_def)

text \<open>Adding makes a word count; deleting makes exactly that word not count.\<close>

lemma live_set: "live f \<subseteq> set (words f)"
  by (auto simp: live_def is_last_def)

lemma is_last_ex: "u \<in> set ws \<Longrightarrow> \<exists>i. is_last ws u i"
proof (induction ws rule: rev_induct)
  case (snoc w ws)
  then show ?case using is_last_new is_last_snoc by (cases "u = w") (auto, blast)
qed simp

lemma is_last_snoc_iff:
  "is_last (xs @ [v]) u i \<longleftrightarrow> (if u = v then i = length xs else is_last xs u i)"
proof (cases "u = v")
  case True
  then show ?thesis using is_last_unique is_last_new by auto
next
  case False
  have "is_last xs u i" if l: "is_last (xs @ [v]) u i"
  proof -
    from l False have "i < length xs" by (auto simp: is_last_def nth_append split: if_splits)
    with l show ?thesis unfolding is_last_def
      by (metis butlast_snoc length_append_singleton less_SucI nth_butlast)
  qed
  with False is_last_snoc show ?thesis by auto
qed

lemma is_last_append:
  "is_last (ws @ vs) u i \<longleftrightarrow>
     (if u \<in> set vs then \<exists>j. i = length ws + j \<and> is_last vs u j else is_last ws u i)"
proof (induction vs rule: rev_induct)
  case Nil
  then show ?case by simp
next
  case (snoc v vs)
  have "is_last (ws @ vs @ [v]) u i \<longleftrightarrow> (if u = v then i = length (ws @ vs) else is_last (ws @ vs) u i)"
    using is_last_snoc_iff [of "ws @ vs"] by simp
  then show ?case using snoc.IH by (simp add: is_last_snoc_iff)
qed

definition del_ok :: "fsa \<Rightarrow> bool" where
  "del_ok f \<longleftrightarrow> del f \<subseteq> {..<length (words f)}"

lemma live_add:
  assumes "words f' = words f @ ws" and "del f' = del f" and "del_ok f"
  shows "live f' = live f \<union> set ws"
proof -
  have "u \<in> live f' \<longleftrightarrow> u \<in> live f \<union> set ws" for u
  proof (cases "u \<in> set ws")
    case True
    then obtain j where "is_last ws u j" using is_last_ex by blast
    moreover have "length (words f) + j \<notin> del f" using assms(3) by (auto simp: del_ok_def)
    ultimately show ?thesis using True assms(1,2) by (auto simp: live_def is_last_append)
  next
    case False
    then show ?thesis using assms(1,2) by (simp add: live_def is_last_append)
  qed
  then show ?thesis by blast
qed

lemma live_delete: "live (deleteWord w f) = live f - {w}"
  by (auto simp: live_def deleteWord_def is_last_def)

text \<open>
  C4: the class invariant of the graph is kept by construction, adding and deleting, and no
  access of \<open>addWord\<close> is out of range: for lower case words it always succeeds, and the
  words that count are then the old ones and the added ones; deleting takes one away.
\<close>

theorem fsa_invariant:
  assumes "fsa_ok f" and "del_ok f" and "\<forall>w \<in> set ws. word_ok w"
  shows "fsa_ok (AhoCorasick pn pl) \<and> fsa_ok (deleteWord u f) \<and> live (deleteWord u f) = live f - {u} \<and>
    (\<exists>f'. addWord ws f = Some f' \<and> fsa_ok f' \<and> del_ok f' \<and> live f' = live f \<union> set ws)"
proof -
  obtain f' where f': "addWord ws f = Some f'" "fsa_ok f'" "words f' = words f @ ws" "del f' = del f"
    using addWord_ok [OF assms(1,3)] by blast
  moreover have "del_ok f'" using f'(3,4) assms(2) by (auto simp: del_ok_def)
  ultimately show ?thesis
    using AhoCorasick_ok deleteWord_ok [OF assms(1)] live_delete live_add [OF f'(3,4) assms(2)] by blast
qed

theorem fsa_invariant_witness:
  "\<exists>f'. addWord [''ab''] (AhoCorasick 1 2) = Some f' \<and> fsa_ok f' \<and> live f' = {''ab''}"
proof -
  have "\<forall>w \<in> set [''ab'']. word_ok w" by (auto simp: word_ok_def lower_def letter_def)
  moreover have live: "live (AhoCorasick 1 2) = {}" by (simp add: live_def is_last_def AhoCorasick_def)
  moreover have "del_ok (AhoCorasick 1 2)" by (simp add: del_ok_def AhoCorasick_def)
  ultimately obtain f' where "addWord [''ab''] (AhoCorasick 1 2) = Some f'" "fsa_ok f'"
    "live f' = live (AhoCorasick 1 2) \<union> set [''ab'']"
    using fsa_invariant [OF AhoCorasick_ok, of 1 2 "[''ab'']"] by blast
  with live show ?thesis by simp
qed

end
