(* ===== verification/Word_Server.thy ===== *)
theory Word_Server
  imports Trie_Search Kmp_Search "HOL-Library.Char_ord" "HOL-Library.List_Lexorder"
    "HOL-Library.Product_Lexorder" "HOL-Library.Multiset"
begin

text \<open>
  The two programs of project1: \<open>ref_solution.cpp\<close> answers queries with the graph of
  \<open>ahocorasick.cpp\<close>, \<open>kmp_solution/ref_solution.cpp\<close> with one thread per word.  Both read
  the initial words and then commands: \<open>Q\<close> asks for the words that occur in a text, \<open>A\<close> adds
  and \<open>D\<close> deletes a word.  Input and output are lists of lines.
\<close>

section \<open>The programs\<close>

type_synonym command = "char \<times> string"

text \<open>The loop that prints the result with a bar between the words.\<close>

fun print_words :: "string list \<Rightarrow> string" where
  "print_words [] = ''''"
| "print_words (w # ws) = w @ (if length (w # ws) \<noteq> 1 then ''|'' else '''') @ print_words ws"

definition print_answer :: "string list \<Rightarrow> string" where
  "print_answer result = (if result = [] then ''-1'' else print_words result)"

record trie_server =
  word_list :: "string set"
  FSA :: fsa
  pending :: "string list" \<comment> \<open>the vector \<open>words\<close>: added but not yet in the graph\<close>

definition trie_init :: "string list \<Rightarrow> trie_server option" where
  "trie_init ws =
     Option.bind (addWord (sorted_list_of_set (set ws)) (AhoCorasick (length ws) (sum_list (map length ws))))
       (\<lambda>f. Some \<lparr>word_list = set ws, FSA = f, pending = []\<rparr>)"

definition trie_query :: "string \<Rightarrow> trie_server \<Rightarrow> (trie_server \<times> string list) option" where
  "trie_query buf s =
     Option.bind (if pending s \<noteq> [] then addWord (pending s) (FSA s) else Some (FSA s)) (\<lambda>f.
       Option.bind (search f buf) (\<lambda>result.
         Some (s\<lparr>FSA := f, pending := []\<rparr>, [print_answer result])))"

definition trie_command :: "command \<Rightarrow> trie_server \<Rightarrow> (trie_server \<times> string list) option" where
  "trie_command c s =
     (if fst c = CHR ''Q'' then trie_query (snd c) s
      else if fst c = CHR ''A'' then
        Some (if snd c \<notin> word_list s
              then s\<lparr>pending := pending s @ [snd c], word_list := insert (snd c) (word_list s)\<rparr> else s, [])
      else if fst c = CHR ''D'' then
        Some (s\<lparr>FSA := deleteWord (snd c) (FSA s), word_list := word_list s - {snd c}\<rparr>, [])
      else Some (s, []))"

fun trie_run :: "command list \<Rightarrow> trie_server \<Rightarrow> string list option" where
  "trie_run [] s = Some []"
| "trie_run (c # cs) s =
     Option.bind (trie_command c s) (\<lambda>(s', out). Option.bind (trie_run cs s') (\<lambda>outs. Some (out @ outs)))"

definition trie_main :: "string list \<Rightarrow> command list \<Rightarrow> string list option" where
  "trie_main ws cs = Option.bind (trie_init ws) (\<lambda>s. Option.bind (trie_run cs s) (\<lambda>outs. Some (''R'' # outs)))"

text \<open>
  The other program.  The threads of one batch of 47 store their results in the order in
  which they get the mutex; \<open>order\<close> lists the words in the order of the stores.
\<close>

fun store_results :: "string \<Rightarrow> string list \<Rightarrow> (string \<rightharpoonup> int) \<Rightarrow> (string \<rightharpoonup> int) option" where
  "store_results input [] m = Some m"
| "store_results input (w # ws) m =
     Option.bind (kmp input w) (\<lambda>r. store_results input ws (m(w \<mapsto> r)))"

fun chunks :: "nat \<Rightarrow> 'a list \<Rightarrow> 'a list list" where
  "chunks n [] = []"
| "chunks n (x # xs) = (if n = 0 then [x # xs] else take n (x # xs) # chunks n (drop n (x # xs)))"

fun print_pairs :: "(int \<times> string) list \<Rightarrow> string" where
  "print_pairs [] = ''''"
| "print_pairs ((i, w) # ps) =
     (if i \<noteq> - 1 then w @ (if length ((i, w) # ps) \<noteq> 1 then ''|'' else '''') else '''') @ print_pairs ps"

definition kmp_query :: "string \<Rightarrow> string list list \<Rightarrow> string option" where
  "kmp_query input orders =
     Option.bind (store_results input (concat orders) Map.empty) (\<lambda>result.
       let v = sort (map (\<lambda>w. (the (result w), w)) (sorted_list_of_set (dom result))) in
       Some (print_pairs v @ (if \<exists>p \<in> set v. fst p \<noteq> - 1 then '''' else ''-1'')))"

definition batches :: "string set \<Rightarrow> string list list" where
  "batches W = chunks 47 (sorted_list_of_set W)"

text \<open>Which orders of the stores are possible: a permutation of each batch, batch by batch.\<close>

definition schedules :: "string set \<Rightarrow> string list list \<Rightarrow> bool" where
  "schedules W orders \<longleftrightarrow> list_all2 (\<lambda>xs ys. mset xs = mset ys) orders (batches W)"

inductive kmp_run :: "command list \<Rightarrow> string set \<Rightarrow> string list option \<Rightarrow> bool" where
  run_end: "kmp_run [] W (Some [])"
| run_query: "schedules W orders \<Longrightarrow> kmp_query buf orders = Some out \<Longrightarrow> kmp_run cs W (Some outs) \<Longrightarrow>
    kmp_run ((CHR ''Q'', buf) # cs) W (Some (out # outs))"
| run_stuck: "schedules W orders \<Longrightarrow> kmp_query buf orders = None \<Longrightarrow>
    kmp_run ((CHR ''Q'', buf) # cs) W None"
| run_later: "schedules W orders \<Longrightarrow> kmp_query buf orders = Some out \<Longrightarrow> kmp_run cs W None \<Longrightarrow>
    kmp_run ((CHR ''Q'', buf) # cs) W None"
| run_add: "kmp_run cs (insert buf W) outs \<Longrightarrow> kmp_run ((CHR ''A'', buf) # cs) W outs"
| run_delete: "kmp_run cs (W - {buf}) outs \<Longrightarrow> kmp_run ((CHR ''D'', buf) # cs) W outs"
| run_other: "c \<notin> {CHR ''Q'', CHR ''A'', CHR ''D''} \<Longrightarrow> kmp_run cs W outs \<Longrightarrow> kmp_run ((c, buf) # cs) W outs"

definition kmp_main :: "string list \<Rightarrow> command list \<Rightarrow> string list option \<Rightarrow> bool" where
  "kmp_main ws cs res \<longleftrightarrow> (\<exists>outs. kmp_run cs (set ws) outs \<and> res = map_option (\<lambda>o'. ''R'' # o') outs)"


section \<open>The reference server\<close>

fun answers :: "command list \<Rightarrow> string set \<Rightarrow> string list" where
  "answers [] W = []"
| "answers (c # cs) W =
     (if fst c = CHR ''Q'' then print_answer (dedup [] (scan W (snd c))) # answers cs W
      else if fst c = CHR ''A'' then answers cs (insert (snd c) W)
      else if fst c = CHR ''D'' then answers cs (W - {snd c})
      else answers cs W)"

text \<open>
  The commands the graph server is meant for: lower case texts and words, and no word is
  deleted while it is still pending.
\<close>

fun cmds_ok :: "string set \<Rightarrow> string set \<Rightarrow> command list \<Rightarrow> bool" where
  "cmds_ok W P [] = True"
| "cmds_ok W P (c # cs) =
     (if fst c = CHR ''Q'' then lower (snd c) \<and> cmds_ok W {} cs
      else if fst c = CHR ''A'' then word_ok (snd c) \<and>
        (if snd c \<in> W then cmds_ok W P cs else cmds_ok (insert (snd c) W) (insert (snd c) P) cs)
      else if fst c = CHR ''D'' then snd c \<notin> P \<and> cmds_ok (W - {snd c}) P cs
      else cmds_ok W P cs)"

definition server_ok :: "trie_server \<Rightarrow> bool" where
  "server_ok s \<longleftrightarrow> fsa_ok (FSA s) \<and> del_ok (FSA s) \<and> (\<forall>w \<in> set (pending s). word_ok w) \<and>
     live (FSA s) \<union> set (pending s) = word_list s"

lemma del_ok_delete: "del_ok f \<Longrightarrow> del_ok (deleteWord w f)"
  by (auto simp: del_ok_def deleteWord_def)

lemma trie_query_ok:
  assumes "server_ok s" and "lower buf"
  shows "\<exists>s'. trie_query buf s = Some (s', [print_answer (dedup [] (scan (word_list s) buf))]) \<and>
    server_ok s' \<and> word_list s' = word_list s \<and> pending s' = []"
proof -
  have f: "fsa_ok (FSA s)" "del_ok (FSA s)" "\<forall>w \<in> set (pending s). word_ok w"
    and L: "live (FSA s) \<union> set (pending s) = word_list s"
    using assms(1) by (auto simp: server_ok_def)
  obtain f' where f': "(if pending s \<noteq> [] then addWord (pending s) (FSA s) else Some (FSA s)) = Some f'"
    "fsa_ok f'" "del_ok f'" "live f' = word_list s"
  proof (cases "pending s = []")
    case True
    with f L that show ?thesis by auto
  next
    case False
    obtain g where g: "addWord (pending s) (FSA s) = Some g" "fsa_ok g"
      "words g = words (FSA s) @ pending s" "del g = del (FSA s)"
      using addWord_ok [OF f(1,3)] by blast
    moreover have "del_ok g" using g(3,4) f(2) by (auto simp: del_ok_def)
    ultimately show ?thesis using that [of g] False live_add [OF g(3,4) f(2)] L by simp
  qed
  then show ?thesis
    using trie_search_ok [OF f'(2) assms(2)] by (simp add: trie_query_def server_ok_def)
qed

lemma trie_run_ok:
  assumes "server_ok s" and "cmds_ok (word_list s) (set (pending s)) cs"
  shows "trie_run cs s = Some (answers cs (word_list s))"
  using assms
proof (induction cs arbitrary: s)
  case Nil
  then show ?case by simp
next
  case (Cons c cs)
  consider "fst c = CHR ''Q''" | "fst c = CHR ''A''" | "fst c = CHR ''D''"
    | "fst c \<notin> {CHR ''Q'', CHR ''A'', CHR ''D''}" by auto
  then show ?case
  proof cases
    case 1
    with Cons.prems trie_query_ok [OF Cons.prems(1), of "snd c"] obtain s' where
      s': "trie_query (snd c) s = Some (s', [print_answer (dedup [] (scan (word_list s) (snd c)))])"
      "server_ok s'" "word_list s' = word_list s" "pending s' = []" by auto
    then show ?thesis using 1 Cons by (simp add: trie_command_def)
  next
    case 2
    let ?s = "if snd c \<notin> word_list s
      then s\<lparr>pending := pending s @ [snd c], word_list := insert (snd c) (word_list s)\<rparr> else s"
    have "server_ok ?s" using Cons.prems 2 by (auto simp: server_ok_def)
    with 2 Cons.IH [of ?s] Cons.prems show ?thesis by (auto simp: trie_command_def insert_absorb)
  next
    case 3
    let ?s = "s\<lparr>FSA := deleteWord (snd c) (FSA s), word_list := word_list s - {snd c}\<rparr>"
    have "server_ok ?s" using Cons.prems 3 deleteWord_ok del_ok_delete
      by (auto simp: server_ok_def live_delete)
    with 3 Cons.IH [of ?s] Cons.prems show ?thesis by (simp add: trie_command_def)
  next
    case 4
    with Cons show ?thesis by (simp add: trie_command_def)
  qed
qed

lemma trie_init_ok:
  assumes "\<forall>w \<in> set ws. word_ok w"
  shows "\<exists>s. trie_init ws = Some s \<and> server_ok s \<and> word_list s = set ws \<and> pending s = []"
proof -
  let ?f = "AhoCorasick (length ws) (sum_list (map length ws))"
  have "\<forall>w \<in> set (sorted_list_of_set (set ws)). word_ok w" using assms by simp
  from addWord_ok [OF AhoCorasick_ok this] obtain f where
    f: "addWord (sorted_list_of_set (set ws)) ?f = Some f" "fsa_ok f"
      "words f = words ?f @ sorted_list_of_set (set ws)" "del f = del ?f" by blast
  have "del_ok ?f" by (simp add: del_ok_def AhoCorasick_def)
  then have "live f = live ?f \<union> set ws" using live_add [OF f(3,4)] by simp
  moreover have "live ?f = {}" by (simp add: live_def is_last_def AhoCorasick_def)
  moreover have "del_ok f" using f(4) by (simp add: del_ok_def AhoCorasick_def)
  ultimately show ?thesis using f by (simp add: trie_init_def server_ok_def)
qed

lemma trie_main_ok:
  assumes "\<forall>w \<in> set ws. word_ok w" and "cmds_ok (set ws) {} cs"
  shows "trie_main ws cs = Some (''R'' # answers cs (set ws))"
proof -
  obtain s where "trie_init ws = Some s" "server_ok s" "word_list s = set ws" "pending s = []"
    using trie_init_ok [OF assms(1)] by blast
  then show ?thesis using trie_run_ok [of s cs] assms(2) by (simp add: trie_main_def)
qed


section \<open>Positions\<close>

fun pscan :: "string set \<Rightarrow> nat \<Rightarrow> string \<Rightarrow> (nat \<times> string) list" where
  "pscan L i [] = []"
| "pscan L i (c # cs) = map (Pair i) (hits L [] (c # cs)) @ pscan L (Suc i) cs"

lemma map_snd_pscan: "map snd (pscan L i cs) = scan L cs"
  by (induction cs arbitrary: i) (simp_all add: comp_def del: hits.simps)

lemma set_hits: "set (hits L s cs) = {s @ u | u. u \<noteq> [] \<and> prefix u cs \<and> s @ u \<in> L}"
proof (induction cs arbitrary: s)
  case Nil
  then show ?case by auto
next
  case (Cons c cs)
  have "w \<in> set (hits L s (c # cs)) \<longleftrightarrow> (\<exists>u. w = s @ u \<and> u \<noteq> [] \<and> prefix u (c # cs) \<and> s @ u \<in> L)" for w
  proof -
    have "w \<in> set (hits L s (c # cs)) \<longleftrightarrow>
        (w = s @ [c] \<and> w \<in> L) \<or> (\<exists>u. w = s @ c # u \<and> u \<noteq> [] \<and> prefix u cs \<and> w \<in> L)"
      using Cons.IH [of "s @ [c]"] by auto
    also have "\<dots> \<longleftrightarrow> (\<exists>u. w = s @ c # u \<and> prefix u cs \<and> w \<in> L)" by auto
    also have "\<dots> \<longleftrightarrow> (\<exists>u. w = s @ u \<and> u \<noteq> [] \<and> prefix u (c # cs) \<and> s @ u \<in> L)"
      by (auto simp: prefix_Cons)
    finally show ?thesis .
  qed
  then show ?case by blast
qed

lemma set_pscan:
  "(i, u) \<in> set (pscan L k cs) \<longleftrightarrow> k \<le> i \<and> u \<in> L \<and> u \<noteq> [] \<and> prefix u (drop (i - k) cs)"
proof (induction cs arbitrary: k)
  case Nil
  then show ?case by simp
next
  case (Cons c cs)
  have "(i, u) \<in> set (pscan L k (c # cs)) \<longleftrightarrow>
      (i = k \<and> u \<in> L \<and> u \<noteq> [] \<and> prefix u (c # cs)) \<or> (i, u) \<in> set (pscan L (Suc k) cs)"
    by (auto simp: set_hits simp del: hits.simps)
  also have "\<dots> \<longleftrightarrow> k \<le> i \<and> u \<in> L \<and> u \<noteq> [] \<and> prefix u (drop (i - k) (c # cs))"
  proof (cases "i = k")
    case True
    with Cons.IH [of "Suc k"] show ?thesis by auto
  next
    case False
    show ?thesis
    proof (cases "k < i")
      case True
      then have "i - k = Suc (i - Suc k)" by simp
      with True Cons.IH [of "Suc k"] show ?thesis by simp
    next
      case False
      with \<open>i \<noteq> k\<close> Cons.IH [of "Suc k"] show ?thesis by simp
    qed
  qed
  finally show ?case .
qed

lemma strict_prefix_less: "v \<noteq> [] \<Longrightarrow> (u :: string) < u @ v"
  by (induction u) (auto simp: neq_Nil_conv)

lemma sorted_hits: "sorted_wrt (<) (hits L s cs)"
proof (induction cs arbitrary: s)
  case Nil
  then show ?case by simp
next
  case (Cons c cs)
  have "s @ [c] < w" if "w \<in> set (hits L (s @ [c]) cs)" for w
    using that strict_prefix_less [of _ "s @ [c]"] by (auto simp: set_hits)
  with Cons show ?case by simp
qed

lemma sorted_pscan: "sorted_wrt (<) (pscan L i cs)"
proof (induction cs arbitrary: i)
  case Nil
  then show ?case by simp
next
  case (Cons c cs)
  have "sorted_wrt (<) (map (Pair i) (hits L [] (c # cs)))"
    using sorted_hits [of L "[]" "c # cs"] by (simp add: sorted_wrt_map del: hits.simps)
  moreover have "i < j" if "(j, u) \<in> set (pscan L (Suc i) cs)" for j u
    using that set_pscan [of j u L "Suc i" cs] by simp
  ultimately show ?case using Cons by (auto simp: sorted_wrt_append simp del: hits.simps)
qed

text \<open>Keeping the first mention of each word keeps its smallest position.\<close>

lemma dedup_first:
  assumes "sorted_wrt (<) (ps :: (nat \<times> string) list)"
  shows "\<exists>ys. map snd ys = dedup [] (map snd ps) \<and> set ys \<subseteq> set ps \<and> sorted_wrt (<) ys \<and>
    snd ` set ys = snd ` set ps \<and> (\<forall>(i, u) \<in> set ys. \<forall>j. (j, u) \<in> set ps \<longrightarrow> i \<le> j)"
  using assms
proof (induction ps rule: rev_induct)
  case Nil
  then show ?case by simp
next
  case (snoc p ps)
  obtain j w where p: "p = (j, w)" by (cases p)
  have lt: "\<forall>q \<in> set ps. q < (j, w)" using snoc.prems p by (simp add: sorted_wrt_append)
  from snoc obtain ys where ys: "map snd ys = dedup [] (map snd ps)" "set ys \<subseteq> set ps" "sorted_wrt (<) ys"
    "snd ` set ys = snd ` set ps" "\<forall>(i, u) \<in> set ys. \<forall>j. (j, u) \<in> set ps \<longrightarrow> i \<le> j"
    by (auto simp: sorted_wrt_append)
  have dd: "dedup [] (map snd (ps @ [p])) =
      (if w \<in> snd ` set ps then dedup [] (map snd ps) else dedup [] (map snd ps) @ [w])"
    using ys(1,4) p by (simp add: dedup_append) (metis list.set_map)
  have le: "i \<le> j" if "(i, u) \<in> set ys" for i u
  proof -
    have "(i, u) < (j, w)" using that ys(2) lt by blast
    then show ?thesis by (auto simp: less_imp_le)
  qed
  show ?case
  proof (cases "w \<in> snd ` set ps")
    case True
    then show ?thesis using ys dd p le by (intro exI [of _ ys]) auto
  next
    case False
    then have "(i, w) \<notin> set ps" for i by force
    then show ?thesis using False ys dd p le lt
      by (intro exI [of _ "ys @ [p]"]) (auto simp: sorted_wrt_append)
  qed
qed


section \<open>The program with threads\<close>

lemma kmp_pos:
  assumes "w \<noteq> []"
  obtains r where "kmp input w = Some r" and "- 1 \<le> r" and "r = - 1 \<longleftrightarrow> (\<forall>i. \<not> prefix w (drop i input))"
    and "\<And>i. r = int i \<longleftrightarrow> prefix w (drop i input) \<and> (\<forall>j < i. \<not> prefix w (drop j input))"
proof -
  obtain r where r: "kmp input w = Some r" "is_first w input r" using kmp_first_occurrence_lemma [OF assms] by blast
  have occ: "occurs_at w input i \<longleftrightarrow> prefix w (drop i input)" for i
    using assms unfolding occurs_at_def by (metis drop_eq_Nil nle_le prefix_Nil)
  have "r = - 1 \<longleftrightarrow> (\<forall>i. \<not> prefix w (drop i input))" "- 1 \<le> r"
    using r(2) occ by (auto simp: is_first_def split: if_splits)
  moreover have "r = int i \<longleftrightarrow> prefix w (drop i input) \<and> (\<forall>j < i. \<not> prefix w (drop j input))" for i
  proof (cases "r = - 1")
    case True
    then show ?thesis using r(2) occ by (auto simp: is_first_def)
  next
    case False
    then have n: "0 \<le> r" "prefix w (drop (nat r) input)" "\<forall>j < nat r. \<not> prefix w (drop j input)"
      using r(2) occ by (auto simp: is_first_def)
    then show ?thesis by (metis linorder_neqE_nat nat_int nat_0_le)
  qed
  ultimately show thesis using that r(1) by blast
qed

definition pos :: "string \<Rightarrow> string \<Rightarrow> int" where
  "pos input w = the (kmp input w)"

lemma store_results_ok:
  assumes "\<forall>w \<in> set ws. w \<noteq> []"
  shows "store_results input ws m = Some (\<lambda>w. if w \<in> set ws then Some (pos input w) else m w)"
  using assms
proof (induction ws arbitrary: m)
  case Nil
  then show ?case by simp
next
  case (Cons w ws)
  have "w \<noteq> []" using Cons.prems by simp
  then obtain r where "kmp input w = Some r" using kmp_pos by metis
  with Cons show ?case by (auto simp: pos_def fun_eq_iff)
qed

lemma concat_chunks: "0 < n \<Longrightarrow> concat (chunks n xs) = xs"
  by (induction n xs rule: chunks.induct) (simp_all del: take.simps drop.simps)

lemma schedules_set:
  assumes "schedules W orders" and "finite W"
  shows "set (concat orders) = W"
proof -
  have "mset (concat xs) = mset (concat ys)" if "list_all2 (\<lambda>xs ys. mset xs = mset ys) xs ys"
    for xs ys :: "string list list" using that by (induction rule: list_all2_induct) auto
  with assms have "mset (concat orders) = mset (sorted_list_of_set W)"
    by (metis schedules_def batches_def concat_chunks zero_less_numeral)
  with assms(2) show ?thesis by (metis set_mset_mset set_sorted_list_of_set)
qed

lemma print_pairs_skip: "\<forall>p \<in> set xs. fst p = - 1 \<Longrightarrow> print_pairs (xs @ ys) = print_pairs ys"
  by (induction xs) auto

lemma print_pairs_words: "\<forall>p \<in> set xs. fst p \<noteq> - 1 \<Longrightarrow> print_pairs xs = print_words (map snd xs)"
  by (induction xs) auto

lemma sorted_split:
  assumes "sorted (v :: (int \<times> string) list)" and "\<forall>p \<in> set v. - 1 \<le> fst p"
  shows "v = filter (\<lambda>p. fst p = - 1) v @ filter (\<lambda>p. fst p \<noteq> - 1) v"
  using assms
proof (induction v)
  case Nil
  then show ?case by simp
next
  case (Cons p v)
  show ?case
  proof (cases "fst p = - 1")
    case True
    with Cons show ?thesis by simp
  next
    case False
    then have "filter (\<lambda>p. fst p = - 1) v = []"
      using Cons.prems by (fastforce simp: filter_empty_conv less_eq_prod_def)
    with Cons False show ?thesis by simp
  qed
qed

text \<open>The words that occur, by position and then by word, are the answer of the reference.\<close>

lemma found_sorted:
  assumes W: "finite W" "\<forall>w \<in> W. w \<noteq> []"
  shows "map snd (sorted_list_of_set {(pos input w, w) | w. w \<in> W \<and> pos input w \<noteq> - 1}) = dedup [] (scan W input)"
proof -
  obtain ys where ys: "map snd ys = dedup [] (scan W input)" "set ys \<subseteq> set (pscan W 0 input)"
    "sorted_wrt (<) ys" "snd ` set ys = snd ` set (pscan W 0 input)"
    "\<forall>(i, u) \<in> set ys. \<forall>j. (j, u) \<in> set (pscan W 0 input) \<longrightarrow> i \<le> j"
    using dedup_first [OF sorted_pscan, of W 0 input] by (auto simp: map_snd_pscan)
  have ps: "(i, u) \<in> set (pscan W 0 input) \<longleftrightarrow> u \<in> W \<and> prefix u (drop i input)" for i u
    using W(2) set_pscan [of i u W 0 input] by auto
  let ?F = "{(pos input w, w) | w. w \<in> W \<and> pos input w \<noteq> - 1}"
  let ?zs = "map (\<lambda>(i, u). (int i, u)) ys"
  have first: "pos input u = int i" if "(i, u) \<in> set ys" for i u
  proof -
    have u: "u \<in> W" "prefix u (drop i input)" using that ys(2) ps by auto
    moreover have "\<forall>j < i. \<not> prefix u (drop j input)" using that ys(5) ps u(1) by fastforce
    moreover obtain r where "kmp input u = Some r"
      "\<And>i. r = int i \<longleftrightarrow> prefix u (drop i input) \<and> (\<forall>j < i. \<not> prefix u (drop j input))"
      using kmp_pos [of u input] W(2) u(1) by metis
    ultimately show ?thesis by (simp add: pos_def)
  qed
  have "set ?zs = ?F"
  proof
    show "set ?zs \<subseteq> ?F" using first ys(2) ps by fastforce
    show "?F \<subseteq> set ?zs"
    proof
      fix p assume "p \<in> ?F"
      then obtain w where w: "p = (pos input w, w)" "w \<in> W" "pos input w \<noteq> - 1" by blast
      obtain r where "kmp input w = Some r" "r = - 1 \<longleftrightarrow> (\<forall>i. \<not> prefix w (drop i input))"
        using kmp_pos [of w input] W(2) w(2) by metis
      with w(3) obtain i where "prefix w (drop i input)" by (auto simp: pos_def)
      with w(2) ps have "w \<in> snd ` set (pscan W 0 input)" by force
      then obtain j where j: "(j, w) \<in> set ys" using ys(4) by force
      with first w(1) have "p = (int j, w)" by simp
      with j show "p \<in> set ?zs" by force
    qed
  qed
  moreover have "sorted_wrt (<) ?zs"
    unfolding sorted_wrt_map by (rule sorted_wrt_mono_rel [OF _ ys(3)]) auto
  then have "sorted_list_of_set (set ?zs) = ?zs"
    by (simp add: strict_sorted_iff sorted_list_of_set.idem_if_sorted_distinct del: set_map)
  ultimately have "sorted_list_of_set ?F = ?zs" by simp
  then show ?thesis using ys(1) by (simp add: comp_def case_prod_beta)
qed

lemma kmp_query_ok:
  assumes W: "finite W" "\<forall>w \<in> W. w \<noteq> []" and "schedules W orders"
  shows "kmp_query input orders = Some (print_answer (dedup [] (scan W input)))"
proof -
  have set: "set (concat orders) = W" by (rule schedules_set [OF assms(3) W(1)])
  define m where "m = (\<lambda>w. if w \<in> W then Some (pos input w) else None)"
  have st: "store_results input (concat orders) Map.empty = Some m"
    using store_results_ok [of "concat orders" input Map.empty, unfolded set, OF W(2)] by (simp add: m_def)
  define v where "v = sort (map (\<lambda>w. (the (m w), w)) (sorted_list_of_set (dom m)))"
  have dm: "dom m = W" by (auto simp: m_def dom_def)
  have "map (\<lambda>w. (the (m w), w)) (sorted_list_of_set W) = map (\<lambda>w. (pos input w, w)) (sorted_list_of_set W)"
    using W(1) by (auto simp: m_def)
  then have v: "v = sort (map (\<lambda>w. (pos input w, w)) (sorted_list_of_set W))" by (simp only: v_def dm)
  have setv: "set v = {(pos input w, w) | w. w \<in> W}" using W(1) v by auto
  have dist: "distinct v" using v by (simp add: distinct_map inj_on_def)
  have sorted: "sorted v" by (simp add: v)
  have ge: "\<forall>p \<in> set v. - 1 \<le> fst p"
  proof
    fix p assume "p \<in> set v"
    then obtain w where w: "p = (pos input w, w)" "w \<in> W" using setv by blast
    then have "w \<noteq> []" using W(2) by blast
    then obtain r where "kmp input w = Some r" "- 1 \<le> r" by (rule kmp_pos)
    then show "- 1 \<le> fst p" using w(1) by (simp add: pos_def)
  qed
  let ?f = "filter (\<lambda>p. fst p \<noteq> - 1) v"
  have "print_pairs v = print_pairs (filter (\<lambda>p. fst p = - 1) v @ ?f)"
    using sorted_split [OF sorted ge] by simp
  also have "\<dots> = print_words (map snd ?f)"
    by (simp add: print_pairs_skip print_pairs_words)
  finally have pp: "print_pairs v = print_words (map snd ?f)" .
  have "sorted ?f" "distinct ?f" using dist sorted sorted_filter [of "\<lambda>x. x" v] by simp_all
  then have "?f = sorted_list_of_set (set ?f)"
    by (rule sorted_list_of_set.idem_if_sorted_distinct [symmetric])
  also have "set ?f = {(pos input w, w) | w. w \<in> W \<and> pos input w \<noteq> - 1}" using setv by auto
  finally have "map snd ?f = dedup [] (scan W input)" using found_sorted [OF W] by simp
  moreover have "(\<exists>p \<in> set v. fst p \<noteq> - 1) \<longleftrightarrow> map snd ?f \<noteq> []" by (auto simp: filter_empty_conv)
  moreover have "kmp_query input orders = Some (print_pairs v @ (if \<exists>p \<in> set v. fst p \<noteq> - 1 then '''' else ''-1''))"
    unfolding kmp_query_def st v_def by (simp only: Option.bind.simps Let_def)
  ultimately show ?thesis using pp by (cases "map snd ?f = []") (simp_all only: print_answer_def print_words.simps append_Nil append_Nil2 if_True if_False simp_thms)
qed

fun adds_ok :: "command list \<Rightarrow> bool" where
  "adds_ok [] = True"
| "adds_ok (c # cs) \<longleftrightarrow> (fst c = CHR ''A'' \<longrightarrow> snd c \<noteq> []) \<and> adds_ok cs"

lemma kmp_run_ok:
  assumes "kmp_run cs W res" and "finite W" and "\<forall>w \<in> W. w \<noteq> []" and "adds_ok cs"
  shows "res = Some (answers cs W)"
  using assms by (induction rule: kmp_run.induct) (auto simp: kmp_query_ok)

lemma schedules_batches: "schedules W (batches W)"
  by (simp add: schedules_def list_all2_refl)

lemma kmp_run_total:
  assumes "finite W" and "\<forall>w \<in> W. w \<noteq> []" and "adds_ok cs"
  shows "kmp_run cs W (Some (answers cs W))"
  using assms
proof (induction cs arbitrary: W)
  case Nil
  then show ?case by (simp add: run_end)
next
  case (Cons c cs)
  obtain a buf where c: "c = (a, buf)" by (cases c)
  consider "a = CHR ''Q''" | "a = CHR ''A''" | "a = CHR ''D''" | "a \<notin> {CHR ''Q'', CHR ''A'', CHR ''D''}" by auto
  then show ?case
  proof cases
    case 1
    have "kmp_run cs W (Some (answers cs W))" using Cons by simp
    from run_query [OF schedules_batches kmp_query_ok [OF Cons.prems(1,2) schedules_batches] this, of buf] 1 c
    show ?thesis by simp
  next
    case 2
    then have "kmp_run cs (insert buf W) (Some (answers cs (insert buf W)))" using Cons c by simp
    from run_add [OF this] 2 c show ?thesis by simp
  next
    case 3
    then have "kmp_run cs (W - {buf}) (Some (answers cs (W - {buf})))" using Cons c by simp
    from run_delete [OF this] 3 c show ?thesis by simp
  next
    case 4
    have "kmp_run cs W (Some (answers cs W))" using Cons by simp
    from run_other [OF 4 this] 4 c show ?thesis by simp
  qed
qed

lemma kmp_main_ok:
  assumes "\<forall>w \<in> set ws. w \<noteq> []" and "adds_ok cs"
  shows "kmp_main ws cs res \<longleftrightarrow> res = Some (''R'' # answers cs (set ws))"
proof -
  have "kmp_run cs (set ws) outs \<longleftrightarrow> outs = Some (answers cs (set ws))" for outs
    using kmp_run_ok [OF _ finite_set assms] kmp_run_total [OF finite_set assms] by blast
  then show ?thesis by (simp add: kmp_main_def)
qed

lemma cmds_adds: "cmds_ok W P cs \<Longrightarrow> adds_ok cs"
  by (induction cs arbitrary: W P) (auto simp: word_ok_def split: if_splits)

text \<open>
  C17: the two solutions of project1 agree: on lower case input in which no word is deleted
  while it is still pending, the graph server makes no out-of-range access and prints
  exactly what the threaded server prints under every order in which its threads finish.
\<close>

theorem word_servers_agree:
  assumes "\<forall>w \<in> set ws. word_ok w" and "cmds_ok (set ws) {} cs"
  shows "\<exists>outs. trie_main ws cs = Some outs \<and> (\<forall>res. kmp_main ws cs res \<longleftrightarrow> res = Some outs)"
proof -
  have "\<forall>w \<in> set ws. w \<noteq> []" using assms(1) by (auto simp: word_ok_def)
  from kmp_main_ok [OF this cmds_adds [OF assms(2)]] trie_main_ok [OF assms] show ?thesis by blast
qed

theorem word_servers_agree_witness:
  "\<exists>outs. trie_main [''ab''] [(CHR ''A'', ''b''), (CHR ''Q'', ''abb''), (CHR ''D'', ''b'')] = Some outs \<and>
     (\<forall>res. kmp_main [''ab''] [(CHR ''A'', ''b''), (CHR ''Q'', ''abb''), (CHR ''D'', ''b'')] res \<longleftrightarrow> res = Some outs)"
proof -
  have "\<forall>w \<in> set [''ab'']. word_ok w" by (auto simp: word_ok_def lower_def letter_def)
  moreover have "cmds_ok (set [''ab'']) {} [(CHR ''A'', ''b''), (CHR ''Q'', ''abb''), (CHR ''D'', ''b'')]"
    by (simp add: word_ok_def lower_def letter_def)
  ultimately show ?thesis using word_servers_agree by blast
qed


end
