(* ===== verification/Primes.thy ===== *)
theory Primes
  imports Prelude Complex_Main "HOL-Library.Signed_Division" "HOL-Library.Multiset"
begin

text \<open>
  The prime counters of \<open>lab04/prime_mt.cpp\<close> and \<open>lab07/prime_threadgroup.cpp\<close>: trial
  division, the split of a range among ten threads, the collection of the results, and the
  program that hands ranges to a pool of workers.  \<open>int\<close> values are unbounded integers; the
  two expressions of the source that can leave the 32 bit range on legal input are checked
  by \<open>c_int\<close>, whose failure is the undefined behaviour of a signed overflow.
\<close>

section \<open>Trial division\<close>

text \<open>
  The loop condition \<open>i <= sqrt(n)\<close>.  For 32 bit values the double square root is precise
  enough that the comparison is that of the real numbers, see \<open>le_sqrt_iff\<close>.
\<close>

definition le_sqrt :: "int \<Rightarrow> int \<Rightarrow> bool" where
  "le_sqrt i n \<longleftrightarrow> i * i \<le> n"

lemma le_sqrt_iff: "0 \<le> i \<Longrightarrow> le_sqrt i n \<longleftrightarrow> real_of_int i \<le> sqrt (real_of_int n)"
  unfolding le_sqrt_def
  by (metis of_int_0_le_iff of_int_le_iff of_int_mult power2_eq_square real_le_rsqrt real_sqrt_abs2
      real_sqrt_le_iff abs_of_nonneg)

lemma le_sqrt_le: "le_sqrt i n \<Longrightarrow> i \<le> n"
  unfolding le_sqrt_def by (smt (verit) mult_le_cancel_left1 mult_minus_left zero_le_mult_iff)

function trial :: "int \<Rightarrow> int \<Rightarrow> bool" where
  "trial i n = (if le_sqrt i n then if n mod i = 0 then False else trial (i + 1) n else True)"
  by pat_completeness auto
termination
  by (relation "measure (\<lambda>(i, n). nat (n + 1 - i))") (auto dest: le_sqrt_le)

declare trial.simps [simp del]

definition IsPrime :: "int \<Rightarrow> bool" where
  "IsPrime n = (if n < 2 then False else trial 2 n)"

text \<open>What the routine is meant to decide.\<close>

definition is_prime :: "int \<Rightarrow> bool" where
  "is_prime n \<longleftrightarrow> 2 \<le> n \<and> (\<forall>d. 2 \<le> d \<and> d < n \<longrightarrow> \<not> d dvd n)"

lemma trial_iff: "2 \<le> i \<Longrightarrow> trial i n \<longleftrightarrow> (\<forall>d. i \<le> d \<and> le_sqrt d n \<longrightarrow> \<not> d dvd n)"
proof (induction i n rule: trial.induct)
  case (1 i n)
  show ?case
  proof (cases "le_sqrt i n")
    case False
    have "\<not> le_sqrt d n" if "i \<le> d" for d
      using False that 1(2) unfolding le_sqrt_def by (smt (verit) mult_mono)
    with False show ?thesis by (subst trial.simps) auto
  next
    case True
    show ?thesis
    proof (cases "i dvd n")
      case True
      with \<open>le_sqrt i n\<close> show ?thesis by (subst trial.simps) (auto simp: dvd_eq_mod_eq_0)
    next
      case False
      with 1(1) [OF True] 1(2)
      have "trial i n \<longleftrightarrow> (\<forall>d. i + 1 \<le> d \<and> le_sqrt d n \<longrightarrow> \<not> d dvd n)"
        by (subst trial.simps) (simp add: True dvd_eq_mod_eq_0)
      also have "\<dots> \<longleftrightarrow> (\<forall>d. i \<le> d \<and> le_sqrt d n \<longrightarrow> \<not> d dvd n)"
        using False by (metis linorder_not_le order_less_le zless_imp_add1_zle add1_zle_eq order.order_iff_strict)
      finally show ?thesis .
    qed
  qed
qed

text \<open>It is enough to try the divisors up to the square root.\<close>

lemma IsPrime_is_prime: "IsPrime n = is_prime n"
proof (cases "2 \<le> n")
  case False
  then show ?thesis by (simp add: IsPrime_def is_prime_def)
next
  case True
  have "(\<exists>d. 2 \<le> d \<and> le_sqrt d n \<and> d dvd n) \<longleftrightarrow> (\<exists>d. 2 \<le> d \<and> d < n \<and> d dvd n)"
  proof
    assume "\<exists>d. 2 \<le> d \<and> le_sqrt d n \<and> d dvd n"
    then obtain d where d: "2 \<le> d" "d * d \<le> n" "d dvd n" by (auto simp: le_sqrt_def)
    have "d * 2 \<le> d * d" using d(1) by (intro mult_left_mono) auto
    with d show "\<exists>d. 2 \<le> d \<and> d < n \<and> d dvd n" by (intro exI [of _ d]) auto
  next
    assume "\<exists>d. 2 \<le> d \<and> d < n \<and> d dvd n"
    then obtain d e where d: "2 \<le> d" "d < n" "n = d * e" by (auto simp: dvd_def)
    have e: "2 \<le> e"
    proof (rule ccontr)
      assume "\<not> 2 \<le> e"
      then have "e \<le> 1" by simp
      then have "d * e \<le> d * 1" using d(1) by (intro mult_left_mono) auto
      with d show False by simp
    qed
    show "\<exists>d. 2 \<le> d \<and> le_sqrt d n \<and> d dvd n"
    proof (cases "d \<le> e")
      case True
      then have "d * d \<le> n" using d by (simp add: mult_left_mono)
      with d show ?thesis by (intro exI [of _ d]) (auto simp: le_sqrt_def)
    next
      case False
      then have "e * e \<le> n" using d e by (simp add: mult_right_mono)
      with d e show ?thesis by (intro exI [of _ e]) (auto simp: le_sqrt_def)
    qed
  qed
  with True trial_iff [of 2 n] show ?thesis by (auto simp: IsPrime_def is_prime_def)
qed


section \<open>Counting a range with ten threads\<close>

definition NUM_THREAD :: int where "NUM_THREAD = 10"

definition c_int :: "int \<Rightarrow> int option" where
  "c_int x = (if - (2 ^ 31) \<le> x \<and> x < 2 ^ 31 then Some x else None)"

text \<open>The loop that counts the primes of a half-open interval.\<close>

function count_loop :: "int \<Rightarrow> int \<Rightarrow> int \<Rightarrow> int" where
  "count_loop i end cnt =
     (if i < end then count_loop (i + 1) end (if IsPrime i then cnt + 1 else cnt) else cnt)"
  by pat_completeness auto
termination
  by (relation "measure (\<lambda>(i, e, cnt). nat (e - i))") auto

declare count_loop.simps [simp del]

definition split_range :: "int \<Rightarrow> int \<Rightarrow> int \<Rightarrow> (int \<times> int) option" where
  "split_range range_start range_end tid =
     Option.bind (c_int (range_end - range_start)) (\<lambda>d.
       let start = range_start + (d sdiv NUM_THREAD) * tid;
           end = range_start + (d sdiv NUM_THREAD) * (tid + 1)
       in if tid = NUM_THREAD - 1
          then map_option (\<lambda>end. (start, end)) (c_int (range_end + 1))
          else Some (start, end))"

definition ThreadFunc :: "int \<Rightarrow> int \<Rightarrow> nat \<Rightarrow> int list \<Rightarrow> int list option" where
  "ThreadFunc range_start range_end tid thread_ret =
     Option.bind (split_range range_start range_end (int tid)) (\<lambda>(start, end).
       Some (thread_ret [tid := count_loop start end 0]))"

text \<open>The threads write their entries in any order; the joins wait for all of them.\<close>

fun run_threads :: "int \<Rightarrow> int \<Rightarrow> nat list \<Rightarrow> int list \<Rightarrow> int list option" where
  "run_threads rs re [] ret = Some ret"
| "run_threads rs re (t # order) ret = Option.bind (ThreadFunc rs re t ret) (run_threads rs re order)"

text \<open>
  The input is the list of the numbers read; \<open>sched k\<close> is the order of the threads at the
  \<open>k\<close>-th query.  The program ends at \<open>-1\<close>.
\<close>

datatype prime_error = Overflow | Input_Ends

fun prime_mt_main :: "(nat \<Rightarrow> nat list) \<Rightarrow> nat \<Rightarrow> int list \<Rightarrow> int list \<Rightarrow> prime_error + int list" where
  "prime_mt_main sched k thread_ret [] = Inl Input_Ends"
| "prime_mt_main sched k thread_ret [range_start] = (if range_start = - 1 then Inr [] else Inl Input_Ends)"
| "prime_mt_main sched k thread_ret (range_start # range_end # input) =
     (if range_start = - 1 then Inr []
      else case run_threads range_start range_end (sched k) thread_ret of
        None \<Rightarrow> Inl Overflow
      | Some ret \<Rightarrow> map_sum id (\<lambda>out. sum_list ret # out) (prime_mt_main sched (Suc k) ret input))"


section \<open>The pool of workers\<close>

text \<open>
  \<open>prime_threadgroup.cpp\<close> posts one job per range to an \<open>io_service\<close> that eight threads run;
  a job posts its line to a second service that one thread runs.  The services are code of
  the Boost library: \<open>run_pool\<close> and \<open>run_print\<close> give the order in which they run what was
  posted.
\<close>

type_synonym job = "int \<times> int \<times> int"

definition Print :: "int \<Rightarrow> int \<Rightarrow> int \<Rightarrow> int \<Rightarrow> int \<times> int \<times> int \<times> int" where
  "Print result start end sequence = (sequence, start, end, result)"

definition group_ThreadFunc :: "job \<Rightarrow> int \<times> int \<times> int \<times> int" where
  "group_ThreadFunc j = (case j of (start, end, sequence) \<Rightarrow> Print (count_loop start end 0) start end sequence)"

fun read_jobs :: "int \<Rightarrow> int list \<Rightarrow> job list option" where
  "read_jobs sequence [] = None"
| "read_jobs sequence [range_start] = (if range_start = - 1 then Some [] else None)"
| "read_jobs sequence (range_start # range_end # input) =
     (if range_start = - 1 then Some []
      else map_option ((#) (range_start, range_end, sequence)) (read_jobs (sequence + 1) input))"

definition group_main ::
  "(job list \<Rightarrow> job list) \<Rightarrow> ((int \<times> int \<times> int \<times> int) list \<Rightarrow> (int \<times> int \<times> int \<times> int) list) \<Rightarrow>
   int list \<Rightarrow> (int \<times> int \<times> int \<times> int) list option" where
  "group_main run_pool run_print input =
     map_option (\<lambda>jobs. run_print (map group_ThreadFunc (run_pool jobs))) (read_jobs 0 input)"


section \<open>Correctness\<close>

text \<open>The number of primes from \<open>a\<close> up to but not including \<open>b\<close>.\<close>

definition primes_in :: "int \<Rightarrow> int \<Rightarrow> int" where
  "primes_in a b = int (card {k. a \<le> k \<and> k < b \<and> is_prime k})"

lemma finite_interval [simp]: "finite {k :: int. a \<le> k \<and> k < b \<and> P k}"
  by (rule finite_subset [of _ "{a..b}"]) auto

lemma primes_in_empty: "b \<le> a \<Longrightarrow> primes_in a b = 0"
  by (auto simp: primes_in_def)

lemma primes_in_append:
  assumes "a \<le> b" and "b \<le> c"
  shows "primes_in a b + primes_in b c = primes_in a c"
proof -
  have "{k. a \<le> k \<and> k < c \<and> is_prime k} = {k. a \<le> k \<and> k < b \<and> is_prime k} \<union> {k. b \<le> k \<and> k < c \<and> is_prime k}"
    using assms by auto
  then have "card {k. a \<le> k \<and> k < c \<and> is_prime k} =
      card {k. a \<le> k \<and> k < b \<and> is_prime k} + card {k. b \<le> k \<and> k < c \<and> is_prime k}"
    by (simp add: card_Un_disjoint disjoint_iff)
  then show ?thesis by (simp add: primes_in_def)
qed

lemma primes_in_step: "a < b \<Longrightarrow> primes_in a b = (if is_prime a then 1 else 0) + primes_in (a + 1) b"
proof -
  assume "a < b"
  then have "primes_in a b = primes_in a (a + 1) + primes_in (a + 1) b" by (simp add: primes_in_append)
  moreover have "{k. a \<le> k \<and> k < a + 1 \<and> is_prime k} = (if is_prime a then {a} else {})" by auto
  then have "primes_in a (a + 1) = (if is_prime a then 1 else 0)" by (simp add: primes_in_def)
  ultimately show ?thesis by simp
qed

lemma count_loop_eq: "count_loop i end cnt = cnt + primes_in i end"
proof (induction i "end" cnt rule: count_loop.induct)
  case (1 i "end" cnt)
  then show ?case
    by (subst count_loop.simps) (simp add: IsPrime_is_prime primes_in_step primes_in_empty)
qed

text \<open>The pieces of the split cover the range exactly, also when it is empty.\<close>

definition piece :: "int \<Rightarrow> int \<Rightarrow> nat \<Rightarrow> int" where
  "piece rs re t = (let q = (re - rs) sdiv NUM_THREAD in
     primes_in (rs + q * int t) (if int t = NUM_THREAD - 1 then re + 1 else rs + q * (int t + 1)))"

lemma primes_in_steps: "0 \<le> q \<Longrightarrow> (\<Sum>t < n. primes_in (a + q * int t) (a + q * (int t + 1))) = primes_in a (a + q * int n)"
  by (induction n) (simp_all add: primes_in_empty primes_in_append algebra_simps)

lemma sum_pieces: "(\<Sum>t < 10. piece rs re t) = primes_in rs (re + 1)"
proof -
  define q where "q = (re - rs) sdiv NUM_THREAD"
  have q: "q = (if 0 \<le> re - rs then (re - rs) div 10 else - ((rs - re) div 10))"
    by (simp add: q_def NUM_THREAD_def signed_divide_int_def sgn_if)
  have "(\<Sum>t < 10. piece rs re t) = (\<Sum>t < Suc 9. piece rs re t)" by simp
  also have "\<dots> = (\<Sum>t < 9. piece rs re t) + piece rs re 9" by (rule sum.lessThan_Suc)
  also have "(\<Sum>t < 9. piece rs re t) = (\<Sum>t < 9. primes_in (rs + q * int t) (rs + q * (int t + 1)))"
    by (rule sum.cong) (auto simp: piece_def q_def NUM_THREAD_def Let_def)
  also have "piece rs re 9 = primes_in (rs + q * 9) (re + 1)"
    by (simp add: piece_def q_def NUM_THREAD_def Let_def)
  also have "(\<Sum>t < 9. primes_in (rs + q * int t) (rs + q * (int t + 1))) + primes_in (rs + q * 9) (re + 1) =
      primes_in rs (re + 1)"
  proof (cases "0 \<le> re - rs")
    case True
    then have "0 \<le> q" "q * 9 \<le> re - rs" using q by auto
    then show ?thesis using primes_in_steps [of q rs 9] by (simp add: primes_in_append)
  next
    case False
    then have n: "q \<le> 0" "re - rs < q * 9" using q by auto
    have "rs + q * (int t + 1) \<le> rs + q * int t" for t using n(1) by (simp add: algebra_simps)
    then show ?thesis using n False by (simp add: primes_in_empty)
  qed
  finally show ?thesis .
qed

definition range_ok :: "int \<Rightarrow> int \<Rightarrow> bool" where
  "range_ok rs re \<longleftrightarrow> - (2 ^ 31) \<le> rs \<and> rs < 2 ^ 31 \<and> - (2 ^ 31) \<le> re \<and> re < 2 ^ 31 - 1 \<and>
     - (2 ^ 31) \<le> re - rs \<and> re - rs < 2 ^ 31"

lemma ThreadFunc_eq: "range_ok rs re \<Longrightarrow> ThreadFunc rs re t ret = Some (ret [t := piece rs re t])"
  by (auto simp: ThreadFunc_def split_range_def c_int_def range_ok_def Let_def count_loop_eq piece_def NUM_THREAD_def)

lemma run_threads_eq:
  assumes "range_ok rs re" and "set order \<subseteq> {..<length ret}"
  shows "\<exists>ret'. run_threads rs re order ret = Some ret' \<and> length ret' = length ret \<and>
    (\<forall>t < length ret. ret' ! t = (if t \<in> set order then piece rs re t else ret ! t))"
  using assms(2)
proof (induction order arbitrary: ret)
  case Nil
  then show ?case by simp
next
  case (Cons t order)
  let ?ret = "ret [t := piece rs re t]"
  have "set order \<subseteq> {..<length ?ret}" using Cons.prems by simp
  from Cons.IH [OF this] obtain ret' where "run_threads rs re order ?ret = Some ret'" "length ret' = length ret"
    "\<forall>u < length ret. ret' ! u = (if u \<in> set order then piece rs re u else ?ret ! u)" by auto
  then show ?case using Cons.prems by (auto simp: ThreadFunc_eq [OF assms(1)] nth_list_update)
qed

lemma run_threads_sum:
  assumes "range_ok rs re" and "mset order = mset [0..<10]" and "length ret = 10"
  shows "\<exists>ret'. run_threads rs re order ret = Some ret' \<and> length ret' = 10 \<and> sum_list ret' = primes_in rs (re + 1)"
proof -
  have set: "set order = {..<10}" using assms(2) mset_eq_setD by fastforce
  then have "set order \<subseteq> {..<length ret}" using assms(3) by simp
  from run_threads_eq [OF assms(1) this] obtain ret' where r: "run_threads rs re order ret = Some ret'"
    "length ret' = 10" "\<forall>t < 10. ret' ! t = piece rs re t" using set assms(3) by auto
  have "sum_list ret' = (\<Sum>t < 10. ret' ! t)" by (simp add: sum_list_sum_nth r(2) atLeast0LessThan)
  also have "\<dots> = (\<Sum>t < 10. piece rs re t)" by (rule sum.cong) (auto simp: r(3))
  finally show ?thesis using r sum_pieces by auto
qed

lemma prime_mt_main_eq:
  assumes "\<forall>(rs, re) \<in> set qs. rs \<noteq> - 1 \<and> range_ok rs re" and "\<forall>k. mset (sched k) = mset [0..<10]"
    and "length ret = 10"
  shows "prime_mt_main sched k ret (concat (map (\<lambda>(rs, re). [rs, re]) qs) @ [- 1]) =
    Inr (map (\<lambda>(rs, re). primes_in rs (re + 1)) qs)"
  using assms(1,3)
proof (induction qs arbitrary: k ret)
  case Nil
  then show ?case by simp
next
  case (Cons p qs)
  obtain rs re where p: "p = (rs, re)" by (cases p)
  with Cons.prems(1) have "range_ok rs re" "rs \<noteq> - 1" by auto
  moreover from run_threads_sum [OF this(1) _ Cons.prems(2)] assms(2)
  obtain ret' where "run_threads rs re (sched k) ret = Some ret'" "length ret' = 10"
    "sum_list ret' = primes_in rs (re + 1)" by blast
  ultimately show ?case using Cons p by simp
qed

text \<open>
  C19: for every sequence of ranges whose bounds and length fit into an \<open>int\<close>, and whatever
  the order in which the ten threads store their results, the multi-threaded counter ends
  at \<open>-1\<close> and prints for each range the number of primes in it, both bounds included;
  a number counts as prime if it is at least two and has no proper divisor.
\<close>

theorem prime_mt_correct:
  assumes "\<forall>(rs, re) \<in> set qs. rs \<noteq> - 1 \<and> range_ok rs re" and "\<forall>k. mset (sched k) = mset [0..<10]"
  shows "prime_mt_main sched 0 (replicate 10 0) (concat (map (\<lambda>(rs, re). [rs, re]) qs) @ [- 1]) =
    Inr (map (\<lambda>(rs, re). int (card {n. rs \<le> n \<and> n \<le> re \<and> 2 \<le> n \<and> (\<forall>d. 2 \<le> d \<and> d < n \<longrightarrow> \<not> d dvd n)})) qs)"
  using prime_mt_main_eq [OF assms, of "replicate 10 0" 0]
  by (simp add: primes_in_def is_prime_def conj_ac)

theorem prime_mt_correct_witness:
  "prime_mt_main (\<lambda>k. rev [0..<10]) 0 (replicate 10 0) [2, 30, 100, 7, - 1] =
    Inr (map (\<lambda>(rs, re). int (card {n. rs \<le> n \<and> n \<le> re \<and> 2 \<le> n \<and> (\<forall>d. 2 \<le> d \<and> d < n \<longrightarrow> \<not> d dvd n)}))
      [(2 :: int, 30), (100, 7)])"
  using prime_mt_correct [of "[(2, 30), (100, 7)]" "\<lambda>k. rev [0..<10]"]
  by (simp add: range_ok_def del: prime_mt_main.simps)

lemma read_jobs_eq:
  assumes "\<forall>(rs, re) \<in> set qs. rs \<noteq> - 1"
  shows "read_jobs k (concat (map (\<lambda>(rs, re). [rs, re]) qs) @ [- 1]) =
    Some (map2 (\<lambda>(rs, re) i. (rs, re, k + int i)) qs [0..<length qs])"
  using assms
proof (induction qs arbitrary: k)
  case Nil
  then show ?case by simp
next
  case (Cons p qs)
  have "[0..<length (p # qs)] = 0 # map Suc [0..<length qs]" by (simp add: upt_conv_Cons map_Suc_upt del: upt_Suc)
  with Cons show ?case
    by (cases p) (auto simp: zip_map2 comp_def case_prod_beta algebra_simps simp del: upt_Suc)
qed

text \<open>
  C21: the pool prints exactly one line per range read, with the range, its number and the
  number of primes from the start up to but not including the end, whatever the order in
  which the services run what was posted to them.
\<close>

theorem group_main_correct:
  assumes "\<forall>(rs, re) \<in> set qs. rs \<noteq> - 1"
    and "\<And>js. mset (run_pool js) = mset js" and "\<And>ls. mset (run_print ls) = mset ls"
  shows "\<exists>out. group_main run_pool run_print (concat (map (\<lambda>(rs, re). [rs, re]) qs) @ [- 1]) = Some out \<and>
    mset out = mset (map2 (\<lambda>(rs, re) i. (int i, rs, re, int (card {n. rs \<le> n \<and> n < re \<and> is_prime n})))
      qs [0..<length qs])"
proof -
  let ?js = "map2 (\<lambda>(rs, re) i. (rs, re, 0 + int i)) qs [0..<length qs]"
  have a: "group_main run_pool run_print (concat (map (\<lambda>(rs, re). [rs, re]) qs) @ [- 1]) =
      Some (run_print (map group_ThreadFunc (run_pool ?js)))"
    using read_jobs_eq [OF assms(1), of 0] by (simp add: group_main_def)
  have b: "mset (run_print (map group_ThreadFunc (run_pool ?js))) = mset (map group_ThreadFunc ?js)"
    unfolding assms(3) mset_map assms(2) ..
  have c: "map group_ThreadFunc ?js =
      map2 (\<lambda>(rs, re) i. (int i, rs, re, int (card {n. rs \<le> n \<and> n < re \<and> is_prime n}))) qs [0..<length qs]"
    by (auto simp: group_ThreadFunc_def Print_def count_loop_eq primes_in_def)
  show ?thesis by (rule exI, rule conjI, rule a) (simp only: b c)
qed

theorem group_main_correct_witness:
  "\<exists>out. group_main rev rev [2, 5, 1, 3, - 1] = Some out \<and>
    mset out = mset (map2 (\<lambda>(rs, re) i. (int i, rs, re, int (card {n. rs \<le> n \<and> n < re \<and> is_prime n})))
      [(2, 5), (1, 3)] [0..<length [(2 :: int, 5 :: int), (1, 3)]])"
proof -
  have "\<forall>(rs, re) \<in> set [(2, 5), (1, 3 :: int)]. rs \<noteq> (- 1 :: int)" by simp
  from group_main_correct [OF this mset_rev mset_rev]
  show ?thesis by (simp only: concat.simps list.map prod.case append.simps)
qed

end
