(* ===== verification/Counting.thy ===== *)
theory Counting
  imports Primes
begin

text \<open>
  The counting programs: \<open>lab02/prac_mutex.cpp\<close> (ten threads increment a counter under a
  mutex), \<open>lab03/lab03_prime.cpp\<close> (the same, with a prime test after every increment),
  \<open>lab03/lab03_simple.cpp\<close> and \<open>lab12/prac_jemalloc.cpp\<close>.
\<close>

section \<open>The counter under a mutex\<close>

definition NUM_THREADS :: nat where "NUM_THREADS = 10"
definition NUM_INCREASE :: nat where "NUM_INCREASE = 1000000"

text \<open>
  Where a thread is: at the test of the loop, before the lock, before reading and before
  writing the counter, before the unlock, before the local increment, or returned.
\<close>

datatype cpc = Test | Lock | Load | Store int | Unlock | Local | Ret

record counters =
  cnt_global :: int
  mutex :: "tid option"
  pcs :: "tid \<Rightarrow> cpc"
  idx :: "tid \<Rightarrow> nat"
  cnt_local :: "tid \<Rightarrow> int"

definition goto :: "tid \<Rightarrow> cpc \<Rightarrow> counters \<Rightarrow> counters" where
  "goto t pc s = s\<lparr>pcs := (pcs s)(t := pc)\<rparr>"

inductive count_step :: "counters \<Rightarrow> counters \<Rightarrow> bool" where
  c_test: "t < NUM_THREADS \<Longrightarrow> pcs s t = Test \<Longrightarrow> idx s t < NUM_INCREASE \<Longrightarrow> count_step s (goto t Lock s)"
| c_exit: "t < NUM_THREADS \<Longrightarrow> pcs s t = Test \<Longrightarrow> \<not> idx s t < NUM_INCREASE \<Longrightarrow> count_step s (goto t Ret s)"
| c_lock: "t < NUM_THREADS \<Longrightarrow> pcs s t = Lock \<Longrightarrow> mutex s = None \<Longrightarrow>
    count_step s (goto t Load (s\<lparr>mutex := Some t\<rparr>))"
| c_load: "t < NUM_THREADS \<Longrightarrow> pcs s t = Load \<Longrightarrow> count_step s (goto t (Store (cnt_global s)) s)"
| c_store: "t < NUM_THREADS \<Longrightarrow> pcs s t = Store v \<Longrightarrow> count_step s (goto t Unlock (s\<lparr>cnt_global := v + 1\<rparr>))"
| c_unlock: "t < NUM_THREADS \<Longrightarrow> pcs s t = Unlock \<Longrightarrow> count_step s (goto t Local (s\<lparr>mutex := None\<rparr>))"
| c_local: "t < NUM_THREADS \<Longrightarrow> pcs s t = Local \<Longrightarrow>
    count_step s (goto t Test (s\<lparr>cnt_local := (cnt_local s)(t := cnt_local s t + 1), idx := (idx s)(t := idx s t + 1)\<rparr>))"

definition count_init :: counters where
  "count_init = \<lparr>cnt_global = 0, mutex = None, pcs = (\<lambda>_. Test), idx = (\<lambda>_. 0), cnt_local = (\<lambda>_. 0)\<rparr>"

text \<open>After the joins the program prints the local counts and the global one.\<close>

definition count_main :: "counters \<Rightarrow> (int list \<times> int) option" where
  "count_main s = (if \<forall>t < NUM_THREADS. pcs s t = Ret
     then Some (map (cnt_local s) [0..<NUM_THREADS], cnt_global s) else None)"


subsection \<open>Invariant and rank\<close>

definition holds :: "cpc \<Rightarrow> bool" where
  "holds pc \<longleftrightarrow> (case pc of Load \<Rightarrow> True | Store v \<Rightarrow> True | Unlock \<Rightarrow> True | _ \<Rightarrow> False)"

definition counted :: "counters \<Rightarrow> tid \<Rightarrow> int" where
  "counted s t = int (idx s t) + (if pcs s t \<in> {Unlock, Local} then 1 else 0)"

definition thread_inv :: "counters \<Rightarrow> tid \<Rightarrow> bool" where
  "thread_inv s t \<longleftrightarrow> (holds (pcs s t) \<longleftrightarrow> mutex s = Some t) \<and> cnt_local s t = int (idx s t) \<and>
     (case pcs s t of Store v \<Rightarrow> v = cnt_global s | _ \<Rightarrow> True) \<and>
     (if pcs s t \<in> {Test, Ret} then idx s t \<le> NUM_INCREASE else idx s t < NUM_INCREASE) \<and>
     (pcs s t = Ret \<longrightarrow> idx s t = NUM_INCREASE)"

definition count_inv :: "counters \<Rightarrow> bool" where
  "count_inv s \<longleftrightarrow> cnt_global s = (\<Sum>t < NUM_THREADS. counted s t) \<and> (\<forall>t < NUM_THREADS. thread_inv s t) \<and>
     (\<forall>t. mutex s = Some t \<longrightarrow> t < NUM_THREADS)"

definition thread_rank :: "counters \<Rightarrow> tid \<Rightarrow> nat" where
  "thread_rank s t = (let n = 6 * (NUM_INCREASE - idx s t) in
     case pcs s t of Test \<Rightarrow> n + 1 | Lock \<Rightarrow> n | Load \<Rightarrow> n - 1 | Store v \<Rightarrow> n - 2 | Unlock \<Rightarrow> n - 3
     | Local \<Rightarrow> n - 4 | Ret \<Rightarrow> 0)"

definition count_rank :: "counters \<Rightarrow> nat" where
  "count_rank s = (\<Sum>t < NUM_THREADS. thread_rank s t)"

text \<open>A sum in which one summand changes.\<close>

lemma sum_change:
  fixes f g :: "nat \<Rightarrow> 'a :: ab_group_add"
  assumes "t < n" and "\<And>u. u \<noteq> t \<Longrightarrow> f u = g u"
  shows "(\<Sum>u < n. f u) = (\<Sum>u < n. g u) - g t + f t"
proof -
  have "(\<Sum>u < n. f u) = f t + (\<Sum>u \<in> {..<n} - {t}. f u)" using assms(1) by (simp add: sum.remove)
  also have "(\<Sum>u \<in> {..<n} - {t}. f u) = (\<Sum>u \<in> {..<n} - {t}. g u)" using assms(2) by (intro sum.cong) auto
  also have "\<dots> = (\<Sum>u < n. g u) - g t" using assms(1) by (simp add: sum.remove)
  finally show ?thesis by simp
qed

lemma sum_less:
  fixes f g :: "nat \<Rightarrow> nat"
  assumes "t < n" and "\<And>u. u \<noteq> t \<Longrightarrow> f u = g u" and "f t < g t"
  shows "(\<Sum>u < n. f u) < (\<Sum>u < n. g u)"
  by (rule sum_strict_mono_ex1) (use assms in \<open>auto simp: le_less\<close>, metis nat_le_linear le_less)

lemma count_inv_init: "count_inv count_init"
  by (simp add: count_inv_def thread_inv_def count_init_def counted_def holds_def)

text \<open>
  One thread moves: the count changes by what the thread has added, the other threads keep
  their part of the invariant if they do not hold the mutex or nothing they see has changed.
\<close>

lemma count_inv_move:
  assumes inv: "count_inv s" and t: "t < NUM_THREADS"
    and same: "\<And>u. u \<noteq> t \<Longrightarrow> pcs s' u = pcs s u \<and> idx s' u = idx s u \<and> cnt_local s' u = cnt_local s u"
    and sum: "cnt_global s' - counted s' t = cnt_global s - counted s t"
    and own: "thread_inv s' t"
    and mx: "mutex s' = mutex s \<and> cnt_global s' = cnt_global s \<or>
      mutex s \<in> {None, Some t} \<and> mutex s' \<in> {None, Some t}"
  shows "count_inv s'"
proof -
  have "(\<Sum>u < NUM_THREADS. counted s' u) = (\<Sum>u < NUM_THREADS. counted s u) - counted s t + counted s' t"
    using t same by (intro sum_change) (simp_all add: counted_def)
  then have "cnt_global s' = (\<Sum>u < NUM_THREADS. counted s' u)"
    using inv sum by (simp add: count_inv_def)
  moreover have "thread_inv s' u" if u: "u < NUM_THREADS" for u
  proof (cases "u = t")
    case True
    with own show ?thesis by simp
  next
    case False
    have old: "thread_inv s u" using inv u by (simp add: count_inv_def)
    from mx show ?thesis
    proof
      assume "mutex s' = mutex s \<and> cnt_global s' = cnt_global s"
      with old same [OF False] show ?thesis by (simp add: thread_inv_def split: cpc.splits)
    next
      assume m: "mutex s \<in> {None, Some t} \<and> mutex s' \<in> {None, Some t}"
      with old False have "\<not> holds (pcs s u)" by (auto simp: thread_inv_def)
      then have "\<not> holds (pcs s u) \<and> (case pcs s u of Store v \<Rightarrow> v = cnt_global s' | _ \<Rightarrow> True)"
        by (simp add: holds_def split: cpc.splits)
      moreover have "mutex s' \<noteq> Some u" using m False by auto
      ultimately show ?thesis using old same [OF False] by (simp add: thread_inv_def)
    qed
  qed
  moreover have "\<forall>u. mutex s' = Some u \<longrightarrow> u < NUM_THREADS" using mx inv t by (auto simp: count_inv_def)
  ultimately show ?thesis by (simp add: count_inv_def)
qed

lemma count_inv_step:
  assumes "count_step s s'" and "count_inv s"
  shows "count_inv s'"
  using assms
proof (induction rule: count_step.induct)
  case (c_test t s)
  then have i: "thread_inv s t" by (simp add: count_inv_def)
  show ?case
    by (rule count_inv_move [of s t]) (use c_test i in \<open>auto simp: goto_def counted_def thread_inv_def holds_def\<close>)
next
  case (c_exit t s)
  then have i: "thread_inv s t" by (simp add: count_inv_def)
  show ?case
    by (rule count_inv_move [of s t]) (use c_exit i in \<open>auto simp: goto_def counted_def thread_inv_def holds_def\<close>)
next
  case (c_lock t s)
  then have i: "thread_inv s t" by (simp add: count_inv_def)
  show ?case
    by (rule count_inv_move [of s t]) (use c_lock i in \<open>auto simp: goto_def counted_def thread_inv_def holds_def\<close>)
next
  case (c_load t s)
  then have i: "thread_inv s t" by (simp add: count_inv_def)
  show ?case
    by (rule count_inv_move [of s t]) (use c_load i in \<open>auto simp: goto_def counted_def thread_inv_def holds_def\<close>)
next
  case (c_store t s v)
  then have i: "thread_inv s t" by (simp add: count_inv_def)
  show ?case
    by (rule count_inv_move [of s t]) (use c_store i in \<open>auto simp: goto_def counted_def thread_inv_def holds_def\<close>)
next
  case (c_unlock t s)
  then have i: "thread_inv s t" by (simp add: count_inv_def)
  show ?case
    by (rule count_inv_move [of s t]) (use c_unlock i in \<open>auto simp: goto_def counted_def thread_inv_def holds_def\<close>)
next
  case (c_local t s)
  then have i: "thread_inv s t" by (simp add: count_inv_def)
  show ?case
    by (rule count_inv_move [of s t]) (use c_local i in \<open>auto simp: goto_def counted_def thread_inv_def holds_def\<close>)
qed

lemma inside_bound:
  "count_inv s \<Longrightarrow> t < NUM_THREADS \<Longrightarrow> pcs s t \<notin> {Test, Ret} \<Longrightarrow> idx s t < NUM_INCREASE"
  by (auto simp: count_inv_def thread_inv_def)

lemma count_rank_step:
  assumes "count_step s s'" and "count_inv s"
  shows "count_rank s' < count_rank s"
proof -
  have "\<exists>t < NUM_THREADS. (\<forall>u. u \<noteq> t \<longrightarrow> pcs s' u = pcs s u \<and> idx s' u = idx s u) \<and>
    thread_rank s' t < thread_rank s t"
    using assms(1)
  proof (cases rule: count_step.cases)
    case (c_test t)
    then show ?thesis by (intro exI [of _ t]) (simp add: thread_rank_def goto_def)
  next
    case (c_exit t)
    then show ?thesis by (intro exI [of _ t]) (simp add: thread_rank_def goto_def)
  next
    case (c_lock t)
    with inside_bound [OF assms(2), of t] show ?thesis
      by (intro exI [of _ t]) (simp add: thread_rank_def goto_def)
  next
    case (c_load t)
    with inside_bound [OF assms(2), of t] show ?thesis
      by (intro exI [of _ t]) (simp add: thread_rank_def goto_def Let_def)
  next
    case (c_store t v)
    with inside_bound [OF assms(2), of t] show ?thesis
      by (intro exI [of _ t]) (simp add: thread_rank_def goto_def Let_def)
  next
    case (c_unlock t)
    with inside_bound [OF assms(2), of t] show ?thesis
      by (intro exI [of _ t]) (simp add: thread_rank_def goto_def Let_def)
  next
    case (c_local t)
    with inside_bound [OF assms(2), of t] show ?thesis
      by (intro exI [of _ t]) (simp add: thread_rank_def goto_def Let_def)
  qed
  then obtain t where "t < NUM_THREADS" "\<forall>u. u \<noteq> t \<longrightarrow> pcs s' u = pcs s u \<and> idx s' u = idx s u"
    "thread_rank s' t < thread_rank s t" by blast
  then show ?thesis unfolding count_rank_def
    by (intro sum_less [of t]) (simp_all add: thread_rank_def)
qed

interpretation ct: ranked "\<lambda>s. s = count_init" count_step count_inv count_rank
  by unfold_locales (auto intro: count_inv_init count_inv_step count_rank_step)

text \<open>A thread that has not returned can always move, or the thread that holds the mutex can.\<close>

lemma count_progress:
  assumes "count_inv s" and "\<not> (\<forall>t < NUM_THREADS. pcs s t = Ret)"
  shows "\<exists>s'. count_step s s'"
proof -
  have free: "\<exists>s'. count_step s s'" if "t < NUM_THREADS" "pcs s t \<noteq> Ret" "pcs s t \<noteq> Lock" for t
    using that by (cases "pcs s t"; cases "idx s t < NUM_INCREASE") (blast intro: count_step.intros)+
  obtain t where t: "t < NUM_THREADS" "pcs s t \<noteq> Ret" using assms(2) by blast
  show ?thesis
  proof (cases "pcs s t = Lock \<and> mutex s \<noteq> None")
    case True
    then obtain u where "mutex s = Some u" by blast
    then have "u < NUM_THREADS" "holds (pcs s u)" using assms(1) by (auto simp: count_inv_def thread_inv_def)
    then show ?thesis using free [of u] by (auto simp: holds_def split: cpc.splits)
  next
    case False
    with t free [of t] show ?thesis by (cases "pcs s t = Lock") (auto intro: c_lock)
  qed
qed

text \<open>
  C20: the counter under the mutex is exact and the program ends: no run takes more than
  60000010 steps; a run that cannot be continued has joined all ten threads and prints one
  million for each thread and ten million, which fits into an \<open>int\<close>, for the global count;
  and the global count never exceeds that on the way.
\<close>

theorem mutex_count_exact:
  "\<forall>n s. (count_step ^^ n) count_init s \<longrightarrow> n \<le> 60000010 \<and> 0 \<le> cnt_global s \<and> cnt_global s \<le> 10000000 \<and>
    ((\<nexists>s'. count_step s s') \<longleftrightarrow> count_main s = Some (replicate 10 1000000, 10000000))"
proof (intro allI impI conjI)
  fix n s assume run: "(count_step ^^ n) count_init s"
  have inv: "count_inv s" and n: "n + count_rank s \<le> count_rank count_init"
    using ct.run_bound [OF run] count_inv_init by auto
  show "n \<le> 60000010" using n
    by (simp add: count_rank_def thread_rank_def count_init_def NUM_THREADS_def NUM_INCREASE_def)
  have c: "0 \<le> counted s t" "counted s t \<le> 1000000" if "t < NUM_THREADS" for t
    using that inv by (auto simp: counted_def count_inv_def thread_inv_def NUM_INCREASE_def split: if_splits)
  have "0 \<le> (\<Sum>t < NUM_THREADS. counted s t)" using c(1) by (intro sum_nonneg) simp
  moreover have "(\<Sum>t < NUM_THREADS. counted s t) \<le> of_nat (card {..<NUM_THREADS}) * 1000000"
    using c(2) by (intro sum_bounded_above) simp
  ultimately show "0 \<le> cnt_global s" "cnt_global s \<le> 10000000"
    using inv by (auto simp: count_inv_def NUM_THREADS_def)
  show "(\<nexists>s'. count_step s s') \<longleftrightarrow> count_main s = Some (replicate 10 1000000, 10000000)"
  proof
    assume "\<nexists>s'. count_step s s'"
    then have ret: "\<forall>t < NUM_THREADS. pcs s t = Ret" using count_progress [OF inv] by blast
    then have "\<forall>t < NUM_THREADS. cnt_local s t = 1000000 \<and> counted s t = 1000000"
      using inv by (auto simp: count_inv_def thread_inv_def counted_def NUM_INCREASE_def)
    then have "map (cnt_local s) [0..<NUM_THREADS] = replicate 10 1000000" "cnt_global s = 10000000"
      using inv by (auto simp: count_inv_def NUM_THREADS_def intro: nth_equalityI)
    with ret show "count_main s = Some (replicate 10 1000000, 10000000)" by (simp add: count_main_def)
  next
    assume "count_main s = Some (replicate 10 1000000, 10000000)"
    then have "\<forall>t < NUM_THREADS. pcs s t = Ret" by (auto simp: count_main_def split: if_splits)
    then show "\<nexists>s'. count_step s s'" by (auto elim!: count_step.cases)
  qed
qed

theorem mutex_count_exact_witness:
  "(count_step ^^ 1) count_init (goto 3 Lock count_init) \<and> cnt_global (goto 3 Lock count_init) \<le> 10000000"
proof -
  have "count_step count_init (goto 3 Lock count_init)"
    by (rule c_test) (simp_all add: count_init_def NUM_THREADS_def NUM_INCREASE_def)
  then have "(count_step ^^ 1) count_init (goto 3 Lock count_init)" by (simp only: relpowp_1)
  with mutex_count_exact show ?thesis by blast
qed



section \<open>The counter with a prime test\<close>

text \<open>
  \<open>lab03_prime.cpp\<close>: the divisors start at \<open>0\<close>, and the table has as many entries as one
  thread uses although all ten threads write to it.  A division by zero and an access
  outside the table are failures.
\<close>

datatype trap = Division_By_Zero | Out_Of_Bounds

definition PRIME_INCREASE :: nat where "PRIME_INCREASE = 100000"

function trial03 :: "int \<Rightarrow> int \<Rightarrow> trap + bool" where
  "trial03 i n = (if le_sqrt i n then
     if i = 0 then Inl Division_By_Zero else if n mod i = 0 then Inr False else trial03 (i + 1) n
     else Inr True)"
  by pat_completeness auto
termination
  by (relation "measure (\<lambda>(i, n). nat (n + 1 - i))") (auto dest: le_sqrt_le)

declare trial03.simps [simp del]

definition set_prime :: "int \<Rightarrow> bool \<Rightarrow> bool list \<Rightarrow> trap + bool list" where
  "set_prime n b tab =
     (if 0 \<le> n \<and> n < int (length tab) then Inr (tab [nat n := b]) else Inl Out_Of_Bounds)"

definition IsPrime03 :: "int \<Rightarrow> bool list \<Rightarrow> trap + bool list" where
  "IsPrime03 n tab =
     (if n < 2 then set_prime n False tab
      else case trial03 0 n of Inl e \<Rightarrow> Inl e | Inr b \<Rightarrow> set_prime n b tab)"

text \<open>
  The increment under the mutex is one step here.  A trap ends the whole process, so no
  rule applies any more.
\<close>

datatype ppc = PTest | PCall | PRet

record prime_counters =
  p_global :: int
  p_local :: "tid \<Rightarrow> int"
  p_idx :: "tid \<Rightarrow> nat"
  p_pc :: "tid \<Rightarrow> ppc"
  table :: "bool list"
  trapped :: "trap option"

inductive prime_step :: "prime_counters \<Rightarrow> prime_counters \<Rightarrow> bool" where
  p_count: "trapped s = None \<Longrightarrow> t < NUM_THREADS \<Longrightarrow> p_pc s t = PTest \<Longrightarrow> p_idx s t < PRIME_INCREASE \<Longrightarrow>
    prime_step s (s\<lparr>p_global := p_global s + 1, p_local := (p_local s)(t := p_local s t + 1), p_pc := (p_pc s)(t := PCall)\<rparr>)"
| p_exit: "trapped s = None \<Longrightarrow> t < NUM_THREADS \<Longrightarrow> p_pc s t = PTest \<Longrightarrow> \<not> p_idx s t < PRIME_INCREASE \<Longrightarrow>
    prime_step s (s\<lparr>p_pc := (p_pc s)(t := PRet)\<rparr>)"
| p_call: "trapped s = None \<Longrightarrow> t < NUM_THREADS \<Longrightarrow> p_pc s t = PCall \<Longrightarrow>
    IsPrime03 (int t * int PRIME_INCREASE + int (p_idx s t)) (table s) = Inr tab \<Longrightarrow>
    prime_step s (s\<lparr>table := tab, p_idx := (p_idx s)(t := p_idx s t + 1), p_pc := (p_pc s)(t := PTest)\<rparr>)"
| p_trap: "trapped s = None \<Longrightarrow> t < NUM_THREADS \<Longrightarrow> p_pc s t = PCall \<Longrightarrow>
    IsPrime03 (int t * int PRIME_INCREASE + int (p_idx s t)) (table s) = Inl e \<Longrightarrow>
    prime_step s (s\<lparr>trapped := Some e\<rparr>)"

definition prime_init :: prime_counters where
  "prime_init = \<lparr>p_global = 0, p_local = (\<lambda>_. 0), p_idx = (\<lambda>_. 0), p_pc = (\<lambda>_. PTest),
     table = replicate PRIME_INCREASE False, trapped = None\<rparr>"

text \<open>
  After the joins the program prints the counts and the number of marked entries; the loop
  reads ten times as many entries as there are.
\<close>

definition prime_main :: "prime_counters \<Rightarrow> (int list \<times> int \<times> (trap + nat)) option" where
  "prime_main s = (if \<forall>t < NUM_THREADS. p_pc s t = PRet
     then Some (map (p_local s) [0..<NUM_THREADS], p_global s,
       if length (table s) < NUM_THREADS * PRIME_INCREASE then Inl Out_Of_Bounds
       else Inr (length (filter id (take (NUM_THREADS * PRIME_INCREASE) (table s)))))
     else None)"

lemma IsPrime03_traps: "2 \<le> n \<Longrightarrow> IsPrime03 n tab = Inl Division_By_Zero"
  by (simp add: IsPrime03_def trial03.simps [of 0] le_sqrt_def)

definition early :: "prime_counters \<Rightarrow> bool" where
  "early s \<longleftrightarrow> (\<forall>t < NUM_THREADS. p_pc s t \<noteq> PRet \<and> p_idx s t \<le> (if t = 0 then 2 else 0))"

lemma early_init: "early prime_init"
  by (simp add: prime_init_def early_def)

lemma early_step:
  assumes "prime_step s s'" and "early s"
  shows "early s'"
  using assms
proof (induction rule: prime_step.induct)
  case (p_count s t)
  then show ?case by (auto simp: early_def)
next
  case (p_exit s t)
  then have "p_idx s t \<le> 2" by (auto simp: early_def split: if_splits)
  with p_exit show ?case by (simp add: PRIME_INCREASE_def)
next
  case (p_call s t tab)
  then have "\<not> 2 \<le> int t * int PRIME_INCREASE + int (p_idx s t)" by (auto simp: IsPrime03_traps)
  then have "t = 0" "p_idx s t < 2" by (auto simp: PRIME_INCREASE_def)
  with p_call show ?case by (auto simp: early_def)
next
  case (p_trap s t e)
  then show ?case by (simp add: early_def)
qed

interpretation pc: safety "\<lambda>s. s = prime_init" prime_step early
  by unfold_locales (auto intro: early_init early_step)




section \<open>Small programs\<close>

definition PrintMessage :: "int \<Rightarrow> int" where
  "PrintMessage v = (let g = v + 5; g = g + 3 in g)"

definition simple_main :: int where
  "simple_main = (let a = 0; a = a + 1; a = a + 2; a = a + 3 in PrintMessage a)"

text \<open>
  \<open>prac_jemalloc.cpp\<close>: each of \<open>num_thread\<close> threads takes its share of the blocks and frees
  none.  The result is the number of blocks; a zero argument divides by zero.
\<close>

definition NUM_BLOCK :: int where "NUM_BLOCK = 40000000"
definition MEMORY_BLOCK_SIZE :: int where "MEMORY_BLOCK_SIZE = 16"

definition alloc_ThreadFunc :: "int \<Rightarrow> int list" where
  "alloc_ThreadFunc block_per_thread = replicate (nat block_per_thread) MEMORY_BLOCK_SIZE"

definition jemalloc_main :: "int \<Rightarrow> trap + int list" where
  "jemalloc_main num_thread =
     (if num_thread = 0 then Inl Division_By_Zero
      else let block_per_thread = NUM_BLOCK sdiv num_thread in
        Inr (concat (map (\<lambda>i. alloc_ThreadFunc block_per_thread) [0..num_thread - 1])))"



end
