(* ===== verification/Cond_Primes.thy ===== *)
theory Cond_Primes
  imports Primes
begin

text \<open>
  \<open>lab04/prime_cond.cpp\<close>: ten threads that live through all queries and sleep on a condition
  variable between them.  One step is one access to shared memory or one operation on the mutex or
  the condition variable; a wait may end without a broadcast, as POSIX allows.
\<close>

text \<open>
  The points of a thread, in the order of its loop: the first lock, the mark \<open>-1\<close>, the first wait
  (about to sleep, asleep, woken), the unlock, the two bounds, the count, and the same around the
  result and the second wait.
\<close>

datatype ppc = Lock1 | Mark | Sleep1 | Asleep1 | Woken1 | Unlock1 | Start | End int | Count int int
  | Lock2 int | Result int | Sleep2 | Asleep2 | Woken2 | Unlock2

datatype mpc = ScanStart | ScanEnd | BLock | Broadcast | BUnlock | Poll nat | Collect nat int | Out int
  | DLock | DBroadcast | DUnlock | Return

record pcond =
  thread_ret :: "int list"
  range_start :: int
  range_end :: int
  owner :: "nat option"
  is_done :: bool
  pcs :: "ppc list"
  mpc :: mpc
  numbers :: "int list"
  answers :: "int list"

abbreviation MAIN :: nat where "MAIN \<equiv> 10"

definition goto :: "nat \<Rightarrow> ppc \<Rightarrow> pcond \<Rightarrow> pcond" where
  "goto t pc s = s\<lparr>pcs := (pcs s)[t := pc]\<rparr>"

definition lock_then :: "nat \<Rightarrow> ppc \<Rightarrow> pcond \<Rightarrow> pcond option" where
  "lock_then t pc s = (if owner s = None then Some (goto t pc (s\<lparr>owner := Some t\<rparr>)) else None)"

definition ThreadFunc :: "nat \<Rightarrow> pcond \<Rightarrow> pcond option" where
  "ThreadFunc t s = (case pcs s ! t of
     Lock1 \<Rightarrow> lock_then t Mark s
   | Mark \<Rightarrow> Some (goto t Sleep1 (s\<lparr>thread_ret := (thread_ret s)[t := - 1]\<rparr>))
   | Sleep1 \<Rightarrow> Some (goto t Asleep1 (s\<lparr>owner := None\<rparr>))
   | Asleep1 \<Rightarrow> Some (goto t Woken1 s)
   | Woken1 \<Rightarrow> lock_then t Unlock1 s
   | Unlock1 \<Rightarrow> Some (goto t Start (s\<lparr>owner := None\<rparr>))
   | Start \<Rightarrow> map_option (\<lambda>(start, _). goto t (End start) s) (split_range (range_start s) (range_end s) (int t))
   | End start \<Rightarrow> map_option (\<lambda>(_, end). goto t (Count start end) s) (split_range (range_start s) (range_end s) (int t))
   | Count start end \<Rightarrow> Some (goto t (Lock2 (count_loop start end 0)) s)
   | Lock2 cnt \<Rightarrow> lock_then t (Result cnt) s
   | Result cnt \<Rightarrow> Some (goto t Sleep2 (s\<lparr>thread_ret := (thread_ret s)[t := cnt]\<rparr>))
   | Sleep2 \<Rightarrow> Some (goto t Asleep2 (s\<lparr>owner := None\<rparr>))
   | Asleep2 \<Rightarrow> Some (goto t Woken2 s)
   | Woken2 \<Rightarrow> lock_then t Unlock2 s
   | Unlock2 \<Rightarrow> Some (goto t Lock1 (s\<lparr>owner := None\<rparr>)))"

definition wake :: "ppc \<Rightarrow> ppc" where
  "wake pc = (case pc of Asleep1 \<Rightarrow> Woken1 | Asleep2 \<Rightarrow> Woken2 | _ \<Rightarrow> pc)"

definition cond_main :: "pcond \<Rightarrow> pcond option" where
  "cond_main s = (case mpc s of
     ScanStart \<Rightarrow> (case numbers s of [] \<Rightarrow> None
       | x # xs \<Rightarrow> Some (s\<lparr>range_start := x, numbers := xs, is_done := is_done s \<or> x = - 1,
           mpc := (if x = - 1 then DLock else ScanEnd)\<rparr>))
   | ScanEnd \<Rightarrow> (case numbers s of [] \<Rightarrow> None
       | x # xs \<Rightarrow> Some (s\<lparr>range_end := x, numbers := xs, mpc := BLock\<rparr>))
   | BLock \<Rightarrow> (if owner s = None then Some (s\<lparr>owner := Some MAIN, mpc := Broadcast\<rparr>) else None)
   | Broadcast \<Rightarrow> Some (s\<lparr>pcs := map wake (pcs s), mpc := BUnlock\<rparr>)
   | BUnlock \<Rightarrow> Some (s\<lparr>owner := None, mpc := Poll 0\<rparr>)
   | Poll i \<Rightarrow> Some (s\<lparr>mpc := (if thread_ret s ! i < 0 then Poll 0
       else if i + 1 = 10 then Collect 0 0 else Poll (i + 1))\<rparr>)
   | Collect i c \<Rightarrow> Some (s\<lparr>mpc := (if i + 1 = 10 then Out (c + thread_ret s ! i)
       else Collect (i + 1) (c + thread_ret s ! i))\<rparr>)
   | Out c \<Rightarrow> Some (s\<lparr>answers := answers s @ [c], mpc := ScanStart\<rparr>)
   | DLock \<Rightarrow> (if owner s = None then Some (s\<lparr>owner := Some MAIN, mpc := DBroadcast\<rparr>) else None)
   | DBroadcast \<Rightarrow> Some (s\<lparr>pcs := map wake (pcs s), mpc := DUnlock\<rparr>)
   | DUnlock \<Rightarrow> Some (s\<lparr>owner := None, mpc := Return\<rparr>)
   | Return \<Rightarrow> None)"

text \<open>A step is one of a thread below ten or one of the main program, until that returns.\<close>

definition cond_work :: "nat \<Rightarrow> pcond \<Rightarrow> pcond option" where
  "cond_work t s = (if mpc s = Return then None else if t < 10 then ThreadFunc t s
     else if t = MAIN then cond_main s else None)"

definition cond_step :: "pcond \<Rightarrow> pcond \<Rightarrow> bool" where
  "cond_step s s' \<longleftrightarrow> (\<exists>t. cond_work t s = Some s')"

definition cond_init :: "int list \<Rightarrow> pcond" where
  "cond_init xs = \<lparr>thread_ret = replicate 10 0, range_start = 0, range_end = 0, owner = None, is_done = False,
     pcs = replicate 10 Lock1, mpc = ScanStart, numbers = xs, answers = []\<rparr>"

fun cond_exec :: "nat list \<Rightarrow> pcond \<Rightarrow> pcond option" where
  "cond_exec [] s = Some s"
| "cond_exec (t # ts) s = Option.bind (cond_work t s) (cond_exec ts)"

lemma cond_exec_steps: "cond_exec ts s = Some s' \<Longrightarrow> cond_step\<^sup>*\<^sup>* s s'"
proof (induction ts arbitrary: s)
  case (Cons t ts)
  then obtain s1 where "cond_work t s = Some s1" and "cond_exec ts s1 = Some s'"
    by (auto simp: bind_eq_Some_conv)
  then have "cond_step\<^sup>*\<^sup>* s1 s'" and "cond_step s s1"
    using Cons.IH by (blast, auto simp: cond_step_def)
  then show ?case by (meson converse_rtranclp_into_rtranclp)
qed simp

lemma exec_result: "map_option f (cond_exec ts s0) = Some v \<Longrightarrow> \<exists>s. cond_step\<^sup>*\<^sup>* s0 s \<and> f s = v"
  by (auto dest: cond_exec_steps)

text \<open>
  The main program alone, before any thread has run: all entries are still zero.
\<close>

lemma main_alone:
  assumes "a \<noteq> - 1"
  shows "map_option answers (cond_exec (replicate 26 MAIN) (cond_init (a # b # xs))) = Some [0]"
  using assms by (simp add: cond_init_def cond_work_def cond_main_def numeral_eq_Suc)

text \<open>
  Two queries: all threads asleep before the first, and every thread finishes before the main
  program looks.  After the second broadcast the main program looks at once; or first every thread
  runs from its second wait into its first one.
\<close>

definition first_query :: "nat list" where
  "first_query = concat (map (replicate 3) [0..<10]) @ replicate 5 MAIN
     @ concat (map (replicate 8) [0..<10]) @ replicate 21 MAIN"

definition look_at_once :: "nat list" where
  "look_at_once = first_query @ replicate 26 MAIN"

definition back_to_sleep :: "nat list" where
  "back_to_sleep = first_query @ replicate 5 MAIN @ concat (map (replicate 5) [0..<10])"

lemma stale_answer:
  "map_option answers (cond_exec look_at_once (cond_init [2, 3, 2, 30, - 1])) = Some [2, 2]"
  by code_simp

lemma all_asleep:
  "map_option (\<lambda>s. (answers s, mpc s, pcs s, thread_ret s))
     (cond_exec back_to_sleep (cond_init [2, 3, 2, 30, - 1]))
   = Some ([2], Poll 0, replicate 10 Asleep1, replicate 10 (- 1))"
  by code_simp

lemma asleep_stuck:
  assumes "mpc s = Poll 0" and "thread_ret s = replicate 10 (- 1)"
  shows "cond_work MAIN s = Some s"
  using assms by (cases s) (simp add: cond_work_def cond_main_def)

text \<open>
  C40: The answers of the program with the condition variable cannot be trusted.  Whatever the first
  query, there is a run that answers 0, because the main program does not wait for the threads.  There is a
  run that answers the second query (the primes from 2 to 30) with the result of the first, and one in
  which after the second query all threads sleep in their first wait and the main program polls for ever unless a wait
  ends by itself.
\<close>

theorem prime_cond_wrong_answers:
  "(a \<noteq> - 1 \<longrightarrow> (\<exists>s. cond_step\<^sup>*\<^sup>* (cond_init (a # b # xs)) s \<and> answers s = [0]))
   \<and> (\<exists>s. cond_step\<^sup>*\<^sup>* (cond_init [2, 3, 2, 30, - 1]) s \<and> answers s = [2, 2])
   \<and> (\<exists>s. cond_step\<^sup>*\<^sup>* (cond_init [2, 3, 2, 30, - 1]) s \<and> answers s = [2]
        \<and> pcs s = replicate 10 Asleep1 \<and> cond_work MAIN s = Some s)"
proof (intro conjI impI)
  assume "a \<noteq> - 1"
  then show "\<exists>s. cond_step\<^sup>*\<^sup>* (cond_init (a # b # xs)) s \<and> answers s = [0]"
    by (rule exec_result[OF main_alone])
next
  show "\<exists>s. cond_step\<^sup>*\<^sup>* (cond_init [2, 3, 2, 30, - 1]) s \<and> answers s = [2, 2]"
    by (rule exec_result) (rule stale_answer)
next
  show "\<exists>s. cond_step\<^sup>*\<^sup>* (cond_init [2, 3, 2, 30, - 1]) s \<and> answers s = [2]
        \<and> pcs s = replicate 10 Asleep1 \<and> cond_work MAIN s = Some s"
    using exec_result[OF all_asleep] asleep_stuck by (metis (no_types, lifting) prod.inject)
qed

theorem prime_cond_wrong_answers_witness:
  "\<exists>s. cond_step\<^sup>*\<^sup>* (cond_init [1, 100]) s \<and> answers s = [0]"
  using prime_cond_wrong_answers[of 1 100 "[]"] by simp

end
