(* ===== verification/Timers.thy ===== *)
theory Timers
  imports Prelude
begin

text \<open>
  The timer programs of lab06: \<open>timer_async_arg.cpp\<close> (one timer), \<open>timer_fix_race.cpp\<close> and the
  branch \<open>USE_STRAND\<close> of \<open>timer_2thread.cpp\<close> (two timers whose handlers go through a strand, which runs
  them one at a time), and \<open>timer_2thread.cpp\<close> as it is compiled (two timers, two threads, no strand).
  Which of the armed timers the I/O service serves next is open.
\<close>

section \<open>Handlers one at a time\<close>

record timers =
  cnt :: int
  armed :: "nat \<Rightarrow> bool"
  shown :: "(nat \<times> int) list"

text \<open>\<open>Print\<close> of timer \<open>k\<close>: show, count and wait again, or let the timer go.\<close>

definition Print :: "int \<Rightarrow> nat \<Rightarrow> timers \<Rightarrow> timers" where
  "Print limit k s =
     (if cnt s < limit
      then s\<lparr>shown := shown s @ [(k, cnt s)], cnt := cnt s + 1, armed := (armed s)(k := True)\<rparr>
      else s\<lparr>armed := (armed s)(k := False)\<rparr>)"

inductive strand_step :: "int \<Rightarrow> nat \<Rightarrow> timers \<Rightarrow> timers \<Rightarrow> bool" for limit n where
  handler: "k < n \<Longrightarrow> armed s k \<Longrightarrow>
    strand_step limit n s (Print limit k (s\<lparr>armed := (armed s)(k := False)\<rparr>))"

definition timer_main :: "nat \<Rightarrow> timers" where
  "timer_main n = \<lparr>cnt = 0, armed = (\<lambda>k. k < n), shown = []\<rparr>"

definition async_arg_init :: timers where "async_arg_init = timer_main 1"

definition fix_race_init :: timers where "fix_race_init = timer_main 2"

text \<open>\<open>io.run\<close> returns when no timer is armed; then the program shows the final count.\<close>

definition final_count :: "nat \<Rightarrow> timers \<Rightarrow> int option" where
  "final_count n s = (if \<exists>k < n. armed s k then None else Some (cnt s))"

definition strand_inv :: "int \<Rightarrow> nat \<Rightarrow> timers \<Rightarrow> bool" where
  "strand_inv limit n s \<longleftrightarrow> 0 \<le> cnt s \<and> cnt s \<le> limit \<and> map snd (shown s) = map int [0..<nat (cnt s)]
     \<and> ((\<exists>k < n. armed s k) \<or> cnt s = limit)"

definition strand_rank :: "int \<Rightarrow> nat \<Rightarrow> timers \<Rightarrow> nat" where
  "strand_rank limit n s = nat (limit - cnt s) + card {k. k < n \<and> armed s k}"

lemma strand_inv_step:
  assumes "strand_inv limit n s" and "strand_step limit n s s'"
  shows "strand_inv limit n s'"
  using assms(2)
proof cases
  case (handler k)
  then show ?thesis
    using assms(1) by (auto simp: strand_inv_def Print_def nat_add_distrib)
qed

lemma strand_rank_step:
  assumes "strand_inv limit n s" and "strand_step limit n s s'"
  shows "strand_rank limit n s' < strand_rank limit n s"
  using assms(2)
proof cases
  case (handler k)
  show ?thesis
  proof (cases "cnt s < limit")
    case True
    have "(armed s)(k := True) = armed s" using handler(3) by (simp add: fun_upd_idem)
    with True handler show ?thesis
      by (simp add: strand_rank_def Print_def)
  next
    case False
    have "{j. j < n \<and> ((armed s)(k := False)) j} = {j. j < n \<and> armed s j} - {k}" by auto
    moreover have "card ({j. j < n \<and> armed s j} - {k}) < card {j. j < n \<and> armed s j}"
      using handler by (intro card_Diff1_less) auto
    ultimately have "card {j. j < n \<and> ((armed s)(k := False)) j} < card {j. j < n \<and> armed s j}"
      by argo
    with False handler show ?thesis
      by (simp add: strand_rank_def Print_def)
  qed
qed

lemma strand_inv_init: "0 < n \<Longrightarrow> 0 \<le> limit \<Longrightarrow> strand_inv limit n (timer_main n)"
  by (auto simp: strand_inv_def timer_main_def)

interpretation one_timer: ranked "\<lambda>s. s = async_arg_init" "strand_step 5 1" "strand_inv 5 1" "strand_rank 5 1"
  by unfold_locales
    (simp_all add: strand_inv_init async_arg_init_def strand_inv_step strand_rank_step)

interpretation two_timers: ranked "\<lambda>s. s = fix_race_init" "strand_step 10 2" "strand_inv 10 2" "strand_rank 10 2"
  by unfold_locales
    (simp_all add: strand_inv_init fix_race_init_def strand_inv_step strand_rank_step)

lemma strand_final: "strand_inv limit n s \<Longrightarrow> \<nexists>t. strand_step limit n s t \<Longrightarrow> 
    final_count n s = Some limit \<and> map snd (shown s) = map int [0..<nat limit]"
  by (auto simp: strand_inv_def final_count_def intro: handler)

section \<open>Two handlers at once\<close>

datatype tpc = Armed | Test | Show | Load | Store int | Off

record race =
  rcount :: int
  pcs :: "nat \<Rightarrow> tpc"
  printed :: "int list"

text \<open>
  One access to the shared counter per step; the handler of a timer runs in some thread of
  the I/O service.
\<close>

definition race_work :: "nat \<Rightarrow> race \<Rightarrow> race option" where
  "race_work k s = (case pcs s k of
     Armed \<Rightarrow> Some (s\<lparr>pcs := (pcs s)(k := Test)\<rparr>)
   | Test \<Rightarrow> Some (s\<lparr>pcs := (pcs s)(k := if rcount s < 10 then Show else Off)\<rparr>)
   | Show \<Rightarrow> Some (s\<lparr>printed := printed s @ [rcount s], pcs := (pcs s)(k := Load)\<rparr>)
   | Load \<Rightarrow> Some (s\<lparr>pcs := (pcs s)(k := Store (rcount s))\<rparr>)
   | Store v \<Rightarrow> Some (s\<lparr>rcount := v + 1, pcs := (pcs s)(k := Armed)\<rparr>)
   | Off \<Rightarrow> None)"

definition race_step :: "race \<Rightarrow> race \<Rightarrow> bool" where
  "race_step s s' \<longleftrightarrow> (\<exists>k < 2. race_work k s = Some s')"

definition race_init :: race where
  "race_init = \<lparr>rcount = 0, pcs = (\<lambda>_. Armed), printed = []\<rparr>"

definition race_final :: "race \<Rightarrow> int option" where
  "race_final s = (if pcs s 0 = Off \<and> pcs s 1 = Off then Some (rcount s) else None)"

definition resting :: "tpc \<Rightarrow> bool" where
  "resting pc \<longleftrightarrow> pc \<in> {Armed, Test, Off}"

text \<open>
  What holds of timer \<open>k\<close> and the other timer \<open>j\<close>: a value above nine is read only while
  the other rests, and a timer goes off only at ten or more unless the other still runs.
\<close>

definition race_ok :: "int \<Rightarrow> tpc \<Rightarrow> tpc \<Rightarrow> bool" where
  "race_ok c pk pj \<longleftrightarrow>
     (\<forall>v. pk = Store v \<longrightarrow> v \<le> 10 \<and> (v = 10 \<longrightarrow> c = 10 \<and> resting pj))
     \<and> (pk \<in> {Show, Load} \<longrightarrow> c \<le> 10 \<and> (c = 10 \<longrightarrow> resting pj))
     \<and> (c = 11 \<longrightarrow> resting pk)
     \<and> (pk = Off \<and> c < 10 \<longrightarrow> pj \<noteq> Off)"

definition race_inv :: "race \<Rightarrow> bool" where
  "race_inv s \<longleftrightarrow> rcount s \<le> 11 \<and> race_ok (rcount s) (pcs s 0) (pcs s 1) \<and> race_ok (rcount s) (pcs s 1) (pcs s 0)"

definition both_ok :: "int \<Rightarrow> tpc \<Rightarrow> tpc \<Rightarrow> bool" where
  "both_ok c pk pj \<longleftrightarrow> c \<le> 11 \<and> race_ok c pk pj \<and> race_ok c pj pk"

lemma both_ok_sym: "both_ok c pk pj = both_ok c pj pk"
  by (auto simp: both_ok_def)

lemma both_ok_steps:
  "both_ok c Armed pj \<Longrightarrow> both_ok c Test pj"
  "both_ok c Test pj \<Longrightarrow> both_ok c (if c < 10 then Show else Off) pj"
  "both_ok c Show pj \<Longrightarrow> both_ok c Load pj"
  "both_ok c Load pj \<Longrightarrow> both_ok c (Store c) pj"
  "both_ok c (Store v) pj \<Longrightarrow> both_ok (v + 1) Armed pj"
  by (cases pj; auto simp: both_ok_def race_ok_def resting_def)+

lemma race_ok_move:
  assumes "both_ok (rcount s) (pcs s k) (pcs s j)" and "race_work k s = Some s'" and "k \<noteq> j"
  shows "both_ok (rcount s') (pcs s' k) (pcs s' j)"
  using assms by (cases "pcs s k") (auto simp: race_work_def dest: both_ok_steps)

lemma race_inv_both: "race_inv s = both_ok (rcount s) (pcs s 0) (pcs s 1)"
  by (simp add: race_inv_def both_ok_def)

lemma race_ok_step:
  assumes "race_inv s" and "race_work k s = Some s'" and "k < 2"
  shows "race_inv s'"
proof -
  have "k = 0 \<or> k = 1" using assms(3) by linarith
  then show ?thesis
    using race_ok_move[of s 0 1 s'] race_ok_move[of s 1 0 s'] assms(1,2) both_ok_sym
    by (auto simp: race_inv_both)
qed

interpretation race: safety "\<lambda>s. s = race_init" race_step race_inv
proof unfold_locales
  show "race_inv s" if "s = race_init" for s
    using that by (simp add: race_inv_def race_init_def race_ok_def resting_def)
qed (auto simp: race_step_def intro: race_ok_step)

fun race_exec :: "nat list \<Rightarrow> race \<Rightarrow> race option" where
  "race_exec [] s = Some s"
| "race_exec (k # ks) s = (if k < 2 then Option.bind (race_work k s) (race_exec ks) else None)"

lemma race_exec_reach:
  "race_exec ks s = Some s' \<Longrightarrow> reach (\<lambda>s. s = race_init) race_step s \<Longrightarrow> reach (\<lambda>s. s = race_init) race_step s'"
proof (induction ks arbitrary: s)
  case (Cons k ks)
  then obtain s1 where s1: "k < 2" "race_work k s = Some s1" "race_exec ks s1 = Some s'"
    by (auto simp: bind_eq_Some_conv split: if_splits)
  then have "race_step s s1" by (auto simp: race_step_def)
  with Cons s1 show ?case by (blast intro: reach_step)
qed simp

text \<open>Nine handlers of timer 0; then both timers pass the test at nine.\<close>

definition race_schedule :: "nat list" where
  "race_schedule = concat (replicate 9 [0, 0, 0, 0, 0]) @ [0, 0, 1, 1] @ [0, 0, 0] @ [1, 1, 1] @ [0, 0, 1, 1]"

lemma race_eleven: "map_option race_final (race_exec race_schedule race_init) = Some (Some 11)"
  by code_simp

text \<open>
  C39: With the handlers in a strand every order of the timers comes to an end, and then the
  count is the limit and the numbers below it have been shown once each, in order.  Without
  the strand the final count is ten or eleven, and eleven does occur.
\<close>

theorem timers_final_count:
  "(\<exists>s. (strand_step 5 1)\<^sup>*\<^sup>* async_arg_init s \<and> final_count 1 s = Some 5 \<and> map snd (shown s) = [0, 1, 2, 3, 4])
   \<and> (\<forall>s n. (strand_step 10 2 ^^ n) fix_race_init s \<longrightarrow> n \<le> 12
        \<and> (final_count 2 s = None \<or> final_count 2 s = Some 10 \<and> map snd (shown s) = map int [0..<10])
        \<and> (\<exists>s'. (strand_step 10 2)\<^sup>*\<^sup>* s s' \<and> final_count 2 s' = Some 10))
   \<and> (\<forall>s. reach (\<lambda>s. s = race_init) race_step s \<longrightarrow> race_final s \<in> {None, Some 10, Some 11})
   \<and> (\<exists>s. reach (\<lambda>s. s = race_init) race_step s \<and> race_final s = Some 11)"
proof (intro conjI allI impI)
  have inv: "strand_inv 5 1 async_arg_init"
    by (simp add: strand_inv_init async_arg_init_def)
  then obtain s where s: "(strand_step 5 1)\<^sup>*\<^sup>* async_arg_init s" "\<nexists>t. strand_step 5 1 s t"
    using one_timer.run_ends by blast
  moreover have "map int [0..<nat 5] = [0, 1, 2, 3, 4]" by code_simp
  ultimately show "\<exists>s. (strand_step 5 1)\<^sup>*\<^sup>* async_arg_init s \<and> final_count 1 s = Some 5 \<and> map snd (shown s) = [0, 1, 2, 3, 4]"
    using strand_final[OF one_timer.steps_inv[OF s(1) inv] s(2)] by auto
next
  fix s n assume r: "(strand_step 10 2 ^^ n) fix_race_init s"
  have "strand_inv 10 2 fix_race_init" "strand_rank 10 2 fix_race_init = 12"
    by (simp_all add: strand_inv_init fix_race_init_def) (simp add: strand_rank_def timer_main_def)
  with two_timers.run_bound[OF r] have inv: "strand_inv 10 2 s" and n: "n + strand_rank 10 2 s \<le> 12"
    by simp_all
  show "n \<le> 12" using n by simp
  show "final_count 2 s = None \<or> final_count 2 s = Some 10 \<and> map snd (shown s) = map int [0..<10]"
    using inv by (auto simp: final_count_def strand_inv_def)
  obtain s' where s': "(strand_step 10 2)\<^sup>*\<^sup>* s s'" "\<nexists>t. strand_step 10 2 s' t"
    using two_timers.run_ends[OF inv] by blast
  then show "\<exists>s'. (strand_step 10 2)\<^sup>*\<^sup>* s s' \<and> final_count 2 s' = Some 10"
    using strand_final[OF two_timers.steps_inv[OF s'(1) inv] s'(2)] by blast
next
  fix s assume "reach (\<lambda>s. s = race_init) race_step s"
  then have "race_inv s" by (rule race.reach_inv)
  then have "10 \<le> rcount s \<and> rcount s \<le> 11" if "pcs s 0 = Off" "pcs s 1 = Off"
    using that by (simp add: race_inv_def race_ok_def)
  then have "rcount s = 10 \<or> rcount s = 11" if "pcs s 0 = Off" "pcs s 1 = Off"
    using that by linarith
  then show "race_final s \<in> {None, Some 10, Some 11}"
    by (simp add: race_final_def)
next
  show "\<exists>s. reach (\<lambda>s. s = race_init) race_step s \<and> race_final s = Some 11"
  proof -
    have "reach (\<lambda>s. s = race_init) race_step race_init" by (rule reach_init) (rule refl)
    then show ?thesis using race_eleven race_exec_reach by auto
  qed
qed

theorem timers_final_count_witness:
  "\<exists>s. (strand_step 10 2)\<^sup>*\<^sup>* fix_race_init s \<and> final_count 2 s = Some 10"
proof -
  have "(strand_step 10 2 ^^ 0) fix_race_init fix_race_init" by simp
  with timers_final_count show ?thesis by blast
qed

end
