(* ===== verification/Lock_Monitor.thy ===== *)
theory Lock_Monitor
  imports Prelude "HOL-Library.Word"
begin

text \<open>
  The lock manager of project2: lock requests (\<open>lockinfo.h\<close>), the reader-writer lock of a
  record (\<open>rwlock.h\<close>, \<open>record.h\<close>), and the monitor with the request queues and the graph of
  the threads that wait for each other (\<open>monitor.h\<close>, \<open>monitor.cpp\<close>).
\<close>

section \<open>Lock requests\<close>

datatype LockType = R | W1 | W2

record LockInfo =
  index :: nat
  kind :: LockType
  tid :: nat
  getLock :: bool

text \<open>The comparison of the source does not look at the flag.\<close>

definition same_req :: "LockInfo \<Rightarrow> LockInfo \<Rightarrow> bool" where
  "same_req a b \<longleftrightarrow> index a = index b \<and> kind a = kind b \<and> tid a = tid b"

lemma same_req_refl [simp]: "same_req a a"
  by (simp add: same_req_def)


section \<open>The reader-writer lock\<close>

record RWLock =
  mtx :: "nat option"
  numReader :: int
  writing :: bool

text \<open>
  \<open>checkQueue\<close>: the two loops look at the requests before \<open>req\<close>.  Reading the front of an
  empty vector is undefined.
\<close>

fun all_readers :: "LockInfo list \<Rightarrow> LockInfo \<Rightarrow> bool" where
  "all_readers [] req = True"
| "all_readers (r # rs) req =
     (if same_req r req then True else if kind r \<noteq> R then False else all_readers rs req)"

fun only_writer :: "LockInfo list \<Rightarrow> LockInfo \<Rightarrow> bool" where
  "only_writer [] req = True"
| "only_writer (r # rs) req =
     (if same_req r req then True
      else if kind r = W1 \<or> kind r = W2 \<or> \<not> getLock r then False else only_writer rs req)"

definition checkQueue :: "LockInfo list \<Rightarrow> LockInfo \<Rightarrow> bool option" where
  "checkQueue waitings req = (case waitings of [] \<Rightarrow> None
     | first # _ \<Rightarrow> Some (if same_req req first then True
         else if kind req = R then all_readers waitings req else only_writer waitings req))"

text \<open>
  A thread inside \<open>lockShared\<close> or \<open>lockExclusive\<close>: about to take the mutex, about to evaluate
  the condition of the wait, asleep on the condition \<open>writer\<close>, at the test of \<open>writing\<close>; for
  a writer also at the test of the readers, asleep on \<open>reader\<close>, about to take the mutex
  again; and at the end.  A thread asleep may wake up at any time: the standard allows it
  without a notification, so the notifications change nothing that is modelled.
\<close>

datatype lock_pc = Enter | Pred | Asleep | TestWriting | Drain | AsleepReader | Reenter | Locked

fun lockShared :: "nat \<Rightarrow> LockInfo list \<Rightarrow> LockInfo \<Rightarrow> lock_pc \<Rightarrow> ('a RWLock_scheme) \<Rightarrow>
    (lock_pc \<times> 'a RWLock_scheme) option" where
  "lockShared t waitings req Enter l = (if mtx l = None then Some (Pred, l\<lparr>mtx := Some t\<rparr>) else None)"
| "lockShared t waitings req Pred l =
     map_option (\<lambda>b. if b then (TestWriting, l) else (Asleep, l\<lparr>mtx := None\<rparr>)) (checkQueue waitings req)"
| "lockShared t waitings req Asleep l = Some (Enter, l)"
| "lockShared t waitings req TestWriting l =
     Some (if writing l then (Pred, l) else (Locked, l\<lparr>numReader := numReader l + 1, mtx := None\<rparr>))"
| "lockShared t waitings req _ l = None"

fun lockExclusive :: "nat \<Rightarrow> LockInfo list \<Rightarrow> LockInfo \<Rightarrow> lock_pc \<Rightarrow> ('a RWLock_scheme) \<Rightarrow>
    (lock_pc \<times> 'a RWLock_scheme) option" where
  "lockExclusive t waitings req Enter l = (if mtx l = None then Some (Pred, l\<lparr>mtx := Some t\<rparr>) else None)"
| "lockExclusive t waitings req Pred l =
     map_option (\<lambda>b. if b then (TestWriting, l) else (Asleep, l\<lparr>mtx := None\<rparr>)) (checkQueue waitings req)"
| "lockExclusive t waitings req Asleep l = Some (Enter, l)"
| "lockExclusive t waitings req TestWriting l =
     Some (if writing l then (Pred, l) else (Drain, l\<lparr>writing := True\<rparr>))"
| "lockExclusive t waitings req Drain l =
     Some (if 0 < numReader l then (AsleepReader, l\<lparr>mtx := None\<rparr>) else (Locked, l\<lparr>mtx := None\<rparr>))"
| "lockExclusive t waitings req AsleepReader l = Some (Reenter, l)"
| "lockExclusive t waitings req Reenter l = (if mtx l = None then Some (Drain, l\<lparr>mtx := Some t\<rparr>) else None)"
| "lockExclusive t waitings req Locked l = None"

text \<open>The blocks under \<open>lock_guard\<close>; they wait for the mutex.\<close>

definition unlockExclusive :: "('a RWLock_scheme) \<Rightarrow> ('a RWLock_scheme) option" where
  "unlockExclusive l = (if mtx l = None then Some (l\<lparr>writing := False\<rparr>) else None)"

definition unlockShared :: "('a RWLock_scheme) \<Rightarrow> ('a RWLock_scheme) option" where
  "unlockShared l = (if mtx l = None then Some (l\<lparr>numReader := numReader l - 1\<rparr>) else None)"


section \<open>Records\<close>

text \<open>
  The value is stored with 64 bits but set from and read as an \<open>int\<close>, so it is a 32 bit
  value.
\<close>

record Record = RWLock +
  val :: "32 word"

definition Record_init :: Record where
  "Record_init = \<lparr>mtx = None, numReader = 0, writing = False, val = 100\<rparr>"

definition acquire :: "nat \<Rightarrow> LockInfo list \<Rightarrow> LockInfo \<Rightarrow> lock_pc \<Rightarrow> Record \<Rightarrow> (lock_pc \<times> Record) option" where
  "acquire t waitings req pc r =
     (if kind req = R then lockShared t waitings req pc r else lockExclusive t waitings req pc r)"

definition release :: "LockInfo \<Rightarrow> Record \<Rightarrow> Record option" where
  "release req r = (if kind req = R then unlockShared r else unlockExclusive r)"


section \<open>The monitor\<close>

datatype Status = get | waiting | deadlock

text \<open>
  The vectors are functions of the index; \<open>numThreads\<close> is the length of the dependency
  vector, which the search checks.
\<close>

record Monitor =
  threads_info :: "nat \<Rightarrow> LockType \<Rightarrow> int"
  lock_request :: "nat \<Rightarrow> LockInfo list"
  records :: "nat \<Rightarrow> Record"
  dependThreads :: "nat \<Rightarrow> nat set"
  numThreads :: nat

definition Monitor_init :: "nat \<Rightarrow> Monitor" where
  "Monitor_init n = \<lparr>threads_info = (\<lambda>_ _. - 1), lock_request = (\<lambda>_. []), records = (\<lambda>_. Record_init),
     dependThreads = (\<lambda>_. {}), numThreads = n\<rparr>"

definition mread :: "nat \<Rightarrow> Monitor \<Rightarrow> 32 word" where
  "mread x m = val (records m x)"

definition mwrite :: "nat \<Rightarrow> 32 word \<Rightarrow> Monitor \<Rightarrow> Monitor" where
  "mwrite x v m = m\<lparr>records := (records m)(x := (records m x)\<lparr>val := v\<rparr>)\<rparr>"

text \<open>The two parts of \<open>Monitor::getLock\<close>: waiting for the lock and setting the flag in the queue.\<close>

definition set_flag :: "LockInfo \<Rightarrow> Monitor \<Rightarrow> Monitor" where
  "set_flag req m = m\<lparr>lock_request := (lock_request m)(index req :=
     map (\<lambda>r. if same_req r req then r\<lparr>getLock := True\<rparr> else r) (lock_request m (index req)))\<rparr>"

definition getLock_step :: "nat \<Rightarrow> LockInfo \<Rightarrow> lock_pc \<Rightarrow> Monitor \<Rightarrow> (lock_pc \<times> Monitor) option" where
  "getLock_step t req pc m =
     map_option (\<lambda>(pc', r). (pc', m\<lparr>records := (records m)(index req := r)\<rparr>))
       (acquire t (lock_request m (index req)) req pc (records m (index req)))"

fun erase_first :: "LockInfo \<Rightarrow> LockInfo list \<Rightarrow> LockInfo list" where
  "erase_first req [] = []"
| "erase_first req (r # rs) = (if same_req r req then rs else r # erase_first req rs)"

definition deleteLock :: "LockInfo \<Rightarrow> Monitor \<Rightarrow> Monitor" where
  "deleteLock req m = m\<lparr>
     lock_request := (lock_request m)(index req := erase_first req (lock_request m (index req))),
     threads_info := (threads_info m)(tid req := (threads_info m (tid req))(kind req := - 1)),
     dependThreads := (\<lambda>u. (if u = tid req then {} else dependThreads m u) - {tid req})\<rparr>"

definition release_step :: "LockInfo \<Rightarrow> Monitor \<Rightarrow> Monitor option" where
  "release_step req m =
     map_option (\<lambda>r. m\<lparr>records := (records m)(index req := r)\<rparr>) (release req (records m (index req)))"

text \<open>
  \<open>deadlock_check\<close>: the edges from the requesting thread, the search for a way back to it,
  and the new entry of the queue.
\<close>

definition new_deps :: "LockInfo \<Rightarrow> LockInfo list \<Rightarrow> nat set" where
  "new_deps req q = set (map tid (filter (\<lambda>r. kind req = R \<longrightarrow> kind r \<noteq> R) q))"

function find_cycle :: "(nat \<Rightarrow> nat set) \<Rightarrow> nat \<Rightarrow> nat \<Rightarrow> nat list \<Rightarrow> nat set \<Rightarrow> bool option" where
  "find_cycle deps n me [] visited = Some False"
| "find_cycle deps n me (cur # checkDepend) visited =
     (if cur = me then Some True
      else if cur \<in> visited then find_cycle deps n me checkDepend visited
      else if n \<le> cur then None
      else find_cycle deps n me (checkDepend @ sorted_list_of_set (deps cur)) (insert cur visited))"
  by pat_completeness auto
termination
proof (relation "inv_image (less_than <*lex*> less_than)
    (\<lambda>(deps, n, me, queue, visited). (card ({..<n} - visited), length queue))", goal_cases)
  case (3 deps n me cur q visited)
  then have "cur \<in> {..<n} - visited" by (simp add: not_le)
  then have "card ({..<n} - visited - {cur}) < card ({..<n} - visited)" by (intro card_Diff1_less) simp_all
  moreover have "{..<n} - insert cur visited = {..<n} - visited - {cur}" by blast
  ultimately show ?case by simp
qed auto

definition deadlock_check :: "LockInfo \<Rightarrow> Monitor \<Rightarrow> (Status \<times> Monitor) option" where
  "deadlock_check req m =
     (let q = lock_request m (index req);
          deps = (dependThreads m)(tid req := dependThreads m (tid req) \<union> new_deps req q);
          m1 = m\<lparr>dependThreads := deps\<rparr> in
      case find_cycle deps (numThreads m) (tid req) (sorted_list_of_set (deps (tid req))) {} of
        None \<Rightarrow> None
      | Some True \<Rightarrow> Some (deadlock, m1)
      | Some False \<Rightarrow>
          let q' = q @ [req];
              m2 = m1\<lparr>lock_request := (lock_request m)(index req := q'),
                threads_info := (threads_info m)(tid req := (threads_info m (tid req))(kind req := int (index req)))\<rparr> in
          Some (if same_req (hd q') req then get
                else if kind req = R \<and> all_readers q' req then get else waiting, m2))"


section \<open>The search finds exactly the cycles\<close>

definition edges :: "(nat \<Rightarrow> nat set) \<Rightarrow> (nat \<times> nat) set" where
  "edges deps = {(u, v). v \<in> deps u}"

text \<open>
  What the search keeps: everything reachable from the start without passing through a
  visited thread starts in the queue, and everything in the queue is reachable.
\<close>

lemma find_cycle_sound:
  assumes "find_cycle deps n me queue visited = Some True"
    and "\<forall>u. finite (deps u)" and "\<forall>u \<in> set queue. (me, u) \<in> (edges deps)\<^sup>+"
  shows "(me, me) \<in> (edges deps)\<^sup>+"
  using assms
proof (induction deps n me queue visited rule: find_cycle.induct)
  case (1 deps n me visited)
  then show ?case by simp
next
  case (2 deps n me cur queue visited)
  show ?case
  proof (cases "cur = me \<or> cur \<in> visited \<or> n \<le> cur")
    case True
    with 2 show ?thesis by (auto split: if_splits)
  next
    case False
    have "(me, u) \<in> (edges deps)\<^sup>+" if "u \<in> set (queue @ sorted_list_of_set (deps cur))" for u
      using that 2(4,5) by (auto simp: edges_def intro: trancl_into_trancl)
    with 2 False show ?thesis by simp
  qed
qed

lemma find_cycle_complete:
  assumes "find_cycle deps n me queue visited = Some False"
    and "\<forall>u. finite (deps u)" and "me \<notin> visited"
    and "\<forall>u \<in> visited. deps u \<subseteq> visited \<union> set queue"
  shows "\<exists>V. me \<notin> V \<and> visited \<union> set queue \<subseteq> V \<and> (\<forall>u \<in> V. deps u \<subseteq> V)"
  using assms
proof (induction deps n me queue visited rule: find_cycle.induct)
  case (1 deps n me visited)
  then show ?case by auto
next
  case (2 deps n me cur queue visited)
  from 2(3) have ne: "cur \<noteq> me" by (auto split: if_splits)
  show ?case
  proof (cases "cur \<in> visited")
    case True
    then have "\<forall>u \<in> visited. deps u \<subseteq> visited \<union> set queue" using 2(6) by auto
    moreover have "find_cycle deps n me queue visited = Some False" using 2(3) ne True by simp
    ultimately obtain V where "me \<notin> V" "visited \<union> set queue \<subseteq> V" "\<forall>u \<in> V. deps u \<subseteq> V"
      using 2(1) [OF ne True] 2(4,5) by blast
    with True show ?thesis by (intro exI [of _ V]) auto
  next
    case False
    with 2(3) ne have "cur < n" by (auto split: if_splits)
    let ?q = "queue @ sorted_list_of_set (deps cur)"
    have "find_cycle deps n me ?q (insert cur visited) = Some False"
      using 2(3) ne False \<open>cur < n\<close> by simp
    moreover have "\<forall>u \<in> insert cur visited. deps u \<subseteq> insert cur visited \<union> set ?q"
      using 2(4,6) by auto
    ultimately obtain V where "me \<notin> V" "insert cur visited \<union> set ?q \<subseteq> V" "\<forall>u \<in> V. deps u \<subseteq> V"
      using 2(2) [OF ne False] \<open>cur < n\<close> 2(4,5) ne by auto
    then show ?thesis by (intro exI [of _ V]) auto
  qed
qed

lemma find_cycle_returns:
  assumes "\<forall>u. finite (deps u)" and "\<forall>u. deps u \<subseteq> {..<n}" and "set queue \<subseteq> {..<n}"
  shows "find_cycle deps n me queue visited \<noteq> None"
  using assms
proof (induction deps n me queue visited rule: find_cycle.induct)
  case (1 deps n me visited)
  then show ?case by simp
next
  case (2 deps n me cur queue visited)
  then show ?case by auto
qed

lemma find_cycle_iff:
  assumes fin: "\<forall>u. finite (deps u)" and bnd: "\<forall>u. deps u \<subseteq> {..<n}"
  shows "find_cycle deps n me (sorted_list_of_set (deps me)) {} = Some ((me, me) \<in> (edges deps)\<^sup>+)"
proof -
  let ?q = "sorted_list_of_set (deps me)"
  have set: "set ?q = deps me" using fin by simp
  obtain b where b: "find_cycle deps n me ?q {} = Some b"
    using find_cycle_returns [OF fin bnd, of ?q me "{}"] set bnd by auto
  have "(me, me) \<in> (edges deps)\<^sup>+" if "b = True"
    using find_cycle_sound [OF _ fin, of n me ?q "{}"] b that set by (force simp: edges_def)
  moreover have "(me, me) \<notin> (edges deps)\<^sup>+" if False: "b = False"
  proof
    assume cyc: "(me, me) \<in> (edges deps)\<^sup>+"
    obtain V where V: "me \<notin> V" "deps me \<subseteq> V" "\<forall>u \<in> V. deps u \<subseteq> V"
      using find_cycle_complete [of deps n me ?q "{}"] b False fin set by auto
    have "v \<in> V" if "(me, v) \<in> (edges deps)\<^sup>+" for v
      using that by (induction rule: trancl_induct) (use V in \<open>auto simp: edges_def\<close>)
    with cyc V(1) show False by blast
  qed
  ultimately show ?thesis using b by (cases b) auto
qed

text \<open>The dependency graph is well formed: finite sets of existing threads.\<close>

definition deps_ok :: "Monitor \<Rightarrow> bool" where
  "deps_ok m \<longleftrightarrow> (\<forall>u. dependThreads m u \<subseteq> {..<numThreads m}) \<and>
     (\<forall>x. \<forall>r \<in> set (lock_request m x). tid r < numThreads m)"

text \<open>
  C24: the search of \<open>deadlock_check\<close> always ends, and it answers \<open>deadlock\<close> exactly if, with
  the edges to the threads in whose way the request stands in the queue, the requesting
  thread waits for itself through a chain of threads.  Otherwise the request is appended to
  the queue, and the answer is \<open>get\<close> exactly if it is alone there or a reader behind readers
  only.
\<close>

theorem deadlock_check_correct:
  fixes req m
  defines "q \<equiv> lock_request m (index req)"
  defines "deps \<equiv> (dependThreads m)(tid req := dependThreads m (tid req) \<union>
    {tid r | r. r \<in> set q \<and> (kind req = R \<longrightarrow> kind r \<noteq> R)})"
  assumes "deps_ok m" and "\<forall>r \<in> set q. \<not> same_req r req"
  shows "\<exists>st m'. deadlock_check req m = Some (st, m') \<and>
    (st = deadlock \<longleftrightarrow> (tid req, tid req) \<in> {(u, v). v \<in> deps u}\<^sup>+) \<and>
    (st = deadlock \<longrightarrow> lock_request m' = lock_request m) \<and>
    (st \<noteq> deadlock \<longrightarrow> lock_request m' = (lock_request m)(index req := q @ [req])) \<and>
    (st = get \<longleftrightarrow> st \<noteq> deadlock \<and> (q = [] \<or> kind req = R \<and> (\<forall>r \<in> set q. kind r = R)))"
proof -
  have dq: "deps = (dependThreads m)(tid req := dependThreads m (tid req) \<union> new_deps req q)"
    by (simp add: deps_def new_deps_def image_Collect)
  have bnd: "\<forall>u. deps u \<subseteq> {..<numThreads m}"
    using assms(3) by (auto simp: deps_def deps_ok_def q_def)
  then have fin: "\<forall>u. finite (deps u)" by (meson finite_lessThan finite_subset)
  have fc: "find_cycle deps (numThreads m) (tid req) (sorted_list_of_set (deps (tid req))) {} =
      Some ((tid req, tid req) \<in> {(u, v). v \<in> deps u}\<^sup>+)"
    using find_cycle_iff [OF fin bnd, of "tid req"] by (simp add: edges_def)
  have ar: "all_readers (q @ [req]) req \<longleftrightarrow> (\<forall>r \<in> set q. kind r = R)"
    using assms(4) by (induction q) auto
  have hd: "same_req (hd (q @ [req])) req \<longleftrightarrow> q = []"
    using assms(4) by (cases q) auto
  show ?thesis
    unfolding deadlock_check_def q_def [symmetric] dq [symmetric] Let_def fc
    by (cases "(tid req, tid req) \<in> {(u, v). v \<in> deps u}\<^sup>+") (auto simp: ar hd)
qed


text \<open>A monitor in which thread \<open>0\<close> has record \<open>0\<close> and waits for thread \<open>1\<close>.\<close>

definition two_threads :: Monitor where
  "two_threads = (Monitor_init 2)\<lparr>
     lock_request := (\<lambda>x. if x = 0 then [\<lparr>index = 0, kind = W1, tid = 0, getLock = True\<rparr>] else []),
     dependThreads := (\<lambda>u. if u = 0 then {1} else {})\<rparr>"

theorem deadlock_check_correct_witness:
  "\<exists>m'. deadlock_check \<lparr>index = 0, kind = W2, tid = 1, getLock = False\<rparr> two_threads = Some (deadlock, m')"
proof -
  let ?req = "\<lparr>index = 0, kind = W2, tid = 1, getLock = False\<rparr>"
  let ?deps = "(dependThreads two_threads)(tid ?req := dependThreads two_threads (tid ?req) \<union>
    {tid r | r. r \<in> set (lock_request two_threads (index ?req)) \<and> (kind ?req = R \<longrightarrow> kind r \<noteq> R)})"
  have e: "(tid ?req, 0) \<in> {(u, v). v \<in> ?deps u}" "(0, tid ?req) \<in> {(u, v). v \<in> ?deps u}"
    by (simp_all add: two_threads_def Monitor_init_def)
  have cyc: "(tid ?req, tid ?req) \<in> {(u, v). v \<in> ?deps u}\<^sup>+"
    by (rule trancl_into_trancl [OF r_into_trancl [OF e(1)] e(2)])
  have "deps_ok two_threads" by (simp add: deps_ok_def two_threads_def Monitor_init_def)
  moreover have "\<forall>r \<in> set (lock_request two_threads (index ?req)). \<not> same_req r ?req"
    by (simp add: two_threads_def same_req_def)
  ultimately obtain st m' where st: "deadlock_check ?req two_threads = Some (st, m')"
    "st = deadlock \<longleftrightarrow> (tid ?req, tid ?req) \<in> {(u, v). v \<in> ?deps u}\<^sup>+"
    using deadlock_check_correct [of two_threads ?req] by blast
  from st(2) cyc have "st = deadlock" by (rule iffD2)
  with st(1) show ?thesis by blast
qed

lemma all_readers_split:
  "\<forall>u \<in> set us. \<not> same_req u req \<Longrightarrow> all_readers (us @ req # vs) req \<longleftrightarrow> (\<forall>u \<in> set us. kind u = R)"
  by (induction us) auto

lemma only_writer_split:
  "\<forall>u \<in> set us. \<not> same_req u req \<Longrightarrow> only_writer (us @ req # vs) req \<longleftrightarrow> (\<forall>u \<in> set us. kind u = R \<and> getLock u)"
proof (induction us)
  case (Cons u us)
  then show ?case by (cases "kind u") auto
qed simp

text \<open>
  C25: a request in the queue passes \<open>checkQueue\<close> exactly if it is the first, or a reader with
  only readers before it, or a writer with only readers before it that already have the
  lock.
\<close>

theorem checkQueue_correct:
  assumes "\<forall>u \<in> set us. \<not> same_req u req"
  shows "checkQueue (us @ req # vs) req = Some (case kind req of
      R \<Rightarrow> \<forall>u \<in> set us. kind u = R
    | _ \<Rightarrow> \<forall>u \<in> set us. kind u = R \<and> getLock u)"
proof (cases us)
  case Nil
  then show ?thesis by (simp add: checkQueue_def split: LockType.split)
next
  case (Cons u us')
  then have "\<not> same_req req u" using assms by (auto simp: same_req_def)
  then show ?thesis using assms Cons all_readers_split [OF assms, of vs] only_writer_split [OF assms, of vs]
    by (cases "kind req") (simp_all add: checkQueue_def)
qed

theorem checkQueue_correct_witness:
  "checkQueue [\<lparr>index = 0, kind = R, tid = 0, getLock = True\<rparr>, \<lparr>index = 0, kind = W1, tid = 1, getLock = False\<rparr>]
     \<lparr>index = 0, kind = W1, tid = 1, getLock = False\<rparr> = Some True"
  using checkQueue_correct [of "[\<lparr>index = 0, kind = R, tid = 0, getLock = True\<rparr>]"
      "\<lparr>index = 0, kind = W1, tid = 1, getLock = False\<rparr>" "[]"]
  by (simp add: same_req_def)

end
