(* ===== verification/Transactions.thy ===== *)
theory Transactions
  imports Lock_Monitor
begin

text \<open>
  The transactions of project2 (\<open>transaction.h\<close>, \<open>transaction.cpp\<close>, \<open>random.h\<close>, \<open>main.cpp\<close>):
  threads that lock a record for reading and two for writing, change them, and commit
  under a global mutex.  A step is one visible action of one thread.
\<close>

section \<open>Random records\<close>

text \<open>
  \<open>Random::get\<close> draws until it has three distinct numbers.  The draws of the generator are a
  list here; \<open>None\<close> says that the loop has not ended within them.
\<close>

definition numGet :: nat where "numGet = 3"

fun random_get :: "nat list \<Rightarrow> nat set \<Rightarrow> nat set option" where
  "random_get draws ret =
     (if \<not> card ret < numGet then Some ret
      else case draws of [] \<Rightarrow> None
        | t # draws \<Rightarrow> random_get draws (if t \<notin> ret then insert t ret else ret))"


section \<open>The work of a thread\<close>

record locals =
  li :: nat
  lj :: nat
  lk :: nat
  i_value :: "32 word"
  j_value :: "32 word"
  k_value :: "32 word"

definition rec_of :: "locals \<Rightarrow> LockType \<Rightarrow> nat" where
  "rec_of l k = (case k of R \<Rightarrow> li l | W1 \<Rightarrow> lj l | W2 \<Rightarrow> lk l)"

definition req_of :: "nat \<Rightarrow> locals \<Rightarrow> LockType \<Rightarrow> LockInfo" where
  "req_of t l k = \<lparr>index = rec_of l k, kind = k, tid = t, getLock = False\<rparr>"

text \<open>
  Where a thread is.  \<open>Acq k g lp\<close>: inside \<open>getLock\<close> for the lock \<open>k\<close>, with the global mutex
  held if \<open>g\<close>; \<open>Rel c ks\<close> and \<open>RelU c k ks\<close>: releasing the locks \<open>ks\<close> in order to commit
  (\<open>c\<close>) or to start again, the latter between \<open>deleteLock\<close> and the unlock.
\<close>

datatype pc = Start | WantG LockType | Check LockType | Acq LockType bool lock_pc | Flag LockType bool
  | Relock LockType | UnlockG LockType | Access LockType | WantCommit | Rel bool "LockType list"
  | RelU bool LockType "LockType list" | Undone | Commit | Exit

record commit_line =
  by_thread :: nat
  cid :: int
  ci :: nat
  cj :: nat
  ck :: nat
  vi :: "32 word"
  vj :: "32 word"
  vk :: "32 word"

record sys =
  mon :: Monitor
  global_mutex :: "nat option"
  order :: int
  max_order :: int
  numRecords :: nat
  pcs :: "nat \<Rightarrow> pc"
  loc :: "nat \<Rightarrow> locals"
  outFile :: "commit_line list"

definition goto :: "nat \<Rightarrow> pc \<Rightarrow> sys \<Rightarrow> sys" where
  "goto t p s = s\<lparr>pcs := (pcs s)(t := p)\<rparr>"

definition havingLocks :: "LockType \<Rightarrow> LockType list" where
  "havingLocks k = (case k of R \<Rightarrow> [] | W1 \<Rightarrow> [R] | W2 \<Rightarrow> [R, W1])"

definition take_global :: "nat \<Rightarrow> pc \<Rightarrow> sys \<Rightarrow> sys option" where
  "take_global t p s = (if global_mutex s = None then Some (goto t p (s\<lparr>global_mutex := Some t\<rparr>)) else None)"

text \<open>The switch on the result of \<open>deadlock_check\<close>.  For the reader lock the source continues with the global mutex held.\<close>

definition check_step :: "nat \<Rightarrow> LockType \<Rightarrow> sys \<Rightarrow> sys option" where
  "check_step t k s = (let l = loc s t in
     case deadlock_check (req_of t l k) (mon s) of
       None \<Rightarrow> None
     | Some (get, m) \<Rightarrow> Some (goto t (Acq k True Enter) (s\<lparr>mon := m\<rparr>))
     | Some (waiting, m) \<Rightarrow> Some (goto t (Acq k False Enter) (s\<lparr>mon := m, global_mutex := None\<rparr>))
     | Some (deadlock, m) \<Rightarrow> Some (case k of
           R \<Rightarrow> goto t Start (s\<lparr>mon := m\<rparr>)
         | W1 \<Rightarrow> goto t (Rel False (havingLocks W1)) (s\<lparr>mon := m\<rparr>)
         | W2 \<Rightarrow> goto t (Rel False (havingLocks W2)) (s\<lparr>mon := mwrite (lj l) (j_value l) m\<rparr>)))"

definition access_step :: "nat \<Rightarrow> LockType \<Rightarrow> sys \<Rightarrow> sys" where
  "access_step t k s = (let l = loc s t; v = mread (rec_of l k) (mon s) in
     case k of
       R \<Rightarrow> goto t (WantG W1) (s\<lparr>loc := (loc s)(t := l\<lparr>i_value := v\<rparr>)\<rparr>)
     | W1 \<Rightarrow> goto t (WantG W2) (s\<lparr>loc := (loc s)(t := l\<lparr>j_value := v\<rparr>),
         mon := mwrite (lj l) (v + i_value l + 1) (mon s)\<rparr>)
     | W2 \<Rightarrow> goto t WantCommit (s\<lparr>loc := (loc s)(t := l\<lparr>k_value := v\<rparr>),
         mon := mwrite (lk l) (v - i_value l) (mon s)\<rparr>))"

text \<open>The end of a transaction, from \<open>getCommitId\<close> to the unlock of the global mutex.\<close>

definition getCommitId :: "sys \<Rightarrow> sys" where
  "getCommitId s = s\<lparr>order := order s + 1\<rparr>"

definition commit_step :: "nat \<Rightarrow> sys \<Rightarrow> sys" where
  "commit_step t s0 = (let s = getCommitId s0; l = loc s t; m = mon s in
     if order s \<le> max_order s then
       goto t Start (s\<lparr>global_mutex := None, outFile := outFile s @
         [\<lparr>by_thread = t, cid = order s, ci = li l, cj = lj l, ck = lk l,
           vi = mread (li l) m, vj = mread (lj l) m, vk = mread (lk l) m\<rparr>]\<rparr>)
     else
       goto t Exit (s\<lparr>global_mutex := None,
         mon := mwrite (lk l) (k_value l) (mwrite (lj l) (j_value l) (mwrite (li l) (i_value l) m))\<rparr>))"

fun work :: "nat \<Rightarrow> nat \<times> nat \<times> nat \<Rightarrow> pc \<Rightarrow> sys \<Rightarrow> sys option" where
  "work t (i, j, k) Start s =
     (if order s < max_order s then
        if i < numRecords s \<and> j < numRecords s \<and> k < numRecords s \<and> i \<noteq> j \<and> j \<noteq> k \<and> i \<noteq> k
        then Some (goto t (WantG R) (s\<lparr>loc := (loc s)(t := (loc s t)\<lparr>li := i, lj := j, lk := k\<rparr>)\<rparr>))
        else None
      else Some (goto t Exit s))"
| "work t v (WantG k) s = take_global t (Check k) s"
| "work t v (Check k) s = check_step t k s"
| "work t v (Acq k g lp) s =
     map_option (\<lambda>(lp', m). goto t (if lp' = Locked then Flag k g else Acq k g lp') (s\<lparr>mon := m\<rparr>))
       (getLock_step t (req_of t (loc s t) k) lp (mon s))"
| "work t v (Flag k g) s =
     Some (goto t (if g then UnlockG k else Relock k) (s\<lparr>mon := set_flag (req_of t (loc s t) k) (mon s)\<rparr>))"
| "work t v (Relock k) s = take_global t (UnlockG k) s"
| "work t v (UnlockG k) s = Some (goto t (Access k) (s\<lparr>global_mutex := None\<rparr>))"
| "work t v (Access k) s = Some (access_step t k s)"
| "work t v WantCommit s = take_global t (Rel True [R, W1, W2]) s"
| "work t v (Rel c []) s = Some (goto t (if c then Commit else Undone) s)"
| "work t v (Rel c (k # ks)) s =
     Some (goto t (RelU c k ks) (s\<lparr>mon := deleteLock (req_of t (loc s t) k) (mon s)\<rparr>))"
| "work t v (RelU c k ks) s =
     map_option (\<lambda>m. goto t (Rel c ks) (s\<lparr>mon := m\<rparr>)) (release_step (req_of t (loc s t) k) (mon s))"
| "work t v Undone s = Some (goto t Start (s\<lparr>global_mutex := None\<rparr>))"
| "work t v Commit s = Some (commit_step t s)"
| "work t v Exit s = None"

definition trans_step :: "sys \<Rightarrow> sys \<Rightarrow> bool" where
  "trans_step s s' \<longleftrightarrow> (\<exists>t < numThreads (mon s). \<exists>v. work t v (pcs s t) s = Some s')"

definition Transaction :: "nat \<Rightarrow> nat \<Rightarrow> int \<Rightarrow> sys" where
  "Transaction n r e = \<lparr>mon = Monitor_init n, global_mutex = None, order = 0, max_order = e, numRecords = r,
     pcs = (\<lambda>_. Start), loc = (\<lambda>_. \<lparr>li = 0, lj = 0, lk = 0, i_value = 0, j_value = 0, k_value = 0\<rparr>), outFile = []\<rparr>"

text \<open>\<open>Transaction::run\<close> returns when all threads have been joined.\<close>

definition joined :: "sys \<Rightarrow> bool" where
  "joined s \<longleftrightarrow> (\<forall>t < numThreads (mon s). pcs s t = Exit)"

text \<open>
  \<open>main\<close>: the three arguments as the stream operators deliver them, \<open>None\<close> for an argument
  that is not a number.  After an error message the program goes on; a variable that was
  not read has an undefined value (0 after a failed extraction).
\<close>

datatype message = Usage | Invalid nat | Few_Records

definition trans_main :: "int option list \<Rightarrow> int \<Rightarrow> int \<Rightarrow> message option \<times> sys option" where
  "trans_main args undef_R undef_E = (case args of
     aN # aR # aE # _ \<Rightarrow>
       (case aN of None \<Rightarrow> (Some (Invalid 1), Some (Transaction 0 (nat undef_R) undef_E))
        | Some n \<Rightarrow> (case aR of None \<Rightarrow> (Some (Invalid 2), Some (Transaction (nat n) 0 undef_E))
          | Some r \<Rightarrow> if r < 3 then (Some Few_Records, Some (Transaction (nat n) (nat r) undef_E))
              else (case aE of None \<Rightarrow> (Some (Invalid 3), Some (Transaction (nat n) (nat r) 0))
                | Some e \<Rightarrow> (None, Some (Transaction (nat n) (nat r) e)))))
   | _ \<Rightarrow> (Some Usage, None))"

text \<open>The schedule given by a list of threads and choices.\<close>

fun exec :: "(nat \<times> nat \<times> nat \<times> nat) list \<Rightarrow> sys \<Rightarrow> sys option" where
  "exec [] s = Some s"
| "exec ((t, v) # ts) s = (if t < numThreads (mon s) then Option.bind (work t v (pcs s t) s) (exec ts) else None)"



section \<open>Which locks a thread has\<close>

primrec rk :: "LockType \<Rightarrow> nat" where
  "rk R = 0" | "rk W1 = 1" | "rk W2 = 2"

lemma rk_inj: "rk a = rk b \<longleftrightarrow> a = b"
  by (cases a; cases b) simp_all

lemma rk_0 [simp]: "rk k = 0 \<longleftrightarrow> k = R"
  by (cases k) simp_all

lemma rk_less [simp]: "rk k < 2 \<longleftrightarrow> k = R \<or> k = W1" "rk k \<le> 2" "rk k \<le> Suc 0 \<longleftrightarrow> k = R \<or> k = W1"
  by (cases k; simp)+

lemma rk_le: "rk k \<le> rk ty \<longleftrightarrow> rk k < rk ty \<or> k = ty"
  by (auto simp: le_less rk_inj)

text \<open>
  \<open>held\<close>: the reader-writer lock is held; \<open>claims\<close>: a writer has set the flag \<open>writing\<close>;
  \<open>own\<close>: the thread has had the global mutex since it got the lock and has not committed or
  given up; \<open>did\<close>: it has read the record under that lock, and for a writer changed it.
\<close>

fun held :: "pc \<Rightarrow> LockType \<Rightarrow> bool" where
  "held (WantG ty) k = (rk k < rk ty)"
| "held (Check ty) k = (rk k < rk ty)"
| "held (Acq ty g lp) k = (rk k < rk ty)"
| "held (Flag ty g) k = (rk k \<le> rk ty)"
| "held (Relock ty) k = (rk k \<le> rk ty)"
| "held (UnlockG ty) k = (rk k \<le> rk ty)"
| "held (Access ty) k = (rk k \<le> rk ty)"
| "held WantCommit k = True"
| "held (Rel c ks) k = (k \<in> set ks)"
| "held (RelU c k' ks) k = (k = k' \<or> k \<in> set ks)"
| "held p k = False"

fun drains :: "pc \<Rightarrow> LockType \<Rightarrow> bool" where
  "drains (Acq ty g lp) k = (k = ty \<and> lp \<in> {Drain, AsleepReader, Reenter})"
| "drains p k = False"

definition claims :: "pc \<Rightarrow> LockType \<Rightarrow> bool" where
  "claims p k \<longleftrightarrow> k \<noteq> R \<and> (held p k \<or> drains p k)"

fun own :: "pc \<Rightarrow> LockType \<Rightarrow> bool" where
  "own (WantG ty) k = (rk k < rk ty)"
| "own (Check ty) k = (rk k < rk ty)"
| "own (Acq ty g lp) k = (rk k < rk ty)"
| "own (Flag ty g) k = (rk k < rk ty)"
| "own (Relock ty) k = (rk k < rk ty)"
| "own (UnlockG ty) k = (rk k \<le> rk ty)"
| "own (Access ty) k = (rk k \<le> rk ty)"
| "own WantCommit k = True"
| "own (Rel c ks) k = c"
| "own (RelU c k' ks) k = c"
| "own Commit k = True"
| "own p k = False"

fun did :: "pc \<Rightarrow> LockType \<Rightarrow> bool" where
  "did (UnlockG ty) k = (rk k < rk ty)"
| "did (Access ty) k = (rk k < rk ty)"
| "did p k = own p k"

fun gheld :: "pc \<Rightarrow> bool" where
  "gheld (Check ty) = True"
| "gheld (Acq ty g lp) = g"
| "gheld (Flag ty g) = g"
| "gheld (UnlockG ty) = True"
| "gheld (Rel c ks) = True"
| "gheld (RelU c k ks) = True"
| "gheld Undone = True"
| "gheld Commit = True"
| "gheld p = False"

lemma did_own: "did p k \<Longrightarrow> own p k"
  by (cases p) auto

lemma own_held: "own p k \<Longrightarrow> held p k \<or> gheld p \<and> (\<forall>ty. p \<noteq> UnlockG ty)"
  by (cases p) auto

definition lset :: "(pc \<Rightarrow> LockType \<Rightarrow> bool) \<Rightarrow> sys \<Rightarrow> (nat \<times> LockType \<times> nat) set" where
  "lset f s = {(t, k, x). t < numThreads (mon s) \<and> f (pcs s t) k \<and> x = rec_of (loc s t) k}"

text \<open>A step of thread \<open>t\<close> leaves the other threads as they are.\<close>

definition moves :: "nat \<Rightarrow> sys \<Rightarrow> sys \<Rightarrow> bool" where
  "moves t s s' \<longleftrightarrow> t < numThreads (mon s) \<and> numThreads (mon s') = numThreads (mon s) \<and>
     max_order s' = max_order s \<and> (\<forall>u. u \<noteq> t \<longrightarrow> pcs s' u = pcs s u \<and> loc s' u = loc s u)"

lemma lset_same:
  assumes "moves t s s'" and "\<And>k. f (pcs s' t) k = f (pcs s t) k"
    and "\<And>k. f (pcs s t) k \<Longrightarrow> rec_of (loc s' t) k = rec_of (loc s t) k"
  shows "lset f s' = lset f s"
  using assms unfolding lset_def moves_def by (auto, metis, metis, metis, metis)

lemma lset_insert:
  assumes "moves t s s'" and "\<And>k'. f (pcs s' t) k' \<longleftrightarrow> f (pcs s t) k' \<or> k' = k"
    and "\<And>k'. rec_of (loc s' t) k' = rec_of (loc s t) k'"
  shows "lset f s' = insert (t, k, rec_of (loc s t) k) (lset f s)"
proof -
  have "(u, k', x) \<in> lset f s' \<longleftrightarrow> (u, k', x) \<in> insert (t, k, rec_of (loc s t) k) (lset f s)" for u k' x
    using assms unfolding lset_def moves_def by (cases "u = t") auto
  then show ?thesis by auto
qed

lemma lset_remove:
  assumes "moves t s s'" and "\<And>k'. f (pcs s' t) k' \<longleftrightarrow> f (pcs s t) k' \<and> k' \<noteq> k"
    and "\<And>k'. rec_of (loc s' t) k' = rec_of (loc s t) k'"
  shows "lset f s' = lset f s - {(t, k, rec_of (loc s t) k)}"
proof -
  have "(u, k', x) \<in> lset f s' \<longleftrightarrow> (u, k', x) \<in> lset f s - {(t, k, rec_of (loc s t) k)}" for u k' x
    using assms unfolding lset_def moves_def by (cases "u = t") auto
  then show ?thesis by auto
qed

lemma lset_drop:
  assumes "moves t s s'" and "\<And>k. \<not> f (pcs s' t) k"
  shows "lset f s' = {e \<in> lset f s. fst e \<noteq> t}"
proof -
  have "(u, k', x) \<in> lset f s' \<longleftrightarrow> (u, k', x) \<in> lset f s \<and> u \<noteq> t" for u k' x
    using assms unfolding lset_def moves_def by (cases "u = t") auto
  then show ?thesis by auto
qed

lemma lset_finite: "finite (lset f s)"
proof -
  have "lset f s \<subseteq> (\<lambda>(t, k). (t, k, rec_of (loc s t) k)) ` ({..<numThreads (mon s)} \<times> {R, W1, W2})"
  proof
    fix e assume "e \<in> lset f s"
    then obtain t k where "e = (t, k, rec_of (loc s t) k)" "t < numThreads (mon s)" by (auto simp: lset_def)
    moreover have "k \<in> {R, W1, W2}" by (cases k) auto
    ultimately show "e \<in> (\<lambda>(t, k). (t, k, rec_of (loc s t) k)) ` ({..<numThreads (mon s)} \<times> {R, W1, W2})" by force
  qed
  then show ?thesis by (rule finite_subset) simp
qed


section \<open>Exclusion\<close>

text \<open>The reader-writer locks alone: the counters agree with who holds what, and a writer excludes everybody.\<close>

definition locks_ok :: "(nat \<times> LockType \<times> nat) set \<Rightarrow> (nat \<times> LockType \<times> nat) set \<Rightarrow> (nat \<Rightarrow> Record) \<Rightarrow> bool" where
  "locks_ok hs cs rs \<longleftrightarrow> finite hs \<and>
     (\<forall>x. numReader (rs x) = int (card {t. (t, R, x) \<in> hs})) \<and>
     (\<forall>x. writing (rs x) \<longleftrightarrow> (\<exists>t k. (t, k, x) \<in> cs)) \<and>
     (\<forall>x t k u k'. (t, k, x) \<in> cs \<longrightarrow> (u, k', x) \<in> cs \<longrightarrow> t = u \<and> k = k') \<and>
     (\<forall>x t k u. (t, k, x) \<in> hs \<longrightarrow> k \<noteq> R \<longrightarrow> (u, R, x) \<notin> hs) \<and>
     (\<forall>x t k. (t, k, x) \<in> hs \<longrightarrow> k \<noteq> R \<longrightarrow> (t, k, x) \<in> cs) \<and>
     (\<forall>x t. (t, R, x) \<notin> cs)"

lemma locks_okD:
  assumes "locks_ok hs cs rs"
  shows "finite hs" and "numReader (rs x) = int (card {t. (t, R, x) \<in> hs})"
    and "writing (rs x) \<longleftrightarrow> (\<exists>t k. (t, k, x) \<in> cs)"
    and "(t, k, x) \<in> cs \<Longrightarrow> (u, k', x) \<in> cs \<Longrightarrow> t = u \<and> k = k'"
    and "(t, k, x) \<in> hs \<Longrightarrow> k \<noteq> R \<Longrightarrow> (u, R, x) \<notin> hs"
    and "(t, k, x) \<in> hs \<Longrightarrow> k \<noteq> R \<Longrightarrow> (t, k, x) \<in> cs" and "(t, R, x) \<notin> cs"
  using assms unfolding locks_ok_def by blast+

lemma locks_okI:
  assumes "finite hs" and "\<And>x. numReader (rs x) = int (card {t. (t, R, x) \<in> hs})"
    and "\<And>x. writing (rs x) \<longleftrightarrow> (\<exists>t k. (t, k, x) \<in> cs)"
    and "\<And>x t k u k'. (t, k, x) \<in> cs \<Longrightarrow> (u, k', x) \<in> cs \<Longrightarrow> t = u \<and> k = k'"
    and "\<And>x t k u. (t, k, x) \<in> hs \<Longrightarrow> k \<noteq> R \<Longrightarrow> (u, R, x) \<notin> hs"
    and "\<And>x t k. (t, k, x) \<in> hs \<Longrightarrow> k \<noteq> R \<Longrightarrow> (t, k, x) \<in> cs" and "\<And>x t. (t, R, x) \<notin> cs"
  shows "locks_ok hs cs rs"
  unfolding locks_ok_def
proof (intro conjI)
  show "\<forall>x t k u k'. (t, k, x) \<in> cs \<longrightarrow> (u, k', x) \<in> cs \<longrightarrow> t = u \<and> k = k'" using assms(4) by blast
  show "\<forall>x t k u. (t, k, x) \<in> hs \<longrightarrow> k \<noteq> R \<longrightarrow> (u, R, x) \<notin> hs" using assms(5) by blast
qed (simp_all add: assms(1,2,3,6,7))

lemma locks_ok_same:
  assumes "locks_ok hs cs rs" and "\<And>x. numReader (rs' x) = numReader (rs x) \<and> writing (rs' x) = writing (rs x)"
  shows "locks_ok hs cs rs'"
  using assms unfolding locks_ok_def by simp

lemma readers_finite: "locks_ok hs cs rs \<Longrightarrow> finite {t. (t, R, x) \<in> hs}"
  by (rule finite_subset [of _ "fst ` hs"]) (force dest: locks_okD(1))+

lemma locks_ok_reader:
  assumes ok: "locks_ok hs cs rs" and nw: "\<not> writing (rs x)" and new: "(t, R, x) \<notin> hs"
    and r: "numReader r = numReader (rs x) + 1" "writing r = writing (rs x)"
  shows "locks_ok (insert (t, R, x) hs) cs (rs(x := r))"
proof -
  have "{u. (u, R, x) \<in> insert (t, R, x) hs} = insert t {u. (u, R, x) \<in> hs}" by auto
  then have "card {u. (u, R, x) \<in> insert (t, R, x) hs} = Suc (card {u. (u, R, x) \<in> hs})"
    using new readers_finite [OF ok, of x] by simp
  moreover have "{u. (u, R, y) \<in> insert (t, R, x) hs} = {u. (u, R, y) \<in> hs}" if "y \<noteq> x" for y using that by auto
  ultimately have "numReader ((rs(x := r)) y) = int (card {u. (u, R, y) \<in> insert (t, R, x) hs})" for y
    using locks_okD(2) [OF ok, of y] r by (cases "y = x") simp_all
  moreover have "(u, k, x) \<notin> hs" if "k \<noteq> R" for u k
    using that nw locks_okD(3,6) [OF ok] by blast
  ultimately show ?thesis
    by (intro locks_okI) (use locks_okD [OF ok] r in \<open>auto split: if_splits\<close>)
qed

lemma locks_ok_claim:
  assumes ok: "locks_ok hs cs rs" and nw: "\<not> writing (rs x)" and "k \<noteq> R"
    and r: "numReader r = numReader (rs x)" "writing r"
  shows "locks_ok hs (insert (t, k, x) cs) (rs(x := r))"
proof -
  have "(u, k', x) \<notin> cs" for u k' using nw locks_okD(3) [OF ok] by blast
  then show ?thesis unfolding locks_ok_def using locks_okD [OF ok] r assms(3) by auto
qed

lemma locks_ok_writer:
  assumes ok: "locks_ok hs cs rs" and c: "(t, k, x) \<in> cs" and "\<not> 0 < numReader (rs x)"
    and r: "numReader r = numReader (rs x)" "writing r = writing (rs x)"
  shows "locks_ok (insert (t, k, x) hs) cs (rs(x := r))"
proof -
  have k: "k \<noteq> R" using c locks_okD(7) [OF ok] by auto
  have "card {u. (u, R, x) \<in> hs} = 0" using locks_okD(2) [OF ok, of x] assms(3) by simp
  then have no: "(u, R, x) \<notin> hs" for u using readers_finite [OF ok, of x] by auto
  have e: "{u. (u, R, y) \<in> insert (t, k, x) hs} = {u. (u, R, y) \<in> hs}" for y using k by auto
  have "numReader ((rs(x := r)) y) = int (card {u. (u, R, y) \<in> insert (t, k, x) hs})" for y
    unfolding e using locks_okD(2) [OF ok, of y] r by (cases "y = x") simp_all
  then show ?thesis unfolding locks_ok_def using locks_okD [OF ok] r no k c by auto
qed

lemma locks_ok_unread:
  assumes ok: "locks_ok hs cs rs" and h: "(t, R, x) \<in> hs"
    and r: "numReader r = numReader (rs x) - 1" "writing r = writing (rs x)"
  shows "locks_ok (hs - {(t, R, x)}) cs (rs(x := r))"
proof -
  have "{u. (u, R, x) \<in> hs - {(t, R, x)}} = {u. (u, R, x) \<in> hs} - {t}" by auto
  moreover have "card {u. (u, R, x) \<in> hs} = Suc (card ({u. (u, R, x) \<in> hs} - {t}))"
    using readers_finite [OF ok, of x] h by (intro card.remove) auto
  moreover have "{u. (u, R, y) \<in> hs - {(t, R, x)}} = {u. (u, R, y) \<in> hs}" if "y \<noteq> x" for y using that by auto
  ultimately have "numReader ((rs(x := r)) y) = int (card {u. (u, R, y) \<in> hs - {(t, R, x)}})" for y
    using locks_okD(2) [OF ok, of y] r by (cases "y = x") simp_all
  then show ?thesis by (intro locks_okI) (use locks_okD [OF ok] r in \<open>auto split: if_splits\<close>)
qed

lemma locks_ok_unwrite:
  assumes ok: "locks_ok hs cs rs" and h: "(t, k, x) \<in> hs" and k: "k \<noteq> R"
    and r: "numReader r = numReader (rs x)" "\<not> writing r"
  shows "locks_ok (hs - {(t, k, x)}) (cs - {(t, k, x)}) (rs(x := r))"
proof -
  have c: "(t, k, x) \<in> cs" by (rule locks_okD(6) [OF ok h k])
  then have only: "(u, k', x) \<in> cs \<longleftrightarrow> u = t \<and> k' = k" for u k' using locks_okD(4) [OF ok] by blast
  have e: "{u. (u, R, y) \<in> hs - {(t, k, x)}} = {u. (u, R, y) \<in> hs}" for y using k by auto
  have n: "numReader ((rs(x := r)) y) = int (card {u. (u, R, y) \<in> hs - {(t, k, x)}})" for y
    unfolding e using locks_okD(2) [OF ok, of y] r by (cases "y = x") simp_all
  have w: "writing ((rs(x := r)) y) \<longleftrightarrow> (\<exists>u k'. (u, k', y) \<in> cs - {(t, k, x)})" for y
    using locks_okD(3) [OF ok, of y] r only by (cases "y = x") auto
  show ?thesis
  proof (rule locks_okI)
    show "finite (hs - {(t, k, x)})" using locks_okD(1) [OF ok] by simp
    show "u = v \<and> k1 = k2" if "(u, k1, y) \<in> cs - {(t, k, x)}" "(v, k2, y) \<in> cs - {(t, k, x)}" for y u k1 v k2
      using that locks_okD(4) [OF ok] by blast
    show "(v, R, y) \<notin> hs - {(t, k, x)}" if "(u, k1, y) \<in> hs - {(t, k, x)}" "k1 \<noteq> R" for y u k1 v
      using that locks_okD(5) [OF ok] by blast
    show "(u, k1, y) \<in> cs - {(t, k, x)}" if "(u, k1, y) \<in> hs - {(t, k, x)}" "k1 \<noteq> R" for y u k1
      using that locks_okD(6) [OF ok] by blast
    show "(u, R, y) \<notin> cs - {(t, k, x)}" for y u using locks_okD(7) [OF ok] by blast
  qed (rule n w)+
qed



section \<open>Steps\<close>

lemma tr_goto_simps [simp]:
  "pcs (goto t p s) = (pcs s)(t := p)" "loc (goto t p s) = loc s" "mon (goto t p s) = mon s"
  "global_mutex (goto t p s) = global_mutex s" "order (goto t p s) = order s" "max_order (goto t p s) = max_order s"
  "outFile (goto t p s) = outFile s" "numRecords (goto t p s) = numRecords s"
  by (simp_all add: goto_def)

lemma mwrite_simps [simp]:
  "numThreads (mwrite x v m) = numThreads m" "lock_request (mwrite x v m) = lock_request m"
  "dependThreads (mwrite x v m) = dependThreads m"
  "numReader (records (mwrite x v m) y) = numReader (records m y)"
  "writing (records (mwrite x v m) y) = writing (records m y)"
  "mread y (mwrite x v m) = (if y = x then v else mread y m)"
  by (simp_all add: mwrite_def mread_def)

lemma set_flag_simps [simp]:
  "numThreads (set_flag req m) = numThreads m" "records (set_flag req m) = records m"
  "dependThreads (set_flag req m) = dependThreads m" "mread x (set_flag req m) = mread x m"
  by (simp_all add: set_flag_def mread_def)

lemma deleteLock_simps [simp]:
  "numThreads (deleteLock req m) = numThreads m" "records (deleteLock req m) = records m"
  "mread x (deleteLock req m) = mread x m"
  by (simp_all add: deleteLock_def mread_def)

lemma rec_of_simps [simp]: "rec_of l R = li l" "rec_of l W1 = lj l" "rec_of l W2 = lk l"
  by (simp_all add: rec_of_def)

lemma req_of_simps [simp]: "index (req_of t l k) = rec_of l k" "kind (req_of t l k) = k" "tid (req_of t l k) = t"
  by (simp_all add: req_of_def)

lemma deadlock_check_frame:
  assumes "deadlock_check req m = Some (st, m')"
  shows "records m' = records m" and "numThreads m' = numThreads m" and "mread x m' = mread x m"
  using assms by (auto simp: deadlock_check_def Let_def mread_def split: option.splits bool.splits)

lemma getLock_step_frame:
  assumes "getLock_step t req lp m = Some (lp', m')"
  shows "numThreads m' = numThreads m" and "lock_request m' = lock_request m"
    and "dependThreads m' = dependThreads m"
    and "\<exists>r. acquire t (lock_request m (index req)) req lp (records m (index req)) = Some (lp', r) \<and>
      records m' = (records m)(index req := r)"
  using assms by (auto simp: getLock_step_def)

lemma release_step_frame:
  assumes "release_step req m = Some m'"
  shows "numThreads m' = numThreads m" and "lock_request m' = lock_request m"
    and "dependThreads m' = dependThreads m"
    and "\<exists>r. release req (records m (index req)) = Some r \<and> records m' = (records m)(index req := r)"
  using assms by (auto simp: release_step_def)

text \<open>What a step of \<open>lockShared\<close> or \<open>lockExclusive\<close> does to the flag and the counter.\<close>

lemma acquire_cases:
  assumes "acquire t q req lp r = Some (lp', r')"
  obtains (same) "numReader r' = numReader r" "writing r' = writing r" "lp' \<noteq> Locked"
      "lp' \<in> {Drain, AsleepReader, Reenter} \<longleftrightarrow> lp \<in> {Drain, AsleepReader, Reenter}"
    | (reader) "kind req = R" "lp' = Locked" "\<not> writing r" "numReader r' = numReader r + 1" "writing r' = writing r"
    | (claim) "kind req \<noteq> R" "lp = TestWriting" "lp' = Drain" "\<not> writing r" "numReader r' = numReader r" "writing r'"
    | (writer) "kind req \<noteq> R" "lp = Drain" "lp' = Locked" "\<not> 0 < numReader r" "numReader r' = numReader r"
      "writing r' = writing r"
proof (cases "kind req = R")
  case True
  with assms show thesis
    by (cases lp) (auto simp: acquire_def split: if_splits intro: same reader)
next
  case False
  with assms show thesis
    by (cases lp) (auto simp: acquire_def split: if_splits intro: same claim writer)
qed

lemma acquire_val: "acquire t q req lp r = Some (lp', r') \<Longrightarrow> val r' = val r"
  by (cases lp) (auto simp: acquire_def split: if_splits)

lemma release_val: "release req r = Some r' \<Longrightarrow> val r' = val r"
  by (auto simp: release_def unlockShared_def unlockExclusive_def split: if_splits)

lemma work_moves:
  assumes "t < numThreads (mon s)" and "work t v (pcs s t) s = Some s'"
  shows "moves t s s'"
proof (cases "pcs s t")
  case Start
  with assms show ?thesis by (cases v) (auto simp: moves_def split: if_splits)
next
  case (Check k)
  with assms show ?thesis
    by (cases k) (auto simp: moves_def check_step_def Let_def deadlock_check_frame split: option.splits Status.splits)
next
  case (Acq k g lp)
  with assms show ?thesis by (auto simp: moves_def dest: getLock_step_frame(1))
next
  case (Access k)
  with assms show ?thesis by (cases k) (auto simp: moves_def access_step_def Let_def)
next
  case (Rel c ks)
  with assms show ?thesis by (cases ks) (auto simp: moves_def)
next
  case (RelU c k ks)
  with assms show ?thesis by (auto simp: moves_def dest: release_step_frame(1))
next
  case Commit
  with assms show ?thesis by (auto simp: moves_def commit_step_def getCommitId_def Let_def)
qed (use assms in \<open>auto simp: moves_def take_global_def split: if_splits\<close>)

definition wf_pc :: "pc \<Rightarrow> bool" where
  "wf_pc p \<longleftrightarrow> (case p of Rel c ks \<Rightarrow> distinct ks | RelU c k ks \<Rightarrow> distinct (k # ks) | Acq k g lp \<Rightarrow> lp \<noteq> Locked | _ \<Rightarrow> True)"

definition exclusion :: "sys \<Rightarrow> bool" where
  "exclusion s \<longleftrightarrow> locks_ok (lset held s) (lset claims s) (records (mon s))"

lemma exclusion_same:
  assumes "exclusion s" and "moves t s s'"
    and "\<And>k. held (pcs s' t) k = held (pcs s t) k" and "\<And>k. drains (pcs s' t) k = drains (pcs s t) k"
    and "\<And>k. held (pcs s t) k \<or> drains (pcs s t) k \<Longrightarrow> rec_of (loc s' t) k = rec_of (loc s t) k"
    and "\<And>x. numReader (records (mon s') x) = numReader (records (mon s) x) \<and> writing (records (mon s') x) = writing (records (mon s) x)"
  shows "exclusion s'"
proof -
  have "lset held s' = lset held s" using assms by (intro lset_same) auto
  moreover have "lset claims s' = lset claims s" using assms by (intro lset_same) (auto simp: claims_def)
  ultimately show ?thesis using assms(1,6) unfolding exclusion_def by (simp add: locks_ok_same)
qed

lemma exclusion_acq:
  assumes ex: "exclusion s" and t: "t < numThreads (mon s)" and pc: "pcs s t = Acq k g lp"
    and step: "work t v (pcs s t) s = Some s'"
  shows "exclusion s'"
proof -
  let ?l = "loc s t" and ?x = "rec_of (loc s t) k"
  have mv: "moves t s s'" by (rule work_moves [OF t step])
  from step pc obtain lp' m where m: "getLock_step t (req_of t ?l k) lp (mon s) = Some (lp', m)"
    and s': "s' = goto t (if lp' = Locked then Flag k g else Acq k g lp') (s\<lparr>mon := m\<rparr>)" by auto
  from getLock_step_frame(4) [OF m] obtain r where
    r: "acquire t (lock_request (mon s) ?x) (req_of t ?l k) lp (records (mon s) ?x) = Some (lp', r)"
    "records (mon s') = (records (mon s))(?x := r)" using s' by auto
  have loc: "loc s' = loc s" using s' by simp
  have ok: "locks_ok (lset held s) (lset claims s) (records (mon s))" using ex by (simp add: exclusion_def)
  from r(1) show ?thesis
  proof (cases rule: acquire_cases)
    case same
    with s' pc r(2) loc show ?thesis by (intro exclusion_same [OF ex mv]) auto
  next
    case reader
    have k: "k = R" using reader(1) by simp
    have "lset held s' = insert (t, R, ?x) (lset held s)"
      using lset_insert [OF mv, of held R] s' pc reader k loc by (simp add: le_less rk_inj)
    moreover have "lset claims s' = lset claims s"
      using s' pc reader k loc by (intro lset_same [OF mv]) (auto simp: claims_def le_less rk_inj)
    moreover have "(t, R, ?x) \<notin> lset held s" using pc k by (simp add: lset_def)
    ultimately show ?thesis unfolding exclusion_def r(2) using locks_ok_reader [OF ok] reader by simp
  next
    case claim
    have "lset held s' = lset held s" using s' pc claim loc by (intro lset_same [OF mv]) auto
    moreover have "lset claims s' = insert (t, k, ?x) (lset claims s)"
      using s' pc claim loc by (intro lset_insert [OF mv]) (auto simp: claims_def)
    ultimately show ?thesis unfolding exclusion_def r(2) using locks_ok_claim [OF ok] claim by simp
  next
    case writer
    have "lset held s' = insert (t, k, ?x) (lset held s)"
      using s' pc writer loc by (intro lset_insert [OF mv]) (auto simp: le_less rk_inj)
    moreover have "lset claims s' = lset claims s"
      using s' pc writer loc by (intro lset_same [OF mv]) (auto simp: claims_def le_less rk_inj)
    moreover have "(t, k, ?x) \<in> lset claims s" using pc writer t by (simp add: lset_def claims_def)
    ultimately show ?thesis unfolding exclusion_def r(2) using locks_ok_writer [OF ok] writer by simp
  qed
qed

lemma exclusion_rel:
  assumes ex: "exclusion s" and t: "t < numThreads (mon s)" and pc: "pcs s t = RelU c k ks" and wf: "wf_pc (pcs s t)"
    and step: "work t v (pcs s t) s = Some s'"
  shows "exclusion s'"
proof -
  let ?l = "loc s t" and ?x = "rec_of (loc s t) k"
  have mv: "moves t s s'" by (rule work_moves [OF t step])
  from step pc obtain m where m: "release_step (req_of t ?l k) (mon s) = Some m"
    and s': "s' = goto t (Rel c ks) (s\<lparr>mon := m\<rparr>)" by auto
  from release_step_frame(4) [OF m] obtain r where
    r: "release (req_of t ?l k) (records (mon s) ?x) = Some r" "records (mon s') = (records (mon s))(?x := r)"
    using s' by auto
  have k: "k \<notin> set ks" using wf pc by (simp add: wf_pc_def)
  have ok: "locks_ok (lset held s) (lset claims s) (records (mon s))" using ex by (simp add: exclusion_def)
  have h: "lset held s' = lset held s - {(t, k, ?x)}" using s' pc k by (intro lset_remove [OF mv]) auto
  have i: "(t, k, ?x) \<in> lset held s" using pc t by (simp add: lset_def)
  show ?thesis
  proof (cases "k = R")
    case True
    have "lset claims s' = lset claims s" using s' pc True by (intro lset_same [OF mv]) (auto simp: claims_def)
    then show ?thesis unfolding exclusion_def r(2) h using locks_ok_unread [OF ok] i r(1) True
      by (auto simp: release_def unlockShared_def split: if_splits)
  next
    case False
    have "lset claims s' = lset claims s - {(t, k, ?x)}" using s' pc False k
      by (intro lset_remove [OF mv]) (auto simp: claims_def)
    then show ?thesis unfolding exclusion_def r(2) h using locks_ok_unwrite [OF ok i False] r(1) False
      by (auto simp: release_def unlockExclusive_def split: if_splits)
  qed
qed



lemma havingLocks_simps [simp]: "havingLocks R = []" "havingLocks W1 = [R]" "havingLocks W2 = [R, W1]"
  by (simp_all add: havingLocks_def)

lemma exclusion_step:
  assumes ex: "exclusion s" and t: "t < numThreads (mon s)" and wf: "wf_pc (pcs s t)"
    and step: "work t v (pcs s t) s = Some s'"
  shows "exclusion s'"
proof -
  note mv = work_moves [OF t step]
  show ?thesis
  proof (cases "pcs s t")
    case Start
    with step show ?thesis by (cases v) (intro exclusion_same [OF ex mv]; auto split: if_splits)
  next
    case (Check k)
    with step show ?thesis
      by (cases k) (intro exclusion_same [OF ex mv];
        auto simp: check_step_def Let_def deadlock_check_frame split: option.splits Status.splits)+
  next
    case (Acq k g lp)
    then show ?thesis by (rule exclusion_acq [OF ex t _ step])
  next
    case (Flag k g)
    with step show ?thesis by (cases g) (intro exclusion_same [OF ex mv]; auto)+
  next
    case (Access k)
    with step show ?thesis
      by (cases k) (intro exclusion_same [OF ex mv]; auto simp: access_step_def Let_def rk_le rec_of_def split: LockType.splits)+
  next
    case (Rel c ks)
    with step show ?thesis by (cases ks; cases c) (intro exclusion_same [OF ex mv]; auto)+
  next
    case (RelU c k ks)
    then show ?thesis using exclusion_rel [OF ex t _ wf step] by blast
  next
    case Commit
    with step show ?thesis
      by (cases "order s + 1 \<le> max_order s") (intro exclusion_same [OF ex mv]; auto simp: commit_step_def getCommitId_def Let_def)+
  next
    case WantCommit
    with step show ?thesis
      by (intro exclusion_same [OF ex mv]) (auto simp: take_global_def split: if_splits, metis LockType.exhaust)
  qed (use step in \<open>intro exclusion_same [OF ex mv]; auto simp: take_global_def split: if_splits\<close>)+
qed

lemma wf_step:
  assumes "wf_pc (pcs s t)" and "work t v (pcs s t) s = Some s'"
  shows "wf_pc (pcs s' t)"
proof (cases "pcs s t")
  case Start
  with assms show ?thesis by (cases v) (auto simp: wf_pc_def split: if_splits)
next
  case (Check k)
  with assms show ?thesis
    by (cases k) (auto simp: wf_pc_def check_step_def Let_def split: option.splits Status.splits)
next
  case (Acq k g lp)
  with assms show ?thesis by (auto simp: wf_pc_def)
next
  case (Access k)
  with assms show ?thesis by (cases k) (auto simp: wf_pc_def access_step_def Let_def)
next
  case (Rel c ks)
  with assms show ?thesis by (cases ks) (auto simp: wf_pc_def)
next
  case Commit
  with assms show ?thesis by (auto simp: wf_pc_def commit_step_def getCommitId_def Let_def)
qed (use assms in \<open>auto simp: wf_pc_def take_global_def split: if_splits\<close>)


section \<open>The global mutex and ownership\<close>

definition global_ok :: "sys \<Rightarrow> bool" where
  "global_ok s \<longleftrightarrow> (\<forall>t < numThreads (mon s). gheld (pcs s t) \<longrightarrow> global_mutex s = Some t)"

lemma work_global:
  assumes "work t v (pcs s t) s = Some s'" and "gheld (pcs s t) \<longrightarrow> global_mutex s = Some t"
  shows "(gheld (pcs s' t) \<longrightarrow> global_mutex s' = Some t) \<and>
    (global_mutex s' = global_mutex s \<or> global_mutex s = None \<or> gheld (pcs s t))"
proof (cases "pcs s t")
  case Start
  with assms show ?thesis by (cases v) (auto split: if_splits)
next
  case (Check k)
  with assms show ?thesis
    by (cases k) (auto simp: check_step_def Let_def split: option.splits Status.splits)
next
  case (Access k)
  with assms show ?thesis by (cases k) (auto simp: access_step_def Let_def)
next
  case (Rel c ks)
  with assms show ?thesis by (cases ks) auto
next
  case Commit
  with assms show ?thesis by (auto simp: commit_step_def getCommitId_def Let_def split: if_splits)
qed (use assms in \<open>auto simp: take_global_def split: if_splits\<close>)

lemma global_step:
  assumes G: "global_ok s" and t: "t < numThreads (mon s)" and step: "work t v (pcs s t) s = Some s'"
  shows "global_ok s'"
  unfolding global_ok_def
proof (intro allI impI)
  fix u assume u: "u < numThreads (mon s')" "gheld (pcs s' u)"
  have mv: "moves t s s'" by (rule work_moves [OF t step])
  have gt: "gheld (pcs s t) \<longrightarrow> global_mutex s = Some t" using G t by (simp add: global_ok_def)
  note w = work_global [OF step gt]
  show "global_mutex s' = Some u"
  proof (cases "u = t")
    case True
    with w u show ?thesis by simp
  next
    case False
    then have "global_mutex s = Some u" using mv u G by (auto simp: moves_def global_ok_def)
    with w gt False show ?thesis by auto
  qed
qed

definition ownership :: "sys \<Rightarrow> bool" where
  "ownership s \<longleftrightarrow> (\<forall>t k u k' x. (t, k, x) \<in> lset own s \<longrightarrow> (u, k', x) \<in> lset own s \<longrightarrow> t \<noteq> u \<longrightarrow> k = R \<and> k' = R)"

text \<open>Two threads that hold locks on the same record are both readers.\<close>

lemma held_shared:
  assumes "exclusion s" and "(t, k, x) \<in> lset held s" and "(u, k', x) \<in> lset held s" and "t \<noteq> u"
  shows "k = R \<and> k' = R"
proof -
  have ok: "locks_ok (lset held s) (lset claims s) (records (mon s))" using assms(1) by (simp add: exclusion_def)
  show ?thesis
  proof (cases "k = R"; cases "k' = R")
    assume "k \<noteq> R" "k' \<noteq> R"
    then show ?thesis using locks_okD(4,6) [OF ok] assms(2-4) by blast
  qed (use locks_okD(5) [OF ok] assms(2,3) in blast)+
qed

text \<open>
  A thread becomes the owner of a record only with the global mutex, so no other thread is
  between its releases and its commit.
\<close>

lemma ownership_grow:
  assumes ex: "exclusion s" and G: "global_ok s" and O: "ownership s" and t: "t < numThreads (mon s)"
    and g: "global_mutex s \<in> {None, Some t}" and h: "held (pcs s t) k"
    and os: "lset own s' = insert (t, k, rec_of (loc s t) k) (lset own s)"
  shows "ownership s'"
proof -
  let ?x = "rec_of (loc s t) k"
  have th: "(t, k, ?x) \<in> lset held s" using h t by (simp add: lset_def)
  have other: "k = R \<and> k' = R" if "(u, k', ?x) \<in> lset own s" "u \<noteq> t" for u k'
  proof -
    have "own (pcs s u) k'" "u < numThreads (mon s)" "?x = rec_of (loc s u) k'" using that by (auto simp: lset_def)
    moreover have "\<not> gheld (pcs s u)" using g G that calculation(2) by (auto simp: global_ok_def)
    ultimately have "(u, k', ?x) \<in> lset held s" using own_held by (auto simp: lset_def)
    then show ?thesis using held_shared [OF ex th] that(2) by blast
  qed
  show ?thesis unfolding ownership_def os
  proof (intro allI impI)
    fix t1 k1 u k2 x assume a: "(t1, k1, x) \<in> insert (t, k, ?x) (lset own s)"
      "(u, k2, x) \<in> insert (t, k, ?x) (lset own s)" "t1 \<noteq> u"
    show "k1 = R \<and> k2 = R"
    proof (cases "(t1, k1, x) \<in> lset own s \<and> (u, k2, x) \<in> lset own s")
      case True
      with O a(3) show ?thesis unfolding ownership_def by blast
    next
      case False
      then consider "t1 = t" "k1 = k" "x = ?x" "(u, k2, x) \<in> lset own s"
        | "u = t" "k2 = k" "x = ?x" "(t1, k1, x) \<in> lset own s" using a by auto
      then show ?thesis using other a(3) by cases auto
    qed
  qed
qed

lemma ownership_sub:
  assumes "ownership s" and "lset own s' \<subseteq> lset own s"
  shows "ownership s'"
  using assms unfolding ownership_def by blast



lemma own_growth:
  assumes "work t v (pcs s t) s = Some s'" and "gheld (pcs s t) \<longrightarrow> global_mutex s = Some t"
  shows "(\<forall>k. own (pcs s' t) k \<longrightarrow> own (pcs s t) k) \<or>
    (\<exists>k. held (pcs s t) k \<and> global_mutex s \<in> {None, Some t} \<and> (\<forall>k'. own (pcs s' t) k' \<longleftrightarrow> own (pcs s t) k' \<or> k' = k))"
proof (cases "pcs s t")
  case Start
  with assms show ?thesis by (cases v) (auto split: if_splits)
next
  case (Check k)
  with assms show ?thesis
    by (cases k) (auto simp: check_step_def Let_def split: option.splits Status.splits)
next
  case (Flag k g)
  show ?thesis
  proof (cases g)
    case True
    with Flag assms show ?thesis by (intro disjI2 exI [of _ k]) (auto simp: rk_le)
  next
    case False
    with Flag assms show ?thesis by (intro disjI1) auto
  qed
next
  case (Relock k)
  with assms show ?thesis by (intro disjI2 exI [of _ k]) (auto simp: rk_le take_global_def split: if_splits)
next
  case (Access k)
  with assms show ?thesis by (cases k) (auto simp: access_step_def Let_def)
next
  case (Rel c ks)
  with assms show ?thesis by (cases ks; cases c) auto
next
  case Commit
  with assms show ?thesis by (auto simp: commit_step_def getCommitId_def Let_def split: if_splits)
qed (use assms in \<open>auto simp: take_global_def split: if_splits\<close>)

text \<open>The records of a thread change only when it starts again.\<close>

lemma work_loc:
  assumes "work t v (pcs s t) s = Some s'"
  shows "pcs s t = Start \<or> (\<forall>k. rec_of (loc s' t) k = rec_of (loc s t) k)"
proof (cases "pcs s t")
  case (Check k)
  with assms show ?thesis
    by (cases k) (auto simp: check_step_def Let_def split: option.splits Status.splits)
next
  case (Access k)
  have "rec_of (loc s' t) k' = rec_of (loc s t) k'" for k'
    using assms Access by (cases k; cases k') (auto simp: access_step_def Let_def)
  then show ?thesis by blast
next
  case (Rel c ks)
  with assms show ?thesis by (cases ks) auto
next
  case Commit
  with assms show ?thesis by (auto simp: commit_step_def getCommitId_def Let_def split: if_splits)
qed (use assms in \<open>auto simp: take_global_def split: if_splits\<close>)

lemma ownership_step:
  assumes ex: "exclusion s" and G: "global_ok s" and O: "ownership s" and t: "t < numThreads (mon s)"
    and step: "work t v (pcs s t) s = Some s'"
  shows "ownership s'"
proof -
  have mv: "moves t s s'" by (rule work_moves [OF t step])
  have gt: "gheld (pcs s t) \<longrightarrow> global_mutex s = Some t" using G t by (simp add: global_ok_def)
  from own_growth [OF step gt] show ?thesis
  proof
    assume same: "\<forall>k. own (pcs s' t) k \<longrightarrow> own (pcs s t) k"
    have "lset own s' \<subseteq> lset own s"
    proof
      fix e assume "e \<in> lset own s'"
      then obtain u k where e: "e = (u, k, rec_of (loc s' u) k)" "u < numThreads (mon s)" "own (pcs s' u) k"
        using mv by (auto simp: lset_def moves_def)
      show "e \<in> lset own s"
      proof (cases "u = t")
        case True
        with e same have "own (pcs s t) k" by simp
        then have "pcs s t \<noteq> Start" by auto
        with True e \<open>own (pcs s t) k\<close> work_loc [OF step] show ?thesis by (auto simp: lset_def)
      next
        case False
        with e mv show ?thesis by (auto simp: lset_def moves_def)
      qed
    qed
    then show ?thesis by (rule ownership_sub [OF O])
  next
    assume "\<exists>k. held (pcs s t) k \<and> global_mutex s \<in> {None, Some t} \<and> (\<forall>k'. own (pcs s' t) k' \<longleftrightarrow> own (pcs s t) k' \<or> k' = k)"
    then obtain k where grow: "held (pcs s t) k" "global_mutex s \<in> {None, Some t}"
      "\<forall>k'. own (pcs s' t) k' \<longleftrightarrow> own (pcs s t) k' \<or> k' = k" by blast
    have "pcs s t \<noteq> Start" using grow(1) by auto
    then have "lset own s' = insert (t, k, rec_of (loc s t) k) (lset own s)"
      using work_loc [OF step] grow(3) by (intro lset_insert [OF mv]) auto
    then show ?thesis using ownership_grow [OF ex G O t] grow by blast
  qed
qed


section \<open>The values\<close>

text \<open>
  The log replayed: a commit changes the records \<open>j\<close> and \<open>k\<close> to the values it prints.  A log
  is right if the commits are numbered from one and every line is the transaction applied
  to the state that the commits before it have left.
\<close>

definition apply_line :: "commit_line \<Rightarrow> (nat \<Rightarrow> 32 word) \<Rightarrow> nat \<Rightarrow> 32 word" where
  "apply_line e db = db(cj e := db (cj e) + db (ci e) + 1, ck e := db (ck e) - db (ci e))"

definition line_ok :: "nat \<Rightarrow> (nat \<Rightarrow> 32 word) \<Rightarrow> commit_line \<Rightarrow> bool" where
  "line_ok n db e \<longleftrightarrow> cid e = int n + 1 \<and> ci e \<noteq> cj e \<and> cj e \<noteq> ck e \<and> ci e \<noteq> ck e \<and>
     vi e = apply_line e db (ci e) \<and> vj e = apply_line e db (cj e) \<and> vk e = apply_line e db (ck e)"

fun replay :: "(nat \<Rightarrow> 32 word) \<Rightarrow> commit_line list \<Rightarrow> nat \<Rightarrow> 32 word" where
  "replay db [] = db"
| "replay db (e # es) = replay (apply_line e db) es"

fun log_ok :: "nat \<Rightarrow> (nat \<Rightarrow> 32 word) \<Rightarrow> commit_line list \<Rightarrow> bool" where
  "log_ok n db [] \<longleftrightarrow> True"
| "log_ok n db (e # es) \<longleftrightarrow> line_ok n db e \<and> log_ok (Suc n) (apply_line e db) es"

lemma replay_snoc: "replay db (es @ [e]) = apply_line e (replay db es)"
  by (induction es arbitrary: db) simp_all

lemma log_ok_snoc: "log_ok n db (es @ [e]) \<longleftrightarrow> log_ok n db es \<and> line_ok (n + length es) (replay db es) e"
  by (induction es arbitrary: n db) simp_all

abbreviation db_of :: "sys \<Rightarrow> nat \<Rightarrow> 32 word" where
  "db_of s \<equiv> replay (\<lambda>_. 100) (outFile s)"

definition thread_vals :: "sys \<Rightarrow> nat \<Rightarrow> bool" where
  "thread_vals s t \<longleftrightarrow> (let l = loc s t; p = pcs s t in
     (p \<noteq> Start \<and> p \<noteq> Exit \<longrightarrow> li l \<noteq> lj l \<and> lj l \<noteq> lk l \<and> li l \<noteq> lk l) \<and>
     (did p R \<longrightarrow> i_value l = db_of s (li l)) \<and>
     (did p W1 \<longrightarrow> j_value l = db_of s (lj l) \<and> mread (lj l) (mon s) = j_value l + i_value l + 1) \<and>
     (did p W2 \<longrightarrow> k_value l = db_of s (lk l) \<and> mread (lk l) (mon s) = k_value l - i_value l))"

definition dirty :: "sys \<Rightarrow> nat \<Rightarrow> bool" where
  "dirty s x \<longleftrightarrow> (\<exists>t k. (t, k, x) \<in> lset did s \<and> k \<noteq> R)"

definition vals :: "sys \<Rightarrow> bool" where
  "vals s \<longleftrightarrow> (\<forall>t < numThreads (mon s). thread_vals s t) \<and> (\<forall>x. dirty s x \<or> mread x (mon s) = db_of s x)"

lemma dirty_own:
  assumes "ownership s" and "dirty s x" and "(t, k, x) \<in> lset own s"
  shows "\<exists>k'. (t, k', x) \<in> lset did s \<and> k' \<noteq> R"
proof -
  obtain u k' where u: "(u, k', x) \<in> lset did s" "k' \<noteq> R" using assms(2) by (auto simp: dirty_def)
  then have "(u, k', x) \<in> lset own s" using did_own by (auto simp: lset_def)
  then have "u = t" using assms(1,3) u(2) unfolding ownership_def by blast
  with u show ?thesis by blast
qed


lemma did_mono: "did p W1 \<Longrightarrow> did p R" "did p W2 \<Longrightarrow> did p W1"
  by (cases p; auto)+

lemma thread_vals_other:
  assumes "thread_vals s u" and "pcs s' u = pcs s u" and "loc s' u = loc s u"
    and "\<And>k. did (pcs s u) k \<Longrightarrow> db_of s' (rec_of (loc s u) k) = db_of s (rec_of (loc s u) k)"
    and "\<And>k. did (pcs s u) k \<Longrightarrow> k \<noteq> R \<Longrightarrow> mread (rec_of (loc s u) k) (mon s') = mread (rec_of (loc s u) k) (mon s)"
  shows "thread_vals s' u"
  using assms(1) assms(4) [of R] assms(4) [of W1] assms(4) [of W2] assms(5) [of W1] assms(5) [of W2]
  unfolding thread_vals_def Let_def assms(2,3) by simp

lemma vals_quiet:
  assumes V: "vals s" and mv: "moves t s s'"
    and same: "\<And>x. mread x (mon s') = mread x (mon s)" "outFile s' = outFile s"
    and did: "\<And>k. k \<noteq> R \<Longrightarrow> did (pcs s' t) k = did (pcs s t) k" "did (pcs s' t) R \<Longrightarrow> did (pcs s t) R"
    and loc: "did (pcs s t) R \<Longrightarrow> loc s' t = loc s t"
    and dist: "pcs s' t \<noteq> Start \<Longrightarrow> pcs s' t \<noteq> Exit \<Longrightarrow>
      li (loc s' t) \<noteq> lj (loc s' t) \<and> lj (loc s' t) \<noteq> lk (loc s' t) \<and> li (loc s' t) \<noteq> lk (loc s' t)"
  shows "vals s'"
proof -
  have t: "t < numThreads (mon s)" and n: "numThreads (mon s') = numThreads (mon s)" using mv by (simp_all add: moves_def)
  have "thread_vals s' t"
  proof (cases "did (pcs s t) R")
    case True
    have "thread_vals s t" using V t by (simp add: vals_def)
    then show ?thesis using did same dist loc [OF True] unfolding thread_vals_def Let_def by simp
  next
    case False
    then have "\<not> did (pcs s' t) k" for k using did did_mono by (cases k) blast+
    then show ?thesis using dist unfolding thread_vals_def Let_def by simp
  qed
  moreover have "thread_vals s' u" if u: "u < numThreads (mon s)" "u \<noteq> t" for u
    by (rule thread_vals_other [of s u]) (use u V mv same in \<open>auto simp: vals_def moves_def\<close>)
  moreover have "dirty s' x = dirty s x" for x
  proof -
    have "(u, k, x) \<in> lset did s' \<longleftrightarrow> (u, k, x) \<in> lset did s" if "k \<noteq> R" for u k
    proof (cases "u = t")
      case True
      have "did (pcs s t) k \<Longrightarrow> loc s' t = loc s t" using that loc did_mono by (cases k) auto
      with True did(1) [OF that] n show ?thesis by (auto simp: lset_def)
    next
      case False
      with mv show ?thesis by (auto simp: lset_def moves_def)
    qed
    then show ?thesis by (auto simp: dirty_def)
  qed
  ultimately show ?thesis using V same n unfolding vals_def by metis
qed

lemma own_clean:
  assumes "ownership s" and "vals s" and "(t, k, x) \<in> lset own s" and "\<And>k'. did (pcs s t) k' \<Longrightarrow> k' \<noteq> R \<Longrightarrow> rec_of (loc s t) k' \<noteq> x"
  shows "mread x (mon s) = db_of s x"
proof -
  have "\<not> dirty s x" using dirty_own [OF assms(1) _ assms(3)] assms(4) by (auto simp: lset_def)
  with assms(2) show ?thesis by (auto simp: vals_def)
qed

text \<open>No other thread has written a record that a thread owns, and none has read one that it owns for writing.\<close>

lemma own_others:
  assumes "ownership s" and "(t, k, x) \<in> lset own s" and "u < numThreads (mon s)" and "u \<noteq> t"
    and "did (pcs s u) k'" and "rec_of (loc s u) k' = x"
  shows "k = R \<and> k' = R"
proof -
  have "(u, k', x) \<in> lset own s" using assms did_own by (auto simp: lset_def)
  with assms(1,2,4) show ?thesis unfolding ownership_def by blast
qed

lemma vals_access:
  assumes V: "vals s" and O: "ownership s" and t: "t < numThreads (mon s)" and pc: "pcs s t = Access k"
    and step: "work t v (pcs s t) s = Some s'"
  shows "vals s'"
proof -
  let ?l = "loc s t" and ?x = "rec_of (loc s t) k"
  have mv: "moves t s s'" by (rule work_moves [OF t step])
  have s': "s' = access_step t k s" using step pc by simp
  have tv: "thread_vals s t" using V t by (simp add: vals_def)
  have dist: "li ?l \<noteq> lj ?l" "lj ?l \<noteq> lk ?l" "li ?l \<noteq> lk ?l" using tv pc by (simp_all add: thread_vals_def Let_def)
  have o: "(t, k, ?x) \<in> lset own s" using t pc by (simp add: lset_def)
  have clean: "mread ?x (mon s) = db_of s ?x"
    using own_clean [OF O V o] pc dist by (cases k) auto
  have ds: "lset did s' = insert (t, k, ?x) (lset did s)"
  proof (rule lset_insert [OF mv])
    show "did (pcs s' t) k' \<longleftrightarrow> did (pcs s t) k' \<or> k' = k" for k'
      using s' pc by (cases k; cases k') (auto simp: access_step_def Let_def)
    show "rec_of (loc s' t) k' = rec_of (loc s t) k'" for k' using work_loc [OF step] pc by auto
  qed
  have out: "outFile s' = outFile s" using s' by (cases k) (auto simp: access_step_def Let_def)
  have rd: "mread y (mon s') = mread y (mon s)" if "y \<noteq> ?x \<or> k = R" for y
    using that s' by (cases k) (auto simp: access_step_def Let_def)
  have "thread_vals s' t"
    using tv pc s' clean dist by (cases k) (auto simp: thread_vals_def Let_def access_step_def)
  moreover have "thread_vals s' u" if u: "u < numThreads (mon s)" "u \<noteq> t" for u
  proof (rule thread_vals_other [of s u])
    show "thread_vals s u" using V u by (simp add: vals_def)
    show "pcs s' u = pcs s u" "loc s' u = loc s u" using mv u by (auto simp: moves_def)
    show "db_of s' (rec_of (loc s u) k') = db_of s (rec_of (loc s u) k')" for k' using out by simp
    show "mread (rec_of (loc s u) k') (mon s') = mread (rec_of (loc s u) k') (mon s)" if "did (pcs s u) k'" "k' \<noteq> R" for k'
      using own_others [OF O o u that(1)] that(2) by (intro rd) blast
  qed
  moreover have "dirty s' x \<or> mread x (mon s') = db_of s' x" for x
  proof (cases "x = ?x \<and> k \<noteq> R")
    case True
    then show ?thesis using ds by (auto simp: dirty_def)
  next
    case False
    then have "mread x (mon s') = mread x (mon s)" by (intro rd) auto
    moreover have "dirty s x \<Longrightarrow> dirty s' x" using ds by (auto simp: dirty_def)
    ultimately show ?thesis using V out by (auto simp: vals_def)
  qed
  ultimately show ?thesis using mv by (simp add: vals_def moves_def) blast
qed


text \<open>
  The thread ends its part and the records it has written get the values of the log: it
  gives up and restores them, or it commits and the log changes.
\<close>

lemma vals_end:
  assumes V: "vals s" and O: "ownership s" and mv: "moves t s s'" and none: "\<And>k. \<not> did (pcs s' t) k"
    and dist: "pcs s' t \<noteq> Start \<Longrightarrow> pcs s' t \<noteq> Exit \<Longrightarrow>
      li (loc s' t) \<noteq> lj (loc s' t) \<and> lj (loc s' t) \<noteq> lk (loc s' t) \<and> li (loc s' t) \<noteq> lk (loc s' t)"
    and mine: "\<And>k. did (pcs s t) k \<Longrightarrow> mread (rec_of (loc s t) k) (mon s') = db_of s' (rec_of (loc s t) k)"
    and rest: "\<And>x. (\<And>k. did (pcs s t) k \<Longrightarrow> k \<noteq> R \<Longrightarrow> rec_of (loc s t) k \<noteq> x) \<Longrightarrow> db_of s' x = db_of s x"
      "\<And>x. (\<And>k. did (pcs s t) k \<Longrightarrow> rec_of (loc s t) k \<noteq> x) \<Longrightarrow> mread x (mon s') = mread x (mon s)"
    and ri: "did (pcs s t) R \<Longrightarrow> mread (li (loc s t)) (mon s') = mread (li (loc s t)) (mon s)"
  shows "vals s'"
proof -
  have t: "t < numThreads (mon s)" using mv by (simp add: moves_def)
  have o: "(t, k, rec_of (loc s t) k) \<in> lset own s" if "did (pcs s t) k" for k
    using that t did_own by (auto simp: lset_def)
  have ds: "lset did s' = {e \<in> lset did s. fst e \<noteq> t}" using lset_drop [OF mv, of did] none by blast
  have "thread_vals s' t" using none dist by (simp add: thread_vals_def Let_def)
  moreover have "thread_vals s' u" if u: "u < numThreads (mon s)" "u \<noteq> t" for u
  proof (rule thread_vals_other [of s u])
    show "thread_vals s u" using V u by (simp add: vals_def)
    show "pcs s' u = pcs s u" "loc s' u = loc s u" using mv u by (auto simp: moves_def)
    fix k' assume k': "did (pcs s u) k'"
    show "db_of s' (rec_of (loc s u) k') = db_of s (rec_of (loc s u) k')"
    proof (rule rest(1))
      fix k assume "did (pcs s t) k" "k \<noteq> R"
      with own_others [OF O o u k'] show "rec_of (loc s t) k \<noteq> rec_of (loc s u) k'" by metis
    qed
    assume "k' \<noteq> R"
    with own_others [OF O o u k'] show "mread (rec_of (loc s u) k') (mon s') = mread (rec_of (loc s u) k') (mon s)"
      by (intro rest(2)) metis
  qed
  moreover have "dirty s' x \<or> mread x (mon s') = db_of s' x" for x
  proof (cases "\<exists>k. did (pcs s t) k \<and> rec_of (loc s t) k = x")
    case True
    then show ?thesis using mine by blast
  next
    case False
    then have same: "mread x (mon s') = mread x (mon s)" "db_of s' x = db_of s x" using rest by blast+
    have "dirty s' x" if "dirty s x"
    proof -
      from that obtain u k where u: "(u, k, x) \<in> lset did s" "k \<noteq> R" by (auto simp: dirty_def)
      then have "u \<noteq> t" using False by (auto simp: lset_def)
      with u ds show ?thesis by (auto simp: dirty_def)
    qed
    then show ?thesis using V same by (auto simp: vals_def)
  qed
  ultimately show ?thesis using mv by (simp add: vals_def moves_def) blast
qed

definition orders :: "sys \<Rightarrow> bool" where
  "orders s \<longleftrightarrow> 0 \<le> order s \<and> int (length (outFile s)) = min (order s) (max 0 (max_order s)) \<and>
     (\<forall>t < numThreads (mon s). pcs s t = Exit \<longrightarrow> max_order s \<le> order s) \<and> log_ok 0 (\<lambda>_. 100) (outFile s)"

lemma vals_commit:
  assumes V: "vals s" and O: "ownership s" and Q: "orders s" and t: "t < numThreads (mon s)" and pc: "pcs s t = Commit"
    and step: "work t v (pcs s t) s = Some s'"
  shows "vals s' \<and> orders s'"
proof -
  let ?l = "loc s t"
  have mv: "moves t s s'" by (rule work_moves [OF t step])
  have tv: "thread_vals s t" using V t by (simp add: vals_def)
  have dist: "li ?l \<noteq> lj ?l" "lj ?l \<noteq> lk ?l" "li ?l \<noteq> lk ?l" using tv pc by (simp_all add: thread_vals_def Let_def)
  have own: "(t, R, li ?l) \<in> lset own s" using t pc by (simp add: lset_def)
  have i: "mread (li ?l) (mon s) = db_of s (li ?l)"
    by (rule own_clean [OF O V own]) (metis (full_types) LockType.exhaust dist(1,3) rec_of_simps(2,3))
  have ijk: "i_value ?l = db_of s (li ?l)" "j_value ?l = db_of s (lj ?l)" "k_value ?l = db_of s (lk ?l)"
    "mread (lj ?l) (mon s) = db_of s (lj ?l) + db_of s (li ?l) + 1" "mread (lk ?l) (mon s) = db_of s (lk ?l) - db_of s (li ?l)"
    using tv pc by (auto simp: thread_vals_def Let_def)
  have rec: "rec_of ?l k \<in> {li ?l, lj ?l, lk ?l}" for k by (cases k) auto
  show ?thesis
  proof (cases "order s + 1 \<le> max_order s")
    case True
    define e where "e = \<lparr>by_thread = t, cid = order s + 1, ci = li ?l, cj = lj ?l, ck = lk ?l,
      vi = mread (li ?l) (mon s), vj = mread (lj ?l) (mon s), vk = mread (lk ?l) (mon s)\<rparr>"
    have s': "mon s' = mon s" "outFile s' = outFile s @ [e]" "pcs s' = (pcs s)(t := Start)" "loc s' = loc s"
      "order s' = order s + 1" "max_order s' = max_order s"
      using step pc True by (auto simp: commit_step_def getCommitId_def Let_def e_def)
    have db: "db_of s' = apply_line e (db_of s)" by (simp add: s' replay_snoc)
    have al: "apply_line e (db_of s) x = (if x = lk ?l then db_of s (lk ?l) - db_of s (li ?l)
        else if x = lj ?l then db_of s (lj ?l) + db_of s (li ?l) + 1 else db_of s x)" for x
      by (simp add: apply_line_def e_def)
    have len: "int (length (outFile s)) = order s" using Q True by (auto simp: orders_def)
    have "line_ok (length (outFile s)) (db_of s) e"
      unfolding line_ok_def al using len dist i ijk by (simp add: e_def)
    then have "orders s'" using Q len True t by (auto simp: orders_def s' log_ok_snoc)
    moreover have "vals s'"
    proof (rule vals_end [OF V O mv])
      show "mread (rec_of ?l k) (mon s') = db_of s' (rec_of ?l k)" for k
        unfolding db al s'(1) using i ijk dist by (cases k) auto
      show "db_of s' x = db_of s x" if "\<And>k. did (pcs s t) k \<Longrightarrow> k \<noteq> R \<Longrightarrow> rec_of ?l k \<noteq> x" for x
        unfolding db al using that [of W1] that [of W2] pc by auto
    qed (simp_all add: s')
    ultimately show ?thesis by blast
  next
    case False
    have s': "mon s' = mwrite (lk ?l) (k_value ?l) (mwrite (lj ?l) (j_value ?l) (mwrite (li ?l) (i_value ?l) (mon s)))"
      "outFile s' = outFile s" "pcs s' = (pcs s)(t := Exit)" "loc s' = loc s"
      "order s' = order s + 1" "max_order s' = max_order s"
      using step pc False by (auto simp: commit_step_def getCommitId_def Let_def)
    have "orders s'" using Q False by (auto simp: orders_def s' min_def max_def)
    moreover have "vals s'"
    proof (rule vals_end [OF V O mv])
      show "mread (rec_of ?l k) (mon s') = db_of s' (rec_of ?l k)" for k
        unfolding s' using ijk dist by (cases k) auto
      show "mread x (mon s') = mread x (mon s)" if "\<And>k. did (pcs s t) k \<Longrightarrow> rec_of ?l k \<noteq> x" for x
        using that [of R] that [of W1] that [of W2] pc by (simp add: s')
    qed (use i ijk dist in \<open>simp_all add: s'\<close>)
    ultimately show ?thesis by blast
  qed
qed


lemma vals_check:
  assumes V: "vals s" and O: "ownership s" and t: "t < numThreads (mon s)" and pc: "pcs s t = Check k"
    and step: "work t v (pcs s t) s = Some s'"
  shows "vals s'"
proof -
  have mv: "moves t s s'" by (rule work_moves [OF t step])
  have tv: "thread_vals s t" using V t by (simp add: vals_def)
  have dist: "li (loc s t) \<noteq> lj (loc s t) \<and> lj (loc s t) \<noteq> lk (loc s t) \<and> li (loc s t) \<noteq> lk (loc s t)"
    using tv pc by (simp add: thread_vals_def Let_def)
  from step pc obtain st m where m: "deadlock_check (req_of t (loc s t) k) (mon s) = Some (st, m)"
    by (auto simp: check_step_def Let_def split: option.splits)
  show ?thesis
  proof (cases "k = W2 \<and> st = deadlock")
    case False
    show ?thesis
      by (rule vals_quiet [OF V mv]; cases st; cases k)
        (use False step pc m dist in \<open>auto simp: check_step_def deadlock_check_frame [OF m]\<close>)
  next
    case True
    then have s': "mon s' = mwrite (lj (loc s t)) (j_value (loc s t)) m" "outFile s' = outFile s"
      "pcs s' = (pcs s)(t := Rel False [R, W1])" "loc s' = loc s"
      using step pc m by (auto simp: check_step_def Let_def)
    have j: "j_value (loc s t) = db_of s (lj (loc s t))" using tv pc True by (simp add: thread_vals_def Let_def)
    have own: "(t, R, li (loc s t)) \<in> lset own s" using t pc True by (simp add: lset_def)
    have i: "mread (li (loc s t)) (mon s) = db_of s (li (loc s t))"
      by (rule own_clean [OF O V own]) (metis (full_types) LockType.exhaust dist rec_of_simps(2,3))
    have rd: "mread y (mon s') = (if y = lj (loc s t) then j_value (loc s t) else mread y (mon s))" for y
      by (simp add: s' deadlock_check_frame [OF m])
    show ?thesis
    proof (rule vals_end [OF V O mv])
      show "mread (rec_of (loc s t) k') (mon s') = db_of s' (rec_of (loc s t) k')" if "did (pcs s t) k'" for k'
        unfolding rd s'(2) using that pc True i j dist by (cases k') auto
      show "mread x (mon s') = mread x (mon s)" if "\<And>k. did (pcs s t) k \<Longrightarrow> rec_of (loc s t) k \<noteq> x" for x
        using that [of W1] pc True by (simp add: rd)
    qed (use dist in \<open>simp_all add: s'(2,3,4) rd\<close>)
  qed
qed

text \<open>Only a commit changes the order numbers and the output; a thread exits only at the end of the numbers.\<close>

lemma step_counters:
  assumes nc: "pcs s t \<noteq> Commit" and step: "work t v (pcs s t) s = Some s'"
  shows "order s' = order s \<and> max_order s' = max_order s \<and> outFile s' = outFile s \<and>
    (pcs s' t = Exit \<longrightarrow> max_order s \<le> order s)"
proof (cases "pcs s t")
  case Start
  with step show ?thesis by (cases v) (auto split: if_splits)
next
  case (Check k)
  with step show ?thesis by (cases k) (auto simp: check_step_def Let_def split: option.splits Status.splits)
next
  case (Access k)
  with step show ?thesis by (cases k) (auto simp: access_step_def Let_def)
next
  case (Rel c ks)
  with step show ?thesis by (cases ks) (auto split: if_splits)
qed (use step nc in \<open>auto simp: take_global_def split: if_splits\<close>)

lemma orders_step:
  assumes Q: "orders s" and t: "t < numThreads (mon s)" and nc: "pcs s t \<noteq> Commit"
    and step: "work t v (pcs s t) s = Some s'"
  shows "orders s'"
proof -
  have mv: "moves t s s'" by (rule work_moves [OF t step])
  have "pcs s' u = Exit \<longrightarrow> max_order s \<le> order s" if "u < numThreads (mon s)" for u
    using that Q step_counters [OF nc step] mv by (cases "u = t") (auto simp: orders_def moves_def)
  then show ?thesis using Q step_counters [OF nc step] mv by (auto simp: orders_def moves_def)
qed

text \<open>Taking and releasing a lock leave the values of the records.\<close>

lemma vals_acquire:
  assumes V: "vals s" and t: "t < numThreads (mon s)" and pc: "pcs s t = Acq k g lp"
    and step: "work t v (pcs s t) s = Some s'"
  shows "vals s'"
proof -
  from step pc obtain lp' m where m: "getLock_step t (req_of t (loc s t) k) lp (mon s) = Some (lp', m)"
    and s': "s' = goto t (if lp' = Locked then Flag k g else Acq k g lp') (s\<lparr>mon := m\<rparr>)" by auto
  from getLock_step_frame(4) [OF m] obtain r where
    r: "acquire t (lock_request (mon s) (rec_of (loc s t) k)) (req_of t (loc s t) k) lp (records (mon s) (rec_of (loc s t) k)) = Some (lp', r)"
    "records m = (records (mon s))(rec_of (loc s t) k := r)" by auto
  have rd: "mread x (mon s') = mread x (mon s)" for x
    using s' r(2) acquire_val [OF r(1)] by (simp add: mread_def)
  have tv: "thread_vals s t" using V t by (simp add: vals_def)
  show ?thesis
    by (rule vals_quiet [OF V work_moves [OF t step]]; cases "lp' = Locked")
      (use tv pc s' rd in \<open>auto simp: thread_vals_def Let_def\<close>)
qed

lemma vals_release:
  assumes V: "vals s" and t: "t < numThreads (mon s)" and pc: "pcs s t = RelU c k ks"
    and step: "work t v (pcs s t) s = Some s'"
  shows "vals s'"
proof -
  from step pc obtain m where m: "release_step (req_of t (loc s t) k) (mon s) = Some m"
    and s': "s' = goto t (Rel c ks) (s\<lparr>mon := m\<rparr>)" by auto
  from release_step_frame(4) [OF m] obtain r where
    r: "release (req_of t (loc s t) k) (records (mon s) (rec_of (loc s t) k)) = Some r"
    "records m = (records (mon s))(rec_of (loc s t) k := r)" by auto
  have rd: "mread x (mon s') = mread x (mon s)" for x
    using s' r(2) release_val [OF r(1)] by (simp add: mread_def)
  have tv: "thread_vals s t" using V t by (simp add: vals_def)
  show ?thesis
    by (rule vals_quiet [OF V work_moves [OF t step]])
      (use tv pc s' rd in \<open>auto simp: thread_vals_def Let_def\<close>)
qed

text \<open>The steps that touch neither the records nor the local variables.\<close>

definition plain_pc :: "pc \<Rightarrow> bool" where
  "plain_pc p = (case p of Rel c ks \<Rightarrow> True | Flag k g \<Rightarrow> True | WantG k \<Rightarrow> True | Relock k \<Rightarrow> True
     | UnlockG k \<Rightarrow> True | WantCommit \<Rightarrow> True | Undone \<Rightarrow> True | _ \<Rightarrow> False)"

lemma plain_frame:
  assumes "plain_pc (pcs s t)" and "work t v (pcs s t) s = Some s'"
  shows "did (pcs s' t) k = did (pcs s t) k \<and> loc s' = loc s \<and> mread x (mon s') = mread x (mon s)"
proof (cases "pcs s t")
  case (Rel c ks)
  with assms show ?thesis by (cases ks; cases c) auto
next
  case (Flag k g)
  with assms show ?thesis by (cases g) auto
qed (use assms in \<open>auto simp: plain_pc_def take_global_def split: if_splits\<close>)

lemma vals_plain:
  assumes V: "vals s" and t: "t < numThreads (mon s)" and pc: "plain_pc (pcs s t)"
    and step: "work t v (pcs s t) s = Some s'"
  shows "vals s'"
proof -
  have "pcs s t \<noteq> Start" "pcs s t \<noteq> Exit" "pcs s t \<noteq> Commit"
    using pc by (auto simp: plain_pc_def)
  moreover have "thread_vals s t" using V t by (simp add: vals_def)
  ultimately show ?thesis
    by (intro vals_quiet [OF V work_moves [OF t step]])
      (use plain_frame [OF pc step] step_counters [OF _ step] in \<open>simp_all add: thread_vals_def Let_def\<close>)
qed

lemma vals_step:
  assumes V: "vals s" and O: "ownership s" and Q: "orders s" and t: "t < numThreads (mon s)"
    and step: "work t v (pcs s t) s = Some s'"
  shows "vals s' \<and> orders s'"
proof (cases "pcs s t = Commit")
  case True
  then show ?thesis by (rule vals_commit [OF V O Q t _ step])
next
  case False
  have "vals s'"
  proof (cases "pcs s t")
    case Start
    show ?thesis
      by (rule vals_quiet [OF V work_moves [OF t step]]) (use step Start in \<open>cases v; auto split: if_splits\<close>)+
  next
    case (Check k)
    then show ?thesis by (rule vals_check [OF V O t _ step])
  next
    case (Acq k g lp)
    then show ?thesis by (rule vals_acquire [OF V t _ step])
  next
    case (RelU c k ks)
    then show ?thesis by (rule vals_release [OF V t _ step])
  next
    case (Access k)
    then show ?thesis by (rule vals_access [OF V O t _ step])
  qed (use step False vals_plain [OF V t _ step] in \<open>auto simp: plain_pc_def\<close>)
  with orders_step [OF Q t False step] show ?thesis by blast
qed


section \<open>The invariant\<close>

definition trans_inv :: "sys \<Rightarrow> bool" where
  "trans_inv s \<longleftrightarrow> (\<forall>t < numThreads (mon s). wf_pc (pcs s t)) \<and> exclusion s \<and> global_ok s \<and> ownership s \<and> vals s \<and> orders s"

lemma lset_init: "(\<And>k. \<not> f Start k) \<Longrightarrow> lset f (Transaction n r e) = {}"
  by (simp add: lset_def Transaction_def)

lemma trans_inv_init: "trans_inv (Transaction n r e)"
proof -
  let ?s = "Transaction n r e"
  have l: "lset held ?s = {}" "lset claims ?s = {}" "lset own ?s = {}" "lset did ?s = {}"
    by (simp_all add: lset_init claims_def)
  have "exclusion ?s" unfolding exclusion_def l
    by (simp add: locks_ok_def Transaction_def Monitor_init_def Record_init_def)
  moreover have "ownership ?s" unfolding ownership_def l by simp
  moreover have "vals ?s" unfolding vals_def dirty_def l
    by (simp add: thread_vals_def mread_def Transaction_def Monitor_init_def Record_init_def)
  moreover have "global_ok ?s" by (simp add: global_ok_def Transaction_def)
  moreover have "orders ?s" by (simp add: orders_def Transaction_def)
  moreover have "wf_pc Start" by (simp add: wf_pc_def)
  ultimately show ?thesis by (simp add: trans_inv_def Transaction_def)
qed

lemma trans_inv_step:
  assumes "trans_step s s'" and inv: "trans_inv s"
  shows "trans_inv s'"
proof -
  obtain t v where t: "t < numThreads (mon s)" and step: "work t v (pcs s t) s = Some s'"
    using assms(1) by (auto simp: trans_step_def)
  have mv: "moves t s s'" by (rule work_moves [OF t step])
  have I: "wf_pc (pcs s t)" "exclusion s" "global_ok s" "ownership s" "vals s" "orders s"
    using inv t by (simp_all add: trans_inv_def)
  have "wf_pc (pcs s' u)" if "u < numThreads (mon s')" for u
    using that mv inv wf_step [OF I(1) step] by (cases "u = t") (auto simp: moves_def trans_inv_def)
  then show ?thesis unfolding trans_inv_def
    using exclusion_step [OF I(2) t I(1) step] global_step [OF I(3) t step] ownership_step [OF I(2,3,4) t step]
      vals_step [OF I(5,4,6) t step] by blast
qed

interpretation tr: safety "\<lambda>s. s = Transaction n r e" trans_step trans_inv for n r e
  by unfold_locales (auto intro: trans_inv_init trans_inv_step)

lemma reach_const:
  assumes "reach (\<lambda>s. s = Transaction n r e) trans_step s"
  shows "max_order s = e \<and> numThreads (mon s) = n"
  using assms
proof (induction rule: reach.induct)
  case (reach_init s)
  then show ?case by (simp add: Transaction_def Monitor_init_def)
next
  case (reach_step s s')
  then obtain t v where "t < numThreads (mon s)" "work t v (pcs s t) s = Some s'" by (auto simp: trans_step_def)
  from work_moves [OF this] reach_step.IH show ?case by (simp add: moves_def)
qed

lemma exec_reach:
  assumes "exec ts s = Some s'" and "reach init trans_step s"
  shows "reach init trans_step s'"
  using assms
proof (induction ts s rule: exec.induct)
  case (1 s)
  then show ?case by simp
next
  case (2 t v ts s)
  from 2(2) obtain s1 where s1: "t < numThreads (mon s)" "work t v (pcs s t) s = Some s1" "exec ts s1 = Some s'"
    by (auto split: if_splits Option.bind_splits)
  then have "reach init trans_step s1" using reach.reach_step [OF 2(3), of s1] unfolding trans_step_def by blast
  with 2(1) s1 show ?case by blast
qed

text \<open>
  C2: whatever the interleaving of the threads, the transactions are serializable in the
  order of their commits: the lines of the log are numbered \<open>1, 2, ...\<close> up to at most the
  number asked for, and each gives the values that its transaction yields on the state left
  by the commits before it, starting from \<open>100\<close> everywhere.  When all threads have been
  joined there are exactly as many lines as asked for and the records have the values of
  the last committed state: what was done by transactions over the limit, or given up
  because of a deadlock, has been undone.
\<close>

theorem transactions_serializable:
  assumes "reach (\<lambda>s. s = Transaction n r e) trans_step s" and "0 < n" and "0 \<le> e"
  shows "log_ok 0 (\<lambda>_. 100) (outFile s) \<and> int (length (outFile s)) \<le> e \<and>
    (joined s \<longrightarrow> int (length (outFile s)) = e \<and> (\<forall>x. mread x (mon s) = replay (\<lambda>_. 100) (outFile s) x))"
proof -
  have e: "max_order s = e" "numThreads (mon s) = n" using reach_const [OF assms(1)] by auto
  have inv: "trans_inv s" by (rule tr.reach_inv [OF assms(1)])
  then have Q: "orders s" and V: "vals s" by (simp_all add: trans_inv_def)
  have "log_ok 0 (\<lambda>_. 100) (outFile s)" "int (length (outFile s)) \<le> e"
    using Q e assms(3) by (auto simp: orders_def)
  moreover have "int (length (outFile s)) = e" if "joined s"
  proof -
    have "max_order s \<le> order s" using that Q e assms(2) by (auto simp: joined_def orders_def)
    then show ?thesis using Q e assms(3) by (auto simp: orders_def)
  qed
  moreover have "mread x (mon s) = replay (\<lambda>_. 100) (outFile s) x" if "joined s" for x
  proof -
    have "\<not> dirty s x" using that by (auto simp: dirty_def lset_def joined_def)
    with V show ?thesis unfolding vals_def by blast
  qed
  ultimately show ?thesis by blast
qed

text \<open>One thread that has committed its transaction and returned.\<close>

lemma one_transaction:
  "case exec (replicate 37 (0, 0, 1, 2)) (Transaction 1 3 1) of None \<Rightarrow> False | Some s \<Rightarrow> pcs s 0 = Exit \<and> numThreads (mon s) = 1"
  by code_simp

theorem transactions_serializable_witness:
  "\<exists>s. reach (\<lambda>s. s = Transaction 1 3 1) trans_step s \<and> joined s \<and> length (outFile s) = 1 \<and>
    log_ok 0 (\<lambda>_. 100) (outFile s) \<and> (\<forall>x. mread x (mon s) = replay (\<lambda>_. 100) (outFile s) x)"
proof -
  obtain s where s: "exec (replicate 37 (0, 0, 1, 2)) (Transaction 1 3 1) = Some s" "pcs s 0 = Exit" "numThreads (mon s) = 1"
    using one_transaction by (auto split: option.splits)
  have r: "reach (\<lambda>s. s = Transaction 1 3 1) trans_step s" by (rule exec_reach [OF s(1)]) (rule reach_init, rule refl)
  moreover have "joined s" using s by (simp add: joined_def)
  ultimately show ?thesis using transactions_serializable [OF r] by auto
qed


section \<open>The branch that keeps the global mutex\<close>

fun queued :: "pc \<Rightarrow> LockType \<Rightarrow> bool" where
  "queued (WantG ty) k = (rk k < rk ty)"
| "queued (Check ty) k = (rk k < rk ty)"
| "queued (Acq ty g lp) k = (rk k \<le> rk ty)"
| "queued (Flag ty g) k = (rk k \<le> rk ty)"
| "queued (Relock ty) k = (rk k \<le> rk ty)"
| "queued (UnlockG ty) k = (rk k \<le> rk ty)"
| "queued (Access ty) k = (rk k \<le> rk ty)"
| "queued WantCommit k = True"
| "queued (Rel c ks) k = (k \<in> set ks)"
| "queued (RelU c k' ks) k = (k \<in> set ks)"
| "queued p k = False"

text \<open>
  Every entry of a queue belongs to a request of its thread that has not been released, no
  request is in a queue twice, and a thread is waited for only while it has an entry.
\<close>

definition key :: "LockInfo \<Rightarrow> nat \<times> LockType" where
  "key r = (tid r, kind r)"

definition entry_ok :: "sys \<Rightarrow> nat \<Rightarrow> LockInfo \<Rightarrow> bool" where
  "entry_ok s x r \<longleftrightarrow> index r = x \<and> tid r < numThreads (mon s) \<and> queued (pcs s (tid r)) (kind r) \<and>
     rec_of (loc s (tid r)) (kind r) = x"

definition has_entry :: "Monitor \<Rightarrow> nat \<Rightarrow> bool" where
  "has_entry m u \<longleftrightarrow> (\<exists>x. \<exists>r \<in> set (lock_request m x). tid r = u)"

definition queues :: "sys \<Rightarrow> bool" where
  "queues s \<longleftrightarrow> (\<forall>x. (\<forall>r \<in> set (lock_request (mon s) x). entry_ok s x r) \<and> distinct (map key (lock_request (mon s) x))) \<and>
     (\<forall>u. dependThreads (mon s) u \<subseteq> {v. v < numThreads (mon s) \<and> has_entry (mon s) v})"

lemma entry_ok_move:
  assumes "entry_ok s x r" and "moves t s s'"
    and "\<And>k. queued (pcs s t) k \<Longrightarrow> k = kind r \<Longrightarrow> tid r = t \<Longrightarrow> queued (pcs s' t) k \<and> rec_of (loc s' t) k = rec_of (loc s t) k"
  shows "entry_ok s' x r"
  using assms unfolding entry_ok_def moves_def by (cases "tid r = t") auto

lemma queues_same:
  assumes "queues s" and "moves t s s'"
    and "\<And>k. queued (pcs s t) k \<Longrightarrow> queued (pcs s' t) k \<and> rec_of (loc s' t) k = rec_of (loc s t) k"
    and "lock_request (mon s') = lock_request (mon s)"
    and "\<And>u. dependThreads (mon s') u \<subseteq> dependThreads (mon s) u \<union> {v. v < numThreads (mon s) \<and> has_entry (mon s) v}"
  shows "queues s'"
proof -
  have "has_entry (mon s') = has_entry (mon s)" using assms(4) by (simp add: has_entry_def fun_eq_iff)
  moreover have "numThreads (mon s') = numThreads (mon s)" using assms(2) by (simp add: moves_def)
  moreover have "dependThreads (mon s') u \<subseteq> {v. v < numThreads (mon s) \<and> has_entry (mon s) v}" for u
    using assms(1) assms(5) [of u] unfolding queues_def by blast
  moreover have "entry_ok s' x r" if "r \<in> set (lock_request (mon s) x)" for x r
    using that assms(1,3) by (intro entry_ok_move [OF _ assms(2)]) (auto simp: queues_def)
  ultimately show ?thesis using assms(1,4) by (simp add: queues_def)
qed

lemma erase_first_set:
  assumes "distinct (map key q)" and "\<forall>r \<in> set q. index r = index req"
  shows "set (erase_first req q) = {r \<in> set q. key r \<noteq> key req} \<and> distinct (map key (erase_first req q))"
  using assms
proof (induction q)
  case Nil
  then show ?case by simp
next
  case (Cons r q)
  have eq: "same_req r req \<longleftrightarrow> key r = key req" using Cons.prems by (auto simp: same_req_def key_def)
  show ?case
  proof (cases "key r = key req")
    case True
    have ne: "key r \<notin> key ` set q" using Cons.prems(1) by simp
    then have "{r' \<in> set (r # q). key r' \<noteq> key req} = set q" unfolding True [symmetric] by (auto simp: image_iff)
    moreover have "erase_first req (r # q) = q" using True eq by simp
    ultimately show ?thesis using Cons.prems(1) by simp
  next
    case False
    with eq have e: "erase_first req (r # q) = r # erase_first req q" by simp
    have pr: "distinct (map key q)" "\<forall>r \<in> set q. index r = index req" using Cons.prems by simp_all
    note IH = Cons.IH [OF pr]
    have "key r \<notin> key ` set q" using Cons.prems(1) by simp
    then have "key r \<notin> key ` set (erase_first req q)" using conjunct1 [OF IH] by blast
    moreover have "{r' \<in> set (r # q). key r' \<noteq> key req} = insert r {r' \<in> set q. key r' \<noteq> key req}" using False by auto
    ultimately show ?thesis unfolding e using IH by simp
  qed
qed

lemma queues_delete:
  assumes Q: "queues s" and mv: "moves t s s'"
    and pc: "\<And>k'. queued (pcs s' t) k' \<longleftrightarrow> queued (pcs s t) k' \<and> k' \<noteq> k" and loc: "loc s' = loc s"
    and m: "mon s' = deleteLock (req_of t (loc s t) k) (mon s)"
    and x: "queued (pcs s t) k"
  shows "queues s'"
proof -
  let ?x = "rec_of (loc s t) k" and ?req = "req_of t (loc s t) k"
  have idx: "\<forall>r \<in> set (lock_request (mon s) y). index r = y" for y using Q by (auto simp: queues_def entry_ok_def)
  have d: "distinct (map key (lock_request (mon s) y))" for y using Q by (simp add: queues_def)
  have ef: "set (erase_first ?req (lock_request (mon s) ?x)) = {r \<in> set (lock_request (mon s) ?x). key r \<noteq> (t, k)}"
    "distinct (map key (erase_first ?req (lock_request (mon s) ?x)))"
    using erase_first_set [OF d, of ?x ?req] idx [of ?x] by (simp_all add: key_def [of ?req])
  have set: "r \<in> set (lock_request (mon s') y) \<longleftrightarrow> r \<in> set (lock_request (mon s) y) \<and> key r \<noteq> (t, k)" for y r
  proof (cases "y = ?x")
    case True
    then show ?thesis using ef(1) by (auto simp: m deleteLock_def)
  next
    case False
    have "key r \<noteq> (t, k)" if "r \<in> set (lock_request (mon s) y)"
      using that Q False by (auto simp: queues_def entry_ok_def key_def)
    then show ?thesis using False by (auto simp: m deleteLock_def)
  qed
  have "entry_ok s' y r" if r: "r \<in> set (lock_request (mon s') y)" for y r
  proof (rule entry_ok_move [OF _ mv])
    show "entry_ok s y r" using r set Q by (simp add: queues_def)
    show "queued (pcs s' t) k' \<and> rec_of (loc s' t) k' = rec_of (loc s t) k'"
      if "queued (pcs s t) k'" "k' = kind r" "tid r = t" for k'
      using that r set pc loc by (auto simp: key_def)
  qed
  moreover have "distinct (map key (lock_request (mon s') y))" for y
    using ef(2) d by (simp add: m deleteLock_def)
  moreover have "has_entry (mon s') v" if "has_entry (mon s) v" "v \<noteq> t" for v
    using that set by (fastforce simp: has_entry_def key_def)
  moreover have "dependThreads (mon s') u \<subseteq> dependThreads (mon s) u - {t}" for u by (auto simp: m deleteLock_def)
  then have "dependThreads (mon s') u \<subseteq> {v. v < numThreads (mon s') \<and> has_entry (mon s') v}" for u
    using Q mv calculation(3) unfolding queues_def moves_def by fastforce
  ultimately show ?thesis by (simp add: queues_def)
qed

lemma queues_deps_ok: "queues s \<Longrightarrow> deps_ok (mon s)"
  by (auto simp: queues_def deps_ok_def entry_ok_def)

text \<open>A request that is not queued yet and is not a deadlock.\<close>

lemma queues_append:
  assumes Q: "queues s" and mv: "moves t s s'"
    and pc: "\<And>k'. queued (pcs s' t) k' \<longleftrightarrow> queued (pcs s t) k' \<or> k' = k" and new: "\<not> queued (pcs s t) k" and loc: "loc s' = loc s"
    and lr: "lock_request (mon s') = (lock_request (mon s))(rec_of (loc s t) k := lock_request (mon s) (rec_of (loc s t) k) @ [req_of t (loc s t) k])"
    and dp: "\<And>u. dependThreads (mon s') u \<subseteq> dependThreads (mon s) u \<union> {v. v < numThreads (mon s) \<and> has_entry (mon s) v}"
  shows "queues s'"
proof -
  let ?x = "rec_of (loc s t) k" and ?req = "req_of t (loc s t) k"
  have n: "numThreads (mon s') = numThreads (mon s)" "t < numThreads (mon s)" using mv by (auto simp: moves_def)
  have old: "entry_ok s' y r" if "r \<in> set (lock_request (mon s) y)" for y r
    using that Q pc loc by (intro entry_ok_move [OF _ mv]) (auto simp: queues_def)
  have "entry_ok s' y r" if "r \<in> set (lock_request (mon s') y)" for y r
    using that old n pc loc by (auto simp: lr entry_ok_def split: if_splits)
  moreover have "key ?req \<notin> key ` set (lock_request (mon s) y)" for y
    using Q new by (auto simp: queues_def entry_ok_def key_def)
  then have "distinct (map key (lock_request (mon s') y))" for y
    using Q by (auto simp: lr queues_def)
  moreover have "has_entry (mon s') v" if "has_entry (mon s) v" for v
    using that unfolding has_entry_def lr by (metis Un_iff fun_upd_apply set_append)
  then have "dependThreads (mon s') u \<subseteq> {v. v < numThreads (mon s') \<and> has_entry (mon s') v}" for u
    using dp [of u] Q n unfolding queues_def by fastforce
  ultimately show ?thesis by (simp add: queues_def)
qed


lemma queues_flag:
  assumes Q: "queues s" and mv: "moves t s s'" and loc: "loc s' = loc s"
    and pc: "\<And>k'. queued (pcs s' t) k' \<longleftrightarrow> queued (pcs s t) k'" and m: "mon s' = set_flag req (mon s)"
  shows "queues s'"
proof -
  let ?f = "\<lambda>r. if same_req r req then r\<lparr>getLock := True\<rparr> else r"
  have lr: "lock_request (mon s') y = (if y = index req then map ?f (lock_request (mon s) y) else lock_request (mon s) y)" for y
    by (simp add: m set_flag_def)
  have f: "key (?f r) = key r" "index (?f r) = index r" "tid (?f r) = tid r" "kind (?f r) = kind r" for r
    by (simp_all add: key_def)
  have keys: "map key (lock_request (mon s') y) = map key (lock_request (mon s) y)" for y
    by (simp add: lr comp_def f(1) cong: map_cong)
  have "entry_ok s' y r" if r: "r \<in> set (lock_request (mon s') y)" for y r
  proof -
    obtain r' where r': "r' \<in> set (lock_request (mon s) y)" "tid r = tid r'" "kind r = kind r'" "index r = index r'"
      using r f by (auto simp: lr split: if_splits)
    then have "entry_ok s' y r'" using Q pc loc by (intro entry_ok_move [OF _ mv]) (auto simp: queues_def)
    with r' show ?thesis by (simp add: entry_ok_def)
  qed
  moreover have "has_entry (mon s') v" if "has_entry (mon s) v" for v
  proof -
    obtain y r where "r \<in> set (lock_request (mon s) y)" "tid r = v" using \<open>has_entry (mon s) v\<close> by (auto simp: has_entry_def)
    then have "(v, kind r) \<in> set (map key (lock_request (mon s) y))" by (force simp: key_def)
    then have "(v, kind r) \<in> set (map key (lock_request (mon s') y))" by (simp only: keys)
    then show ?thesis by (auto simp: has_entry_def key_def)
  qed
  ultimately show ?thesis using Q mv keys unfolding queues_def moves_def by (simp add: m) blast
qed

lemma queues_check:
  assumes Q: "queues s" and t: "t < numThreads (mon s)" and pc: "pcs s t = Check k"
    and step: "work t v (pcs s t) s = Some s'"
  shows "queues s'"
proof -
  let ?req = "req_of t (loc s t) k" and ?x = "rec_of (loc s t) k"
  have mv: "moves t s s'" by (rule work_moves [OF t step])
  from step pc obtain st m where m: "deadlock_check ?req (mon s) = Some (st, m)"
    by (auto simp: check_step_def Let_def split: option.splits)
  have dpm: "dependThreads m u \<subseteq> dependThreads (mon s) u \<union> {v. v < numThreads (mon s) \<and> has_entry (mon s) v}" for u
  proof -
    have "dependThreads m = (dependThreads (mon s))(t := dependThreads (mon s) t \<union> new_deps ?req (lock_request (mon s) ?x))"
      using m by (auto simp: deadlock_check_def Let_def split: option.splits bool.splits)
    moreover have "new_deps ?req (lock_request (mon s) ?x) \<subseteq> {v. v < numThreads (mon s) \<and> has_entry (mon s) v}"
      using Q by (auto simp: new_deps_def has_entry_def queues_def entry_ok_def)
    ultimately show ?thesis by auto
  qed
  have lr: "lock_request m = (if st = deadlock then lock_request (mon s)
      else (lock_request (mon s))(?x := lock_request (mon s) ?x @ [?req]))"
    using m by (auto simp: deadlock_check_def Let_def split: option.splits bool.splits if_splits)
  have s': "loc s' = loc s" "lock_request (mon s') = lock_request m" "dependThreads (mon s') = dependThreads m"
    using step pc m by (cases st; cases k; auto simp: check_step_def Let_def)+
  show ?thesis
  proof (cases "st = deadlock")
    case True
    have "queued (pcs s' t) k' \<longleftrightarrow> queued (pcs s t) k'" for k'
      using step pc m True by (cases k) (auto simp: check_step_def Let_def)
    then show ?thesis using True lr s' dpm by (intro queues_same [OF Q mv]) simp_all
  next
    case False
    have "queued (pcs s' t) k' \<longleftrightarrow> queued (pcs s t) k' \<or> k' = k" for k'
      using step pc m False by (cases st) (auto simp: check_step_def Let_def rk_le)
    then show ?thesis using False lr s' dpm pc by (intro queues_append [OF Q mv, of k]) simp_all
  qed
qed

lemma queues_step:
  assumes Q: "queues s" and wf: "wf_pc (pcs s t)" and t: "t < numThreads (mon s)" and step: "work t v (pcs s t) s = Some s'"
  shows "queues s'"
proof -
  note mv = work_moves [OF t step]
  have plain: "queues s'" if "\<And>k. queued (pcs s t) k \<Longrightarrow> queued (pcs s' t) k" "pcs s t \<noteq> Start"
    "lock_request (mon s') = lock_request (mon s)" "dependThreads (mon s') = dependThreads (mon s)"
    using that work_loc [OF step] by (intro queues_same [OF Q mv]) auto
  show ?thesis
  proof (cases "pcs s t")
    case Start
    show ?thesis by (rule queues_same [OF Q mv]) (use Start step in \<open>cases v; auto split: if_splits\<close>)+
  next
    case (WantG k)
    show ?thesis by (rule plain) (use WantG step in \<open>auto simp: take_global_def split: if_splits\<close>)
  next
    case (Check k)
    then show ?thesis by (rule queues_check [OF Q t _ step])
  next
    case (Acq k g lp)
    from step Acq obtain lp' m where m: "getLock_step t (req_of t (loc s t) k) lp (mon s) = Some (lp', m)"
      and s': "s' = goto t (if lp' = Locked then Flag k g else Acq k g lp') (s\<lparr>mon := m\<rparr>)" by auto
    show ?thesis by (rule plain; cases "lp' = Locked") (use Acq s' getLock_step_frame [OF m] in simp_all)
  next
    case (Flag k g)
    have "queued (pcs s' t) k' \<longleftrightarrow> queued (pcs s t) k'" for k' using Flag step by (cases g) auto
    then show ?thesis using Flag step by (intro queues_flag [OF Q mv]) auto
  next
    case (Relock k)
    show ?thesis by (rule plain) (use Relock step in \<open>auto simp: take_global_def split: if_splits\<close>)
  next
    case (UnlockG k)
    show ?thesis by (rule plain) (use UnlockG step in auto)
  next
    case (Access k)
    show ?thesis by (rule plain; cases k) (use Access step in \<open>auto simp: access_step_def Let_def\<close>)
  next
    case WantCommit
    show ?thesis
      by (rule plain) (use WantCommit step in \<open>auto simp: take_global_def split: if_splits\<close>, metis LockType.exhaust)
  next
    case (Rel c ks)
    show ?thesis
    proof (cases ks)
      case Nil
      show ?thesis by (rule plain) (use Rel Nil step in auto)
    next
      case (Cons k ks')
      show ?thesis by (rule queues_delete [OF Q mv, of k]) (use Rel Cons step wf in \<open>auto simp: wf_pc_def\<close>)
    qed
  next
    case (RelU c k ks)
    from step RelU obtain m where m: "release_step (req_of t (loc s t) k) (mon s) = Some m"
      and s': "s' = goto t (Rel c ks) (s\<lparr>mon := m\<rparr>)" by auto
    show ?thesis by (rule plain) (use RelU s' release_step_frame [OF m] in simp_all)
  next
    case Undone
    show ?thesis by (rule plain) (use Undone step in auto)
  next
    case Commit
    show ?thesis by (rule plain) (use Commit step in \<open>auto simp: commit_step_def getCommitId_def Let_def split: if_splits\<close>)
  next
    case Exit
    with step show ?thesis by simp
  qed
qed


lemma queues_init: "queues (Transaction n r e)"
  by (simp add: queues_def Transaction_def Monitor_init_def)

interpretation qu: safety "\<lambda>s. s = Transaction n r e" trans_step
    "\<lambda>s. queues s \<and> (\<forall>t < numThreads (mon s). wf_pc (pcs s t))" for n r e
proof unfold_locales
  show "queues s \<and> (\<forall>t < numThreads (mon s). wf_pc (pcs s t))" if "s = Transaction n r e" for s
    using that queues_init by (simp add: Transaction_def wf_pc_def)
  show "queues s' \<and> (\<forall>t < numThreads (mon s'). wf_pc (pcs s' t))"
    if I: "queues s \<and> (\<forall>t < numThreads (mon s). wf_pc (pcs s t))" and S: "trans_step s s'" for s s'
  proof -
    obtain t v where t: "t < numThreads (mon s)" and step: "work t v (pcs s t) s = Some s'"
      using S by (auto simp: trans_step_def)
    have w: "wf_pc (pcs s t)" using I t by blast
    have "wf_pc (pcs s' u)" if "u < numThreads (mon s')" for u
      using that I work_moves [OF t step] wf_step [OF w step] by (cases "u = t") (auto simp: moves_def)
    with queues_step [OF _ w t step] I show ?thesis by blast
  qed
qed

text \<open>
  C26: the branch of \<open>work\<close> in which a thread continues without unlocking the global mutex,
  a deadlock at the request of the reader lock, is never taken: when a thread makes that
  request no other thread waits for it, so the search ends and finds no cycle.
\<close>

theorem reader_never_deadlocks:
  assumes "reach (\<lambda>s. s = Transaction n r e) trans_step s" and "t < n" and "pcs s t = Check R"
  shows "\<exists>st m. deadlock_check (req_of t (loc s t) R) (mon s) = Some (st, m) \<and> st \<noteq> deadlock"
proof -
  have Q: "queues s" using qu.reach_inv [OF assms(1)] by blast
  have n: "numThreads (mon s) = n" using reach_const [OF assms(1)] by blast
  let ?req = "req_of t (loc s t) R" and ?q = "lock_request (mon s) (li (loc s t))"
  define D where "D = (dependThreads (mon s))(t := dependThreads (mon s) t \<union> new_deps ?req ?q)"
  have no: "tid r \<noteq> t" if "r \<in> set (lock_request (mon s) x)" for r x
  proof -
    have "entry_ok s x r" using that Q by (simp add: queues_def)
    then show ?thesis using assms(3) by (auto simp: entry_ok_def)
  qed
  then have "\<not> has_entry (mon s) t" by (auto simp: has_entry_def)
  then have "t \<notin> dependThreads (mon s) u" for u using Q unfolding queues_def by blast
  moreover have "t \<notin> new_deps ?req ?q" using no by (auto simp: new_deps_def)
  ultimately have into: "t \<notin> D u" for u by (simp add: D_def)
  have "new_deps ?req ?q \<subseteq> {..<numThreads (mon s)}" using queues_deps_ok [OF Q] by (auto simp: new_deps_def deps_ok_def)
  then have bnd: "\<forall>u. D u \<subseteq> {..<numThreads (mon s)}" using queues_deps_ok [OF Q] by (simp add: deps_ok_def D_def)
  then have fin: "\<forall>u. finite (D u)" by (meson finite_lessThan finite_subset)
  have ne: "(u, t) \<notin> edges D" for u using into by (simp add: edges_def)
  have "(t, t) \<notin> (edges D)\<^sup>+"
  proof
    assume "(t, t) \<in> (edges D)\<^sup>+"
    then show False by (cases rule: tranclE) (use ne in blast)+
  qed
  then have "find_cycle D (numThreads (mon s)) t (sorted_list_of_set (D t)) {} = Some False"
    using find_cycle_iff [OF fin bnd, of t] by simp
  then show ?thesis by (simp add: deadlock_check_def Let_def D_def)
qed

theorem reader_never_deadlocks_witness:
  "\<exists>s. reach (\<lambda>s. s = Transaction 1 3 1) trans_step s \<and> pcs s 0 = Check R \<and>
    (\<exists>st m. deadlock_check (req_of 0 (loc s 0) R) (mon s) = Some (st, m) \<and> st \<noteq> deadlock)"
proof -
  have "case exec [(0, 0, 1, 2), (0, 0, 1, 2)] (Transaction 1 3 1) of None \<Rightarrow> False | Some s \<Rightarrow> pcs s 0 = Check R"
    by code_simp
  then obtain s where s: "exec [(0, 0, 1, 2), (0, 0, 1, 2)] (Transaction 1 3 1) = Some s" "pcs s 0 = Check R"
    by (auto split: option.splits)
  have r: "reach (\<lambda>s. s = Transaction 1 3 1) trans_step s" by (rule exec_reach [OF s(1)]) (rule reach_init, rule refl)
  with reader_never_deadlocks [OF r _ s(2)] s(2) show ?thesis by auto
qed


section \<open>A livelock\<close>

text \<open>
  Thread \<open>1\<close> asks for record \<open>1\<close> while thread \<open>0\<close> writes it, and takes the mutex of the record
  between the \<open>deleteLock\<close> and the unlock of thread \<open>0\<close>: its request is now the first, so the
  wait returns at once, but \<open>writing\<close> is still set.
\<close>

definition livelock_run :: "(nat \<times> nat \<times> nat \<times> nat) list" where
  "livelock_run = replicate 18 (0, 0, 1, 2) @ replicate 3 (1, 1, 0, 2) @ replicate 13 (0, 0, 1, 2) @ replicate 2 (1, 1, 0, 2)"

definition spinning :: "sys \<Rightarrow> bool" where
  "spinning s \<longleftrightarrow> numThreads (mon s) = 2 \<and> pcs s 0 = RelU True W1 [W2] \<and> lj (loc s 0) = 1 \<and>
     pcs s 1 \<in> {Acq R False Pred, Acq R False TestWriting} \<and> li (loc s 1) = 1 \<and>
     mtx (records (mon s) 1) = Some 1 \<and> writing (records (mon s) 1) \<and>
     lock_request (mon s) 1 = [req_of 1 (loc s 1) R] \<and> outFile s = []"

lemma livelock_run_spins: "case exec livelock_run (Transaction 2 3 5) of None \<Rightarrow> False
    | Some s \<Rightarrow> numThreads (mon s) = 2 \<and> pcs s 0 = RelU True W1 [W2] \<and> lj (loc s 0) = 1 \<and>
     pcs s 1 = Acq R False TestWriting \<and> li (loc s 1) = 1 \<and>
     mtx (records (mon s) 1) = Some 1 \<and> writing (records (mon s) 1) \<and>
     lock_request (mon s) 1 = [req_of 1 (loc s 1) R] \<and> outFile s = []"
  by code_simp

lemma spinning_step:
  assumes "spinning s" and "trans_step s s'"
  shows "spinning s'"
proof -
  obtain t v where t: "t < 2" and step: "work t v (pcs s t) s = Some s'"
    using assms by (auto simp: trans_step_def spinning_def)
  have "t \<noteq> 0"
  proof
    assume "t = 0"
    with step assms(1) show False
      by (auto simp: spinning_def release_step_def release_def unlockExclusive_def)
  qed
  then have "t = 1" using t by simp
  with step assms(1) show ?thesis
    by (auto simp: spinning_def getLock_step_def acquire_def checkQueue_def)
qed

lemma spinning_moves:
  assumes "spinning s"
  shows "\<exists>s'. trans_step s s'"
proof -
  have "pcs s 1 = Acq R False Pred \<or> pcs s 1 = Acq R False TestWriting" using assms by (simp add: spinning_def)
  then have "\<exists>s'. work 1 (0, 0, 0) (pcs s 1) s = Some s'"
    using assms by (auto simp: spinning_def getLock_step_def acquire_def checkQueue_def)
  moreover have "1 < numThreads (mon s)" using assms by (simp add: spinning_def)
  ultimately show ?thesis unfolding trans_step_def by blast
qed

interpretation sp: safety spinning trans_step spinning
  by unfold_locales (auto intro: spinning_step)

text \<open>
  C27: with two threads there is a run into a state from which the program never gets any
  further: thread \<open>1\<close> loops with the mutex of the record in its hands, thread \<open>0\<close> waits for
  that mutex with the global mutex in its hands, and whatever happens next, steps are
  taken for ever, nothing is committed and the threads are never joined.
\<close>

theorem transactions_livelock:
  "\<exists>s. reach (\<lambda>s. s = Transaction 2 3 5) trans_step s \<and>
    (\<forall>s'. trans_step\<^sup>*\<^sup>* s s' \<longrightarrow> (\<exists>s''. trans_step s' s'') \<and> pcs s' 0 = RelU True W1 [W2] \<and> outFile s' = [] \<and> \<not> joined s')"
proof -
  obtain s where s: "exec livelock_run (Transaction 2 3 5) = Some s" "spinning s"
    using livelock_run_spins by (auto simp: spinning_def split: option.splits)
  have "reach (\<lambda>s. s = Transaction 2 3 5) trans_step s" by (rule exec_reach [OF s(1)]) (rule reach_init, rule refl)
  moreover have "(\<exists>s''. trans_step s' s'') \<and> pcs s' 0 = RelU True W1 [W2] \<and> outFile s' = [] \<and> \<not> joined s'"
    if "trans_step\<^sup>*\<^sup>* s s'" for s'
  proof -
    have sp: "spinning s'" using sp.steps_inv [OF that s(2)] .
    moreover have "\<not> joined s'" using sp by (auto simp: spinning_def joined_def intro!: exI [of _ 0])
    ultimately show ?thesis using spinning_moves [OF sp] by (simp add: spinning_def)
  qed
  ultimately show ?thesis by blast
qed

theorem transactions_livelock_witness:
  "\<exists>s. reach (\<lambda>s. s = Transaction 2 3 5) trans_step s \<and> pcs s 0 = RelU True W1 [W2] \<and> (\<exists>s'. trans_step s s')"
  using transactions_livelock by blast


section \<open>Too few records\<close>

lemma random_get_few:
  assumes "set draws \<subseteq> {..<r}" and "r < 3" and "ret \<subseteq> {..<r}"
  shows "random_get draws ret = None"
  using assms(1,3)
proof (induction draws arbitrary: ret)
  case Nil
  have "card ret \<le> r" using Nil(2) by (metis card_lessThan card_mono finite_lessThan)
  with assms(2) show ?case by (simp add: numGet_def)
next
  case (Cons t draws)
  have "card ret \<le> r" using Cons(3) by (metis card_lessThan card_mono finite_lessThan)
  with assms(2) Cons show ?case by (simp add: numGet_def)
qed



end
