(* ===== verification/Snapshot.thy ===== *)
theory Snapshot
  imports Prelude
begin

text \<open>
  Project3: threads that update their slot of a shared array after a scan of the whole array
  (\<open>wfsnapshot.h\<close>, \<open>stampedsnap.h\<close>), run by a pool that counts the updates (\<open>threadpool.h\<close>,
  \<open>threadpool.cpp\<close>, \<open>main.cpp\<close>).  A step is one access to the shared array.
\<close>

section \<open>The array\<close>

record StampedSnap =
  stamp :: int
  val :: int
  snap :: "int list option"

definition StampedSnap_new :: "int \<Rightarrow> int \<Rightarrow> int list option \<Rightarrow> StampedSnap" where
  "StampedSnap_new v st sn = \<lparr>stamp = st, val = v, snap = sn\<rparr>"

text \<open>
  The copy constructor of the source resets the stamp.  It is used where a variable is
  initialised from a slot; assignments between slots copy all members, and a variable that
  is initialised from a constructor call is that object itself.
\<close>

definition StampedSnap_copy :: "StampedSnap \<Rightarrow> StampedSnap" where
  "StampedSnap_copy ssnap = \<lparr>stamp = 0, val = val ssnap, snap = snap ssnap\<rparr>"

definition WFSnapshot :: "nat \<Rightarrow> StampedSnap list" where
  "WFSnapshot n = replicate n (StampedSnap_new 0 0 None)"

text \<open>The loop that compares two collected copies.\<close>

datatype outcome = No_Change | Moved_Twice nat | Retry "bool list"

fun compare_copies :: "nat \<Rightarrow> StampedSnap list \<Rightarrow> StampedSnap list \<Rightarrow> bool list \<Rightarrow> outcome" where
  "compare_copies 0 oldCopy newCopy moved = No_Change"
| "compare_copies (Suc k) oldCopy newCopy moved =
     (let i = length oldCopy - Suc k in
      if stamp (oldCopy ! i) \<noteq> stamp (newCopy ! i)
      then if moved ! i then Moved_Twice i else Retry (moved [i := True])
      else compare_copies k oldCopy newCopy moved)"


section \<open>The pool\<close>

text \<open>
  A thread: at the test of the loop; in a scan for the update with a new value, with the
  older copy if there is one, the flags, and the part of the new copy collected so far;
  about to store its new slot; or returned.
\<close>

datatype pc = Loop | Scan int "StampedSnap list option" "bool list" "StampedSnap list" | Store int "int list option" | Done

record pool =
  numThreads :: nat
  snaps :: "StampedSnap list"
  exit_flag :: bool
  pcs :: "nat \<Rightarrow> pc"
  updateCount :: "nat \<Rightarrow> int"
  updateCounts :: "nat \<Rightarrow> int"
  updates :: int \<comment> \<open>all slots stored so far, not a variable of the program\<close>

definition goto :: "nat \<Rightarrow> pc \<Rightarrow> pool \<Rightarrow> pool" where
  "goto t p s = s\<lparr>pcs := (pcs s)(t := p)\<rparr>"

text \<open>One assignment of the loop of \<open>collect\<close>.\<close>

definition collect_step :: "StampedSnap list \<Rightarrow> pool \<Rightarrow> StampedSnap list" where
  "collect_step copy s = copy @ [snaps s ! length copy]"

text \<open>A step of a scan; at the end of a collect keep the copy, or compare it with the older one.\<close>

definition scan_step :: "nat \<Rightarrow> int \<Rightarrow> StampedSnap list option \<Rightarrow> bool list \<Rightarrow> StampedSnap list \<Rightarrow> pool \<Rightarrow> pool" where
  "scan_step t v oldCopy moved copy s =
     (if length copy < numThreads s then goto t (Scan v oldCopy moved (collect_step copy s)) s
      else case oldCopy of
        None \<Rightarrow> goto t (Scan v (Some copy) moved []) s
      | Some old \<Rightarrow>
          (case compare_copies (numThreads s) old copy moved of
             Moved_Twice i \<Rightarrow> goto t (Store v (snap (old ! i))) s
           | Retry moved' \<Rightarrow> goto t (Scan v (Some copy) moved' []) s
           | No_Change \<Rightarrow> goto t (Store v (Some (map val copy))) s))"

definition store_step :: "nat \<Rightarrow> int \<Rightarrow> int list option \<Rightarrow> pool \<Rightarrow> pool" where
  "store_step t v sn s =
     (let oldValue = StampedSnap_copy (snaps s ! t);
          newValue = StampedSnap_new v (stamp oldValue + 1) sn in
      goto t Loop (s\<lparr>snaps := (snaps s)[t := newValue], updates := updates s + 1,
        updateCount := (updateCount s)(t := updateCount s t + 1)\<rparr>))"

fun work :: "nat \<Rightarrow> int \<Rightarrow> pc \<Rightarrow> pool \<Rightarrow> pool option" where
  "work t r Loop s =
     Some (if \<not> exit_flag s then goto t (Scan r None (replicate (numThreads s) False) []) s
           else goto t Done (s\<lparr>updateCounts := (updateCounts s)(t := updateCount s t)\<rparr>))"
| "work t r (Scan v oldCopy moved copy) s = Some (scan_step t v oldCopy moved copy s)"
| "work t r (Store v sn) s = Some (store_step t v sn s)"
| "work t r Done s = None"

definition ThreadPool :: "nat \<Rightarrow> pool" where
  "ThreadPool n = \<lparr>numThreads = n, snaps = WFSnapshot n, exit_flag = False, pcs = (\<lambda>_. Loop),
     updateCount = (\<lambda>_. 0), updateCounts = (\<lambda>_. 0), updates = 0\<rparr>"

text \<open>The threads take their steps; after a minute, at any moment here, the main thread sets the flag.\<close>

definition pool_step :: "pool \<Rightarrow> pool \<Rightarrow> bool" where
  "pool_step s s' \<longleftrightarrow> (\<exists>t < numThreads s. \<exists>r. work t r (pcs s t) s = Some s') \<or> s' = s\<lparr>exit_flag := True\<rparr>"

text \<open>The value of \<open>ThreadPool::run\<close>, after the joins.\<close>

definition pool_run :: "pool \<Rightarrow> int option" where
  "pool_run s = (if \<forall>t < numThreads s. pcs s t = Done then Some (\<Sum>t < numThreads s. updateCounts s t) else None)"

text \<open>\<open>main\<close>: the argument as the stream operator delivers it; a failed extraction leaves \<open>0\<close>.\<close>

definition snap_main :: "int option list \<Rightarrow> bool \<times> pool option" where
  "snap_main args = (case args of [] \<Rightarrow> (True, None)
     | None # _ \<Rightarrow> (True, Some (ThreadPool 0))
     | Some n # _ \<Rightarrow> (False, Some (ThreadPool (nat n))))"


section \<open>Stamps\<close>

lemma goto_pool [simp]:
  "numThreads (goto t p s) = numThreads s" "snaps (goto t p s) = snaps s" "pcs (goto t p s) = (pcs s)(t := p)"
  "updateCount (goto t p s) = updateCount s" "updateCounts (goto t p s) = updateCounts s" "updates (goto t p s) = updates s"
  "exit_flag (goto t p s) = exit_flag s"
  by (simp_all add: goto_def)

text \<open>
  Because of the copy constructor a stamp is \<open>0\<close> before the first update of its slot and \<open>1\<close>
  for ever after.  A copy is never ahead of the array, an older copy never ahead of a newer
  one, and a flag is set only for a slot whose stamp in the older copy is already \<open>1\<close>.
\<close>

definition stamps_le :: "StampedSnap list \<Rightarrow> StampedSnap list \<Rightarrow> bool" where
  "stamps_le xs ys \<longleftrightarrow> length xs \<le> length ys \<and> (\<forall>i < length xs. 0 \<le> stamp (xs ! i) \<and> stamp (xs ! i) \<le> stamp (ys ! i))"

definition scan_ok :: "pool \<Rightarrow> pc \<Rightarrow> bool" where
  "scan_ok s p \<longleftrightarrow> (case p of
     Scan v oldCopy moved copy \<Rightarrow> length moved = numThreads s \<and> stamps_le copy (snaps s) \<and>
       (case oldCopy of None \<Rightarrow> \<forall>i < numThreads s. \<not> moved ! i
        | Some old \<Rightarrow> length old = numThreads s \<and> stamps_le old (snaps s) \<and>
            (\<forall>i < length copy. stamp (old ! i) \<le> stamp (copy ! i)) \<and>
            (\<forall>i < numThreads s. moved ! i \<longrightarrow> stamp (old ! i) = 1))
   | _ \<Rightarrow> True)"

definition snap_inv :: "pool \<Rightarrow> bool" where
  "snap_inv s \<longleftrightarrow> length (snaps s) = numThreads s \<and> (\<forall>i < numThreads s. stamp (snaps s ! i) \<in> {0, 1}) \<and>
     (\<forall>t < numThreads s. scan_ok s (pcs s t))"

lemma stamps_le_trans: "stamps_le xs ys \<Longrightarrow> stamps_le ys zs \<Longrightarrow> stamps_le xs zs"
  unfolding stamps_le_def by (meson le_trans less_le_trans order.trans)

lemma scan_ok_grow:
  assumes "scan_ok s p" and "numThreads s' = numThreads s" and "stamps_le (snaps s) (snaps s')"
  shows "scan_ok s' p"
  using assms stamps_le_trans by (auto simp: scan_ok_def split: pc.splits option.splits)

lemma compare_cases:
  assumes "k \<le> length old"
  shows "compare_copies k old new moved = No_Change \<or>
    (\<exists>i. length old - k \<le> i \<and> i < length old \<and> stamp (old ! i) \<noteq> stamp (new ! i) \<and>
      compare_copies k old new moved = (if moved ! i then Moved_Twice i else Retry (moved [i := True])))"
  using assms
proof (induction k)
  case 0
  then show ?case by simp
next
  case (Suc k)
  let ?i = "length old - Suc k"
  show ?case
  proof (cases "stamp (old ! ?i) = stamp (new ! ?i)")
    case True
    then have e: "compare_copies (Suc k) old new moved = compare_copies k old new moved" by (simp add: Let_def)
    have "k \<le> length old" using Suc.prems by simp
    from Suc.IH [OF this] show ?thesis unfolding e
    proof
      assume "\<exists>i. length old - k \<le> i \<and> i < length old \<and> stamp (old ! i) \<noteq> stamp (new ! i) \<and>
        compare_copies k old new moved = (if moved ! i then Moved_Twice i else Retry (moved [i := True]))"
      then obtain i where i: "length old - k \<le> i" "i < length old" "stamp (old ! i) \<noteq> stamp (new ! i)"
        "compare_copies k old new moved = (if moved ! i then Moved_Twice i else Retry (moved [i := True]))" by blast
      have "length old - Suc k \<le> i" using i(1) by simp
      with i show "compare_copies k old new moved = No_Change \<or> (\<exists>i. length old - Suc k \<le> i \<and> i < length old \<and>
        stamp (old ! i) \<noteq> stamp (new ! i) \<and>
        compare_copies k old new moved = (if moved ! i then Moved_Twice i else Retry (moved [i := True])))" by blast
    qed blast
  next
    case False
    have "?i < length old" using Suc.prems by simp
    with False show ?thesis by (intro disjI2 exI [of _ ?i]) (simp add: Let_def)
  qed
qed


text \<open>A whole copy compared with an older one: no thread is ever seen to move twice.\<close>

lemma compare_ok:
  assumes "scan_ok s (Scan v (Some old) moved copy)" and "length copy = numThreads s" and "length (snaps s) = numThreads s"
    and "\<forall>i < numThreads s. stamp (snaps s ! i) \<in> {0, 1}"
  shows "compare_copies (numThreads s) old copy moved = No_Change \<or>
    (\<exists>i < numThreads s. \<not> moved ! i \<and> stamp (copy ! i) = 1 \<and>
      compare_copies (numThreads s) old copy moved = Retry (moved [i := True]))"
proof -
  have len: "length old = numThreads s" "length moved = numThreads s" using assms(1) by (auto simp: scan_ok_def)
  have bnd: "0 \<le> stamp (old ! i) \<and> stamp (old ! i) \<le> stamp (copy ! i) \<and> stamp (copy ! i) \<le> 1 \<and>
      (moved ! i \<longrightarrow> stamp (old ! i) = 1)" if "i < numThreads s" for i
  proof -
    have "stamp (snaps s ! i) \<le> 1" using that assms(4) by auto
    moreover have "0 \<le> stamp (old ! i)" "stamp (old ! i) \<le> stamp (copy ! i)" "stamp (copy ! i) \<le> stamp (snaps s ! i)"
      "moved ! i \<longrightarrow> stamp (old ! i) = 1"
      using that assms(1,2) len by (simp_all add: scan_ok_def stamps_le_def)
    ultimately show ?thesis by simp
  qed
  have "numThreads s \<le> length old" using len by simp
  from compare_cases [OF this, of copy moved] show ?thesis
  proof (elim disjE exE conjE)
    assume "compare_copies (numThreads s) old copy moved = No_Change"
    then show ?thesis by blast
  next
    fix i assume i: "i < length old" "stamp (old ! i) \<noteq> stamp (copy ! i)"
      "compare_copies (numThreads s) old copy moved = (if moved ! i then Moved_Twice i else Retry (moved [i := True]))"
    have "\<not> moved ! i" "stamp (copy ! i) = 1" using bnd [of i] i(1,2) len by auto
    with i len show ?thesis by (intro disjI2 exI [of _ i]) simp
  qed
qed

lemma scan_ok_step:
  assumes ok: "scan_ok s (Scan v old moved copy)" and len: "length (snaps s) = numThreads s"
    and st: "\<forall>i < numThreads s. stamp (snaps s ! i) \<in> {0, 1}"
  shows "scan_ok s (pcs (scan_step t v old moved copy s) t)"
proof (cases "length copy < numThreads s")
  case True
  let ?c = "copy @ [snaps s ! length copy]"
  have "stamps_le ?c (snaps s)" using ok True len st by (auto simp: scan_ok_def stamps_le_def nth_append less_Suc_eq)
  moreover have "stamp (o' ! i) \<le> stamp (?c ! i)" if "old = Some o'" "i < length ?c" for o' i
    using that ok True by (auto simp: scan_ok_def stamps_le_def nth_append less_Suc_eq)
  ultimately show ?thesis using ok True
    by (cases old) (simp_all add: scan_ok_def scan_step_def collect_step_def)
next
  case False
  then have c: "length copy = numThreads s" using ok len by (auto simp: scan_ok_def stamps_le_def)
  show ?thesis
  proof (cases old)
    case None
    then show ?thesis using ok c by (simp add: scan_ok_def scan_step_def stamps_le_def)
  next
    case (Some o')
    from compare_ok [OF ok [unfolded Some] c len st] show ?thesis
    proof (elim disjE exE conjE)
      assume "compare_copies (numThreads s) o' copy moved = No_Change"
      then show ?thesis using False Some by (simp add: scan_step_def scan_ok_def)
    next
      fix i assume i: "i < numThreads s" "\<not> moved ! i" "stamp (copy ! i) = 1"
        "compare_copies (numThreads s) o' copy moved = Retry (moved [i := True])"
      have "stamp (copy ! j) = 1" if "j < numThreads s" "moved [i := True] ! j" for j
      proof (cases "j = i")
        case True
        with i show ?thesis by simp
      next
        case False
        then have "stamp (o' ! j) = 1" using that ok Some by (simp add: scan_ok_def)
        moreover have "stamp (o' ! j) \<le> stamp (copy ! j)" "stamp (copy ! j) \<le> stamp (snaps s ! j)"
          using that(1) ok Some c by (simp_all add: scan_ok_def stamps_le_def)
        moreover have "stamp (snaps s ! j) \<le> 1" using st that(1) by auto
        ultimately show ?thesis by simp
      qed
      then show ?thesis using False Some i(4) ok c by (simp add: scan_step_def scan_ok_def stamps_le_def)
    qed
  qed
qed

lemma snap_inv_step:
  assumes "pool_step s s'" and inv: "snap_inv s"
  shows "snap_inv s'"
proof -
  have len: "length (snaps s) = numThreads s" and st: "\<forall>i < numThreads s. stamp (snaps s ! i) \<in> {0, 1}"
    and ok: "\<forall>t < numThreads s. scan_ok s (pcs s t)" using inv by (auto simp: snap_inv_def)
  from assms(1) show ?thesis unfolding pool_step_def
  proof (elim disjE exE conjE)
    assume s': "s' = s\<lparr>exit_flag := True\<rparr>"
    have "stamps_le (snaps s) (snaps s)" using st len by (auto simp: stamps_le_def)
    then have "scan_ok s' p" if "scan_ok s p" for p using scan_ok_grow [OF that, of s'] s' by simp
    then show ?thesis using inv s' by (simp add: snap_inv_def)
  next
    fix t r assume t: "t < numThreads s" and step: "work t r (pcs s t) s = Some s'"
    have grow: "snap_inv s'" if "numThreads s' = numThreads s" "length (snaps s') = numThreads s"
      "stamps_le (snaps s) (snaps s')" "\<forall>i < numThreads s. stamp (snaps s' ! i) \<in> {0, 1}"
      "\<forall>u. u \<noteq> t \<longrightarrow> pcs s' u = pcs s u" "scan_ok s' (pcs s' t)"
      unfolding snap_inv_def using that ok scan_ok_grow [OF _ that(1,3)] by metis
    have refl: "stamps_le (snaps s) (snaps s)" using st len by (auto simp: stamps_le_def)
    show ?thesis
    proof (cases "pcs s t")
      case Loop
      show ?thesis by (rule grow) (use Loop step len st refl in \<open>auto simp: scan_ok_def stamps_le_def split: if_splits\<close>)
    next
      case (Scan v old moved copy)
      have s': "s' = scan_step t v old moved copy s" using step Scan by simp
      have f: "numThreads s' = numThreads s" "snaps s' = snaps s" "\<forall>u. u \<noteq> t \<longrightarrow> pcs s' u = pcs s u"
        unfolding s' by (auto simp: scan_step_def split: option.splits outcome.splits)
      have "scan_ok s (pcs s' t)" unfolding s' using ok t Scan len st by (intro scan_ok_step) auto
      then have "scan_ok s' (pcs s' t)" by (rule scan_ok_grow) (use f refl in simp_all)
      then show ?thesis by (intro grow) (use f len st refl in simp_all)
    next
      case (Store v sn)
      have s': "s' = store_step t v sn s" using step Store by simp
      show ?thesis by (rule grow)
        (use s' len st t in \<open>auto simp: store_step_def StampedSnap_copy_def StampedSnap_new_def scan_ok_def stamps_le_def nth_list_update\<close>)
    next
      case Done
      with step show ?thesis by simp
    qed
  qed
qed

lemma snap_inv_init: "snap_inv (ThreadPool n)"
  by (simp add: snap_inv_def ThreadPool_def WFSnapshot_def StampedSnap_new_def scan_ok_def)

interpretation sn: safety "\<lambda>s. s = ThreadPool n" pool_step snap_inv for n
  by unfold_locales (auto intro: snap_inv_init snap_inv_step)



section \<open>The scan ends\<close>

text \<open>
  The steps a scan has left: a collect of the whole array for every slot that has not been
  seen to move, and what is missing of the current one.
\<close>

fun scan_rank :: "nat \<Rightarrow> pc \<Rightarrow> nat" where
  "scan_rank n (Scan v oldCopy moved copy) =
     ((if oldCopy = None then Suc 0 else 0) + length (filter Not moved)) * Suc n + (n - length copy) + 1"
| "scan_rank n p = 0"

lemma filter_Not_update:
  "i < length xs \<Longrightarrow> \<not> xs ! i \<Longrightarrow> Suc (length (filter Not (xs [i := True]))) = length (filter Not xs)"
proof (induction xs arbitrary: i)
  case (Cons x xs)
  then show ?case by (cases i) auto
qed simp

lemma scan_rank_step:
  assumes inv: "snap_inv s" and t: "t < numThreads s" and pc: "pcs s t = Scan v old moved copy"
  shows "scan_rank (numThreads s) (pcs (scan_step t v old moved copy s) t) < scan_rank (numThreads s) (pcs s t)"
proof -
  have ok: "scan_ok s (Scan v old moved copy)" and len: "length (snaps s) = numThreads s"
    and st: "\<forall>i < numThreads s. stamp (snaps s ! i) \<in> {0, 1}" using inv t pc by (auto simp: snap_inv_def)
  show ?thesis
  proof (cases "length copy < numThreads s")
    case True
    then show ?thesis using pc by (simp add: scan_step_def collect_step_def)
  next
    case False
    then have c: "length copy = numThreads s" using ok len by (auto simp: scan_ok_def stamps_le_def)
    show ?thesis
    proof (cases old)
      case None
      then show ?thesis using pc c by (simp add: scan_step_def)
    next
      case (Some o')
      from compare_ok [OF ok [unfolded Some] c len st] show ?thesis
      proof (elim disjE exE conjE)
        assume "compare_copies (numThreads s) o' copy moved = No_Change"
        then show ?thesis using False Some pc by (simp add: scan_step_def)
      next
        fix i assume i: "i < numThreads s" "\<not> moved ! i"
          "compare_copies (numThreads s) o' copy moved = Retry (moved [i := True])"
        have "length moved = numThreads s" using ok by (simp add: scan_ok_def)
        with filter_Not_update [of i moved] i(1,2)
        have f: "length (filter Not moved) = Suc (length (filter Not (moved [i := True])))" by simp
        show ?thesis using False Some pc c i(3) by (simp add: scan_step_def f)
      qed
    qed
  qed
qed

text \<open>
  C29: the scan is wait-free: from every reachable state every step of a thread inside a
  scan, whatever the other threads do in between, uses up some of at most
  \<open>(n + 1) * (n + 1) + n + 1\<close> steps, after which the thread stores its slot.  The branch that
  takes over the snapshot of a thread that moved twice is never taken, since a stamp
  changes only once, from \<open>0\<close> to \<open>1\<close>.
\<close>

theorem scan_wait_free:
  assumes "reach (\<lambda>s. s = ThreadPool n) pool_step s" and "t < numThreads s" and "pcs s t = Scan v old moved copy"
  shows "scan_rank (numThreads s) (pcs s t) \<le> (numThreads s + 1) * (numThreads s + 1) + numThreads s + 1 \<and>
    scan_rank (numThreads s) (pcs (scan_step t v old moved copy s) t) < scan_rank (numThreads s) (pcs s t) \<and>
    (\<forall>o' i. old = Some o' \<longrightarrow> length copy = numThreads s \<longrightarrow> compare_copies (numThreads s) o' copy moved \<noteq> Moved_Twice i) \<and>
    (\<forall>i < numThreads s. stamp (snaps s ! i) \<in> {0, 1})"
proof -
  have inv: "snap_inv s" by (rule sn.reach_inv [OF assms(1)])
  then have ok: "scan_ok s (Scan v old moved copy)" and len: "length (snaps s) = numThreads s"
    and st: "\<forall>i < numThreads s. stamp (snaps s ! i) \<in> {0, 1}" using assms(2,3) by (auto simp: snap_inv_def)
  have "length (filter Not moved) \<le> numThreads s"
    using ok length_filter_le [of Not moved] by (simp add: scan_ok_def)
  then have "((if old = None then Suc 0 else 0) + length (filter Not moved)) * Suc (numThreads s) \<le> Suc (numThreads s) * Suc (numThreads s)"
    by (intro mult_right_mono) auto
  moreover have "scan_rank (numThreads s) (pcs s t) =
      ((if old = None then Suc 0 else 0) + length (filter Not moved)) * Suc (numThreads s) + (numThreads s - length copy) + 1"
    by (simp only: assms(3) scan_rank.simps)
  ultimately have "scan_rank (numThreads s) (pcs s t) \<le> (numThreads s + 1) * (numThreads s + 1) + numThreads s + 1"
    unfolding Suc_eq_plus1 by linarith
  moreover have "compare_copies (numThreads s) o' copy moved \<noteq> Moved_Twice i"
    if "old = Some o'" "length copy = numThreads s" for o' i
    using compare_ok [OF ok [unfolded that(1)] that(2) len st] by auto
  ultimately show ?thesis using scan_rank_step [OF inv assms(2,3)] st by blast
qed

theorem scan_wait_free_witness:
  "scan_rank 2 (Scan 7 None [False, False] []) \<le> 12 \<and> stamp (WFSnapshot 2 ! 1) \<in> {0, 1}"
proof -
  let ?s = "goto 0 (Scan 7 None (replicate 2 False) []) (ThreadPool 2)"
  have a: "pool_step (ThreadPool 2) ?s" unfolding pool_step_def
    by (rule disjI1, rule exI [of _ 0]) (auto simp: ThreadPool_def intro!: exI [of _ 7])
  have b: "reach (\<lambda>s. s = ThreadPool 2) pool_step (ThreadPool 2)" by (rule reach_init) (rule refl)
  have "reach (\<lambda>s. s = ThreadPool 2) pool_step ?s" by (rule reach_step [OF b a])
  from scan_wait_free [OF this, of 0 7 None "[False, False]" "[]"] show ?thesis
    by (simp add: ThreadPool_def numeral_2_eq_2)
qed



section \<open>The count of the pool\<close>

definition count_ok :: "pool \<Rightarrow> bool" where
  "count_ok s \<longleftrightarrow> updates s = (\<Sum>t < numThreads s. updateCount s t) \<and>
     (\<forall>t < numThreads s. pcs s t = Done \<longrightarrow> updateCounts s t = updateCount s t)"

lemma sum_upd: "t < (n :: nat) \<Longrightarrow> (\<Sum>u < n. (f(t := f t + 1)) u) = (\<Sum>u < n. f u) + (1 :: int)"
  by (induction n) (auto simp: less_Suc_eq)

lemma count_ok_step:
  assumes "pool_step s s'" and ok: "count_ok s"
  shows "count_ok s'"
  using assms(1) unfolding pool_step_def
proof (elim disjE exE conjE)
  assume "s' = s\<lparr>exit_flag := True\<rparr>"
  then show ?thesis using ok by (simp add: count_ok_def)
next
  fix t r assume t: "t < numThreads s" and step: "work t r (pcs s t) s = Some s'"
  show ?thesis
  proof (cases "pcs s t")
    case Loop
    with step ok show ?thesis by (auto simp: count_ok_def split: if_splits)
  next
    case (Scan v old moved copy)
    then have s': "s' = scan_step t v old moved copy s" using step by simp
    have "pcs s' t \<noteq> Done" "numThreads s' = numThreads s" "updates s' = updates s" "updateCount s' = updateCount s"
      "updateCounts s' = updateCounts s" "\<forall>u. u \<noteq> t \<longrightarrow> pcs s' u = pcs s u"
      unfolding s' by (auto simp: scan_step_def split: option.splits outcome.splits)
    with ok show ?thesis unfolding count_ok_def by metis
  next
    case (Store v sn)
    then have s': "s' = store_step t v sn s" using step by simp
    have "(\<Sum>u < numThreads s. ((updateCount s)(t := updateCount s t + 1)) u) = (\<Sum>u < numThreads s. updateCount s u) + 1"
      by (rule sum_upd [OF t])
    with ok show ?thesis unfolding s' count_ok_def by (auto simp: store_step_def Let_def)
  next
    case Done
    with step show ?thesis by simp
  qed
qed

lemma count_ok_init: "count_ok (ThreadPool n)"
  by (simp add: ThreadPool_def count_ok_def)

interpretation ck: safety "\<lambda>s. s = ThreadPool n" pool_step count_ok for n
  by unfold_locales (auto intro: count_ok_init count_ok_step)

text \<open>
  C31: when all threads have been joined, the pool returns exactly the number of updates
  that were stored.
\<close>

theorem pool_counts_updates:
  assumes "reach (\<lambda>s. s = ThreadPool n) pool_step s" and "pool_run s = Some c"
  shows "c = updates s"
  using ck.reach_inv [OF assms(1)] assms(2) by (auto simp: count_ok_def pool_run_def split: if_splits)

text \<open>
  The schedule given by a list of threads and new values, where \<open>None\<close> sets the flag; it
  gives the last state if \<open>P\<close> holds all the way.
\<close>

fun exec :: "(pool \<Rightarrow> bool) \<Rightarrow> (nat \<times> int) option list \<Rightarrow> pool \<Rightarrow> pool option" where
  "exec P [] s = (if P s then Some s else None)"
| "exec P (None # ts) s = (if P s then exec P ts (s\<lparr>exit_flag := True\<rparr>) else None)"
| "exec P (Some (t, v) # ts) s =
     (if P s \<and> t < numThreads s then Option.bind (work t v (pcs s t) s) (exec P ts) else None)"

lemma snap_exec_run:
  assumes "exec P ts s = Some s'"
  shows "\<exists>ss. run (\<lambda>u. u = s) pool_step ss \<and> last ss = s' \<and> (\<forall>u \<in> set ss. P u)"
  using assms
proof (induction P ts s rule: exec.induct)
  case (1 P s)
  then show ?case by (intro exI [of _ "[s]"]) (auto simp: run_def split: if_splits)
next
  case (2 P ts s)
  then obtain ss where ss: "run (\<lambda>u. u = s\<lparr>exit_flag := True\<rparr>) pool_step ss" "last ss = s'" "\<forall>u \<in> set ss. P u" "P s"
    by (auto split: if_splits)
  have "run (\<lambda>u. u = s) pool_step (s # ss)" using ss(1) by (cases ss) (auto simp: run_def pool_step_def)
  with ss show ?case by (intro exI [of _ "s # ss"]) (auto simp: run_def)
next
  case (3 P t v ts s)
  then obtain s1 where s1: "t < numThreads s" "P s" "work t v (pcs s t) s = Some s1" "exec P ts s1 = Some s'"
    by (auto split: if_splits Option.bind_splits)
  with 3(1) obtain ss where ss: "run (\<lambda>u. u = s1) pool_step ss" "last ss = s'" "\<forall>u \<in> set ss. P u" by blast
  have "run (\<lambda>u. u = s) pool_step (s # ss)" using ss(1) s1 by (cases ss) (auto simp: run_def pool_step_def)
  with ss s1 show ?case by (intro exI [of _ "s # ss"]) (auto simp: run_def)
qed

lemma snap_run_reach:
  assumes "run init pool_step ss"
  shows "reach init pool_step (last ss)"
  using assms
proof (induction ss rule: rev_induct)
  case (snoc s ss)
  show ?case
  proof (cases "ss = []")
    case True
    with snoc.prems show ?thesis by (simp add: run_def reach_init)
  next
    case False
    with snoc.prems have "run init pool_step ss" "pool_step (last ss) s"
      by (auto simp: run_def successively_append_iff)
    with snoc.IH show ?thesis by (simp add: reach_step)
  qed
qed (simp add: run_def)

text \<open>One update, then the flag, then the return of the only thread.\<close>

definition one_update :: "(nat \<times> int) option list" where
  "one_update = replicate 6 (Some (0, 5)) @ [None, Some (0, 5)]"

lemma one_update_runs:
  "case exec (\<lambda>_. True) one_update (ThreadPool 1) of None \<Rightarrow> False
   | Some s \<Rightarrow> pcs s 0 = Done \<and> updateCounts s 0 = 1 \<and> numThreads s = 1"
  by code_simp

theorem pool_counts_updates_witness:
  "\<exists>s. reach (\<lambda>s. s = ThreadPool 1) pool_step s \<and> pool_run s = Some 1 \<and> updates s = 1"
proof -
  obtain s where s: "exec (\<lambda>_. True) one_update (ThreadPool 1) = Some s" "pcs s 0 = Done" "updateCounts s 0 = 1" "numThreads s = 1"
    using one_update_runs by (auto split: option.splits)
  have r: "reach (\<lambda>s. s = ThreadPool 1) pool_step s" using snap_exec_run [OF s(1)] snap_run_reach by blast
  have p: "pool_run s = Some 1" using s by (simp add: pool_run_def)
  from pool_counts_updates [OF r p] r p show ?thesis by (intro exI [of _ s]) simp
qed


section \<open>The snapshot is not atomic\<close>

text \<open>
  Every slot has been stored once.  Thread \<open>0\<close> scans again, and between its reads of slot \<open>1\<close>
  and slot \<open>2\<close> first thread \<open>1\<close> and then thread \<open>2\<close> store new values.
\<close>

definition torn_run :: "(nat \<times> int) option list" where
  "torn_run = replicate 10 (Some (0, 10)) @ replicate 10 (Some (1, 20)) @ replicate 10 (Some (2, 30)) @
     replicate 9 (Some (1, 21)) @ replicate 9 (Some (2, 31)) @ replicate 7 (Some (0, 11)) @
     [Some (1, 0), Some (2, 0), Some (0, 0), Some (0, 0)]"

lemma torn_run_torn:
  "case exec (\<lambda>s. map val (snaps s) \<noteq> [10, 20, 31]) torn_run (ThreadPool 3) of None \<Rightarrow> False
   | Some s \<Rightarrow> pcs s 0 = Store 11 (Some [10, 20, 31])"
  by code_simp

text \<open>
  C30: the scan does not give a snapshot: there is a run of three threads at whose end a
  thread has scanned an array that existed at no moment of the run.  The comparison of
  the two copies does not notice the stores, since the stamps stay at \<open>1\<close>.
\<close>

theorem snapshot_not_atomic:
  "\<exists>ss r. run (\<lambda>s. s = ThreadPool 3) pool_step ss \<and> pcs (last ss) 0 = Store 11 (Some r) \<and>
    (\<forall>s \<in> set ss. map val (snaps s) \<noteq> r)"
proof -
  obtain s where s: "exec (\<lambda>s. map val (snaps s) \<noteq> [10, 20, 31]) torn_run (ThreadPool 3) = Some s"
    "pcs s 0 = Store 11 (Some [10, 20, 31])" using torn_run_torn by (auto split: option.splits)
  from snap_exec_run [OF s(1)] s(2) show ?thesis by blast
qed

theorem snapshot_not_atomic_witness: "\<exists>ss r. run (\<lambda>s. s = ThreadPool 3) pool_step ss \<and> pcs (last ss) 0 = Store 11 (Some r)"
  using snapshot_not_atomic by blast

end
