(* ===== verification/Lock_Modes.thy ===== *)
theory Lock_Modes
  imports Prelude "HOL-Library.Word"
begin

text \<open>
  The lock object of the InnoDB lock manager in project 4 (lock0types.h, lock0lock.h,
  lock0priv.h, lock0priv.ic and the first part of lock0lock.cc): lock modes, the word
  that packs type, mode and flags, the compatibility and strength matrices, the bitmap
  of locked records behind the lock struct, and the rules by which a request has to wait
  for a lock.  The flags of a mode argument of type ulint lie in its low fifteen bits, so one
  32-bit word carries both the argument and the field.
\<close>

unbundle bit_operations_syntax

type_synonym uint32 = "32 word"
type_synonym ulint = "64 word"

subsection \<open>Modes, types and flags\<close>

datatype lock_mode = LOCK_IS | LOCK_IX | LOCK_S | LOCK_X | LOCK_AUTO_INC | LOCK_NONE
  | LOCK_NONE_UNSET | LOCK_OTHER nat

text \<open>
  \<open>LOCK_OTHER\<close> stands for the values a cast of the mode bits can give that no enumerator has.
\<close>

definition lock_mode_of :: "uint32 \<Rightarrow> lock_mode" where
  "lock_mode_of w =
     (if w = 0 then LOCK_IS else if w = 1 then LOCK_IX else if w = 2 then LOCK_S
      else if w = 3 then LOCK_X else if w = 4 then LOCK_AUTO_INC else if w = 5 then LOCK_NONE
      else if w = 255 then LOCK_NONE_UNSET else LOCK_OTHER (unat w))"

primrec lock_mode_index :: "lock_mode \<Rightarrow> nat" where
  "lock_mode_index LOCK_IS = 0"
| "lock_mode_index LOCK_IX = 1"
| "lock_mode_index LOCK_S = 2"
| "lock_mode_index LOCK_X = 3"
| "lock_mode_index LOCK_AUTO_INC = 4"
| "lock_mode_index LOCK_NONE = 5"
| "lock_mode_index LOCK_NONE_UNSET = 255"
| "lock_mode_index (LOCK_OTHER n) = n"

primrec lock_mode_string :: "lock_mode \<Rightarrow> string option" where
  "lock_mode_string LOCK_IS = Some ''LOCK_IS''"
| "lock_mode_string LOCK_IX = Some ''LOCK_IX''"
| "lock_mode_string LOCK_S = Some ''LOCK_S''"
| "lock_mode_string LOCK_X = Some ''LOCK_X''"
| "lock_mode_string LOCK_AUTO_INC = Some ''LOCK_AUTO_INC''"
| "lock_mode_string LOCK_NONE = Some ''LOCK_NONE''"
| "lock_mode_string LOCK_NONE_UNSET = Some ''LOCK_NONE_UNSET''"
| "lock_mode_string (LOCK_OTHER n) = None"

definition LOCK_MODE_MASK :: uint32 where "LOCK_MODE_MASK = 0xF"
definition LOCK_TABLE :: uint32 where "LOCK_TABLE = 16"
definition LOCK_REC :: uint32 where "LOCK_REC = 32"
definition LOCK_TYPE_MASK :: uint32 where "LOCK_TYPE_MASK = 0xF0"
definition LOCK_WAIT :: uint32 where "LOCK_WAIT = 256"
definition LOCK_GAP :: uint32 where "LOCK_GAP = 512"
definition LOCK_REC_NOT_GAP :: uint32 where "LOCK_REC_NOT_GAP = 1024"
definition LOCK_INSERT_INTENTION :: uint32 where "LOCK_INSERT_INTENTION = 2048"
definition LOCK_PREDICATE :: uint32 where "LOCK_PREDICATE = 8192"
definition LOCK_PRDT_PAGE :: uint32 where "LOCK_PRDT_PAGE = 16384"

lemmas lock_flag_defs = LOCK_MODE_MASK_def LOCK_TABLE_def LOCK_REC_def LOCK_TYPE_MASK_def
  LOCK_WAIT_def LOCK_GAP_def LOCK_REC_NOT_GAP_def LOCK_INSERT_INTENTION_def
  LOCK_PREDICATE_def LOCK_PRDT_PAGE_def

abbreviation flag :: "uint32 \<Rightarrow> uint32 \<Rightarrow> bool" where
  "flag w f \<equiv> w AND f \<noteq> 0"

subsection \<open>The lock struct\<close>

text \<open>
  The union \<open>un_member\<close> has the fields of both members, the list node of a table lock is its
  position in the list of the table.  \<open>bitmap\<close> is the memory behind the struct; a lock
  whose allocation has no room behind the struct has the empty bitmap.
\<close>

record lock_t =
  trx :: addr
  index :: addr
  hash :: ptr
  tab_table :: addr
  rec_space :: nat
  rec_page_no :: nat
  rec_n_bits :: nat
  type_mode :: uint32
  timestamp :: nat
  state :: bool
  gc_hash :: ptr
  bitmap :: "8 word list"

definition type :: "lock_t \<Rightarrow> uint32" where
  "type l = type_mode l AND LOCK_TYPE_MASK"

definition mode :: "lock_t \<Rightarrow> lock_mode" where
  "mode l = lock_mode_of (type_mode l AND LOCK_MODE_MASK)"

definition is_record_lock :: "lock_t \<Rightarrow> bool" where
  "is_record_lock l \<longleftrightarrow> type l = LOCK_REC"

definition is_waiting :: "lock_t \<Rightarrow> bool" where
  "is_waiting l \<longleftrightarrow> flag (type_mode l) LOCK_WAIT"

definition is_gap :: "lock_t \<Rightarrow> bool" where
  "is_gap l \<longleftrightarrow> flag (type_mode l) LOCK_GAP"

definition is_record_not_gap :: "lock_t \<Rightarrow> bool" where
  "is_record_not_gap l \<longleftrightarrow> flag (type_mode l) LOCK_REC_NOT_GAP"

definition is_insert_intention :: "lock_t \<Rightarrow> bool" where
  "is_insert_intention l \<longleftrightarrow> flag (type_mode l) LOCK_INSERT_INTENTION"

definition type_string :: "lock_t \<Rightarrow> string option" where
  "type_string l =
     (let t = type_mode l AND LOCK_TYPE_MASK
      in if t = LOCK_REC then Some ''LOCK_REC''
         else if t = LOCK_TABLE then Some ''LOCK_TABLE''
         else None)"

definition type_mode_string :: "lock_t \<Rightarrow> string option" where
  "type_mode_string l =
     (case (type_string l, lock_mode_string (mode l)) of
        (Some t, Some m) \<Rightarrow>
          Some (t @ '' | '' @ m
            @ (if is_record_not_gap l then '' | LOCK_REC_NOT_GAP'' else [])
            @ (if is_waiting l then '' | LOCK_WAIT'' else [])
            @ (if is_gap l then '' | LOCK_GAP'' else [])
            @ (if is_insert_intention l then '' | LOCK_INSERT_INTENTION'' else []))
      | _ \<Rightarrow> None)"

definition lock_get_type_low :: "lock_t \<Rightarrow> uint32" where
  "lock_get_type_low l = type_mode l AND LOCK_TYPE_MASK"

definition lock_get_mode :: "lock_t \<Rightarrow> lock_mode" where
  "lock_get_mode l = lock_mode_of (type_mode l AND LOCK_MODE_MASK)"

definition lock_get_wait :: "lock_t \<Rightarrow> uint32" where
  "lock_get_wait l = type_mode l AND LOCK_WAIT"

definition lock_rec_get_gap :: "lock_t \<Rightarrow> uint32" where
  "lock_rec_get_gap l = type_mode l AND LOCK_GAP"

definition lock_rec_get_rec_not_gap :: "lock_t \<Rightarrow> uint32" where
  "lock_rec_get_rec_not_gap l = type_mode l AND LOCK_REC_NOT_GAP"

definition lock_rec_get_insert_intention :: "lock_t \<Rightarrow> uint32" where
  "lock_rec_get_insert_intention l = type_mode l AND LOCK_INSERT_INTENTION"

subsection \<open>Compatibility and strength\<close>

text \<open>Rows and columns are IS, IX, S, X, AI.\<close>

definition lock_compatibility_matrix :: "bool list list" where
  "lock_compatibility_matrix =
    [[True,  True,  True,  False, True],
     [True,  True,  False, False, True],
     [True,  False, True,  False, False],
     [False, False, False, False, False],
     [True,  True,  False, False, False]]"

definition lock_strength_matrix :: "bool list list" where
  "lock_strength_matrix =
    [[True,  False, False, False, False],
     [True,  True,  False, False, False],
     [True,  False, True,  False, False],
     [True,  True,  True,  True,  True],
     [False, False, False, False, True]]"

definition lock_mode_compatible :: "lock_mode \<Rightarrow> lock_mode \<Rightarrow> bool" where
  "lock_mode_compatible m1 m2 =
     lock_compatibility_matrix ! lock_mode_index m1 ! lock_mode_index m2"

definition lock_mode_stronger_or_eq :: "lock_mode \<Rightarrow> lock_mode \<Rightarrow> bool" where
  "lock_mode_stronger_or_eq m1 m2 =
     lock_strength_matrix ! lock_mode_index m1 ! lock_mode_index m2"


subsection \<open>Session data the wait rules ask for\<close>

text \<open>
  What the rules read of a server session (sql_class.cc, wsrep_thd.cc, wsrep_mysqld.cc): its
  place in parallel replication and in Galera replication.  \<open>thd_is_wsrep\<close> is the result of
  \<open>wsrep_thd_is_wsrep\<close>.
\<close>

datatype wsrep_exec_mode = LOCAL_STATE | REPL_RECV | TOTAL_ORDER | LOCAL_COMMIT

record rpl_group_info =
  is_parallel_exec :: bool
  rli :: addr
  domain_id :: nat
  commit_id :: nat

record thd =
  rgi_slave :: "rpl_group_info option"
  thd_is_wsrep :: bool
  wsrep_exec :: wsrep_exec_mode
  wsrep_seqno :: int

definition thd_need_ordering_with :: "thd option \<Rightarrow> thd option \<Rightarrow> bool" where
  "thd_need_ordering_with t t' =
     (case (t, t') of
        (Some thd, Some other_thd) \<Rightarrow>
          (case (rgi_slave thd, rgi_slave other_thd) of
             (Some rgi, Some other_rgi) \<Rightarrow>
               if \<not> is_parallel_exec rgi then True
               else if rli rgi \<noteq> rli other_rgi then True
               else if domain_id rgi \<noteq> domain_id other_rgi then True
               else if commit_id rgi = 0 \<or> commit_id rgi \<noteq> commit_id other_rgi then True
               else False
           | _ \<Rightarrow> True)
      | _ \<Rightarrow> True)"

definition wsrep_thd_is_BF :: "thd option \<Rightarrow> bool" where
  "wsrep_thd_is_BF t =
     (case t of None \<Rightarrow> False
      | Some thd \<Rightarrow> thd_is_wsrep thd \<and> wsrep_exec thd \<in> {REPL_RECV, TOTAL_ORDER})"

definition wsrep_trx_order_before :: "thd option \<Rightarrow> thd option \<Rightarrow> bool" where
  "wsrep_trx_order_before t t' =
     (case (t, t') of (Some thd1, Some thd2) \<Rightarrow> wsrep_seqno thd1 < wsrep_seqno thd2 | _ \<Rightarrow> False)"

subsection \<open>When a request has to wait\<close>

text \<open>
  \<open>td\<close> gives the session of a transaction.  The messages about conflicts, and with them
  the flag \<open>wsrep_debug\<close> that only they depend on, are left out.
\<close>

definition lock_rec_has_to_wait ::
  "(addr \<Rightarrow> thd option) \<Rightarrow> bool \<Rightarrow> addr \<Rightarrow> uint32 \<Rightarrow> lock_t \<Rightarrow> bool \<Rightarrow> bool" where
  "lock_rec_has_to_wait td for_locking t tm lock2 lock_is_on_supremum =
     (if t \<noteq> trx lock2
         \<and> \<not> lock_mode_compatible (lock_mode_of (LOCK_MODE_MASK AND tm)) (lock_get_mode lock2)
      then
        if (lock_is_on_supremum \<or> flag tm LOCK_GAP) \<and> \<not> flag tm LOCK_INSERT_INTENTION
        then False
        else if \<not> flag tm LOCK_INSERT_INTENTION \<and> lock_rec_get_gap lock2 \<noteq> 0
        then False
        else if flag tm LOCK_GAP \<and> lock_rec_get_rec_not_gap lock2 \<noteq> 0
        then False
        else if lock_rec_get_insert_intention lock2 \<noteq> 0
        then False
        else if (flag tm LOCK_GAP \<or> lock_rec_get_gap lock2 \<noteq> 0)
                \<and> \<not> thd_need_ordering_with (td t) (td (trx lock2))
        then False
        else if wsrep_thd_is_BF (td t) \<and> wsrep_thd_is_BF (td (trx lock2))
        then
          if wsrep_trx_order_before (td t) (td (trx lock2))
             \<and> lock_mode_of (tm AND LOCK_MODE_MASK) = LOCK_X
             \<and> lock_mode_of (type_mode lock2 AND LOCK_MODE_MASK) = LOCK_X
          then \<not> for_locking
          else False
        else True
      else False)"

subsection \<open>The bitmap\<close>

text \<open>
  Reading or writing behind the memory that was allocated is \<open>None\<close>.
\<close>

definition ULINT_UNDEFINED :: nat where
  "ULINT_UNDEFINED = 2 ^ 64 - 1"

definition lock_rec_get_n_bits :: "lock_t \<Rightarrow> nat" where
  "lock_rec_get_n_bits l = rec_n_bits l"

definition lock_rec_get_nth_bit :: "lock_t \<Rightarrow> nat \<Rightarrow> bool option" where
  "lock_rec_get_nth_bit l i =
     (if i \<ge> rec_n_bits l then Some False
      else if i div 8 < length (bitmap l) then Some (1 AND drop_bit (i mod 8) (bitmap l ! (i div 8)) \<noteq> 0)
      else None)"

definition bitmap_set :: "lock_t \<Rightarrow> nat \<Rightarrow> lock_t option" where
  "bitmap_set l i =
     (if i div 8 < length (bitmap l)
      then Some (l\<lparr>bitmap := (bitmap l)[i div 8 := bitmap l ! (i div 8) OR push_bit (i mod 8) 1]\<rparr>)
      else None)"

definition bitmap_reset :: "lock_t \<Rightarrow> nat \<Rightarrow> (8 word \<times> lock_t) option" where
  "bitmap_reset l i =
     (if i div 8 < length (bitmap l)
      then let b = bitmap l ! (i div 8); mask = push_bit (i mod 8) 1
           in Some (b AND mask, l\<lparr>bitmap := (bitmap l)[i div 8 := b AND NOT mask]\<rparr>)
      else None)"

definition lock_rec_bitmap_reset :: "lock_t \<Rightarrow> lock_t option" where
  "lock_rec_bitmap_reset l =
     (let n_bytes = lock_rec_get_n_bits l div 8
      in if n_bytes \<le> length (bitmap l)
         then Some (l\<lparr>bitmap := replicate n_bytes 0 @ drop n_bytes (bitmap l)\<rparr>)
         else None)"

fun find_set_bit :: "lock_t \<Rightarrow> nat list \<Rightarrow> nat option" where
  "find_set_bit l [] = Some ULINT_UNDEFINED"
| "find_set_bit l (i # is) =
     (case lock_rec_get_nth_bit l i of None \<Rightarrow> None
      | Some b \<Rightarrow> if b then Some i else find_set_bit l is)"

definition lock_rec_find_set_bit :: "lock_t \<Rightarrow> nat option" where
  "lock_rec_find_set_bit l = find_set_bit l [0..<lock_rec_get_n_bits l]"

text \<open>
  \<open>consistent\<close> compares the predicates (bounding rectangles) attached to two predicate
  locks, in the order of the arguments of \<open>lock_prdt_consistent\<close>.
\<close>

definition lock_prdt_has_to_wait ::
  "(lock_t \<Rightarrow> lock_t \<Rightarrow> bool) \<Rightarrow> addr \<Rightarrow> uint32 \<Rightarrow> lock_t \<Rightarrow> lock_t \<Rightarrow> bool" where
  "lock_prdt_has_to_wait consistent t tm lock1 lock2 =
     (if t \<noteq> trx lock2
         \<and> \<not> lock_mode_compatible (lock_mode_of (LOCK_MODE_MASK AND tm)) (lock_get_mode lock2)
      then
        if flag tm LOCK_PRDT_PAGE then True
        else if \<not> flag (type_mode lock2) LOCK_PREDICATE then False
        else if \<not> flag tm LOCK_INSERT_INTENTION then False
        else if flag (type_mode lock2) LOCK_INSERT_INTENTION then False
        else if \<not> consistent lock2 lock1 then False
        else True
      else False)"

definition lock_has_to_wait :: "(addr \<Rightarrow> thd option) \<Rightarrow> (lock_t \<Rightarrow> lock_t \<Rightarrow> bool)
    \<Rightarrow> lock_t \<Rightarrow> lock_t \<Rightarrow> bool option" where
  "lock_has_to_wait td consistent lock1 lock2 =
     (if trx lock1 \<noteq> trx lock2
         \<and> \<not> lock_mode_compatible (lock_get_mode lock1) (lock_get_mode lock2)
      then
        if lock_get_type_low lock1 = LOCK_REC
        then
          if flag (type_mode lock1) (LOCK_PREDICATE OR LOCK_PRDT_PAGE)
          then Some (lock_prdt_has_to_wait consistent (trx lock1) (type_mode lock1) lock1 lock2)
          else map_option (lock_rec_has_to_wait td False (trx lock1) (type_mode lock1) lock2)
                 (lock_rec_get_nth_bit lock1 1)
        else Some True
      else Some False)"

subsection \<open>Table locks\<close>

fun table_exclusive_loop :: "addr \<Rightarrow> bool \<Rightarrow> lock_t list \<Rightarrow> bool" where
  "table_exclusive_loop t ok [] = ok"
| "table_exclusive_loop t ok (l # ls) =
     (if trx l \<noteq> t then False
      else if \<not> flag (lock_get_type_low l) LOCK_TABLE then table_exclusive_loop t ok ls
      else case lock_get_mode l of
          LOCK_IX \<Rightarrow> table_exclusive_loop t True ls
        | LOCK_AUTO_INC \<Rightarrow> table_exclusive_loop t ok ls
        | _ \<Rightarrow> False)"

definition lock_is_table_exclusive :: "lock_t list \<Rightarrow> addr \<Rightarrow> bool" where
  "lock_is_table_exclusive table_locks t = table_exclusive_loop t False table_locks"

fun table_has_loop :: "addr \<Rightarrow> lock_mode \<Rightarrow> lock_t option list \<Rightarrow> lock_t option" where
  "table_has_loop table in_mode [] = None"
| "table_has_loop table in_mode (None # it) = table_has_loop table in_mode it"
| "table_has_loop table in_mode (Some l # it) =
     (if table = tab_table l \<and> lock_mode_stronger_or_eq (lock_get_mode l) in_mode
      then Some l
      else table_has_loop table in_mode it)"

definition lock_table_has :: "lock_t option list \<Rightarrow> addr \<Rightarrow> lock_mode \<Rightarrow> lock_t option" where
  "lock_table_has table_locks table in_mode =
     (if table_locks = [] then None else table_has_loop table in_mode (rev table_locks))"

fun lock_number_of_tables_locked :: "lock_t list \<Rightarrow> nat" where
  "lock_number_of_tables_locked [] = 0"
| "lock_number_of_tables_locked (l # ls) =
     (if lock_get_type_low l = LOCK_TABLE then 1 else 0) + lock_number_of_tables_locked ls"


subsection \<open>Lemmas\<close>

lemma index_less5:
  "lock_mode_index m < 5 \<longleftrightarrow> m \<in> {LOCK_IS, LOCK_IX, LOCK_S, LOCK_X, LOCK_AUTO_INC} \<or>
     (\<exists>n < 5. m = LOCK_OTHER n)"
  by (cases m) auto

lemma matrix_rows:
  "lock_compatibility_matrix ! 0 = [True, True, True, False, True]"
  "lock_compatibility_matrix ! Suc 0 = [True, True, False, False, True]"
  "lock_compatibility_matrix ! 2 = [True, False, True, False, False]"
  "lock_compatibility_matrix ! 3 = [False, False, False, False, False]"
  "lock_compatibility_matrix ! 4 = [True, True, False, False, False]"
  "lock_strength_matrix ! 0 = [True, False, False, False, False]"
  "lock_strength_matrix ! Suc 0 = [True, True, False, False, False]"
  "lock_strength_matrix ! 2 = [True, False, True, False, False]"
  "lock_strength_matrix ! 3 = [True, True, True, True, True]"
  "lock_strength_matrix ! 4 = [False, False, False, False, True]"
  by (simp_all add: lock_compatibility_matrix_def lock_strength_matrix_def)

lemma less5_cases:
  assumes "(n :: nat) < 5" obtains "n = 0" | "n = Suc 0" | "n = 2" | "n = 3" | "n = 4"
  using assms by linarith

lemma compatible_sym:
  assumes "lock_mode_index a < 5" and "lock_mode_index b < 5"
  shows "lock_mode_compatible a b = lock_mode_compatible b a"
  using assms(1) by (rule less5_cases; use assms(2) in \<open>rule less5_cases\<close>)
    (simp_all add: lock_mode_compatible_def matrix_rows)

lemma stronger_conflicts_more:
  assumes "lock_mode_index a < 5" and "lock_mode_index b < 5" and "lock_mode_index c < 5"
    and "lock_mode_stronger_or_eq a b" and "lock_mode_compatible a c"
  shows "lock_mode_compatible b c"
  using assms(1)
  by (rule less5_cases; use assms(2) in \<open>rule less5_cases\<close>; use assms(3) in \<open>rule less5_cases\<close>)
    (use assms(4,5) in \<open>simp_all add: lock_mode_compatible_def lock_mode_stronger_or_eq_def matrix_rows\<close>)

lemma stronger_trans:
  assumes "lock_mode_index a < 5" and "lock_mode_index b < 5" and "lock_mode_index c < 5"
    and "lock_mode_stronger_or_eq a b" and "lock_mode_stronger_or_eq b c"
  shows "lock_mode_stronger_or_eq a c"
  using assms(1)
  by (rule less5_cases; use assms(2) in \<open>rule less5_cases\<close>; use assms(3) in \<open>rule less5_cases\<close>)
    (use assms(4,5) in \<open>simp_all add: lock_mode_stronger_or_eq_def matrix_rows\<close>)

lemma stronger_antisym:
  assumes "lock_mode_index a < 5" and "lock_mode_index b < 5"
    and "lock_mode_stronger_or_eq a b" and "lock_mode_stronger_or_eq b a"
  shows "lock_mode_index a = lock_mode_index b"
  using assms(1) by (rule less5_cases; use assms(2) in \<open>rule less5_cases\<close>)
    (use assms(3,4) in \<open>simp_all add: lock_mode_stronger_or_eq_def matrix_rows\<close>)

lemma bit_mask_iff: "(1 AND drop_bit k (b :: 8 word) \<noteq> 0) \<longleftrightarrow> bit b k"
  by (simp add: one_and_eq bit_iff_odd_drop_bit odd_iff_mod_2_eq_one)

lemma nth_bit_iff:
  assumes "rec_n_bits l \<le> 8 * length (bitmap l)"
  shows "lock_rec_get_nth_bit l i = Some (i < rec_n_bits l \<and> bit (bitmap l ! (i div 8)) (i mod 8))"
  using assms by (auto simp: lock_rec_get_nth_bit_def bit_mask_iff)

lemma bitmap_set_nth:
  assumes "i < 8 * length (bs :: 8 word list)" and "j div 8 < length bs"
  shows "bit (bs[i div 8 := bs ! (i div 8) OR push_bit (i mod 8) 1] ! (j div 8)) (j mod 8)
    \<longleftrightarrow> j = i \<or> bit (bs ! (j div 8)) (j mod 8)"
proof (cases "j div 8 = i div 8")
  case True
  have "j mod 8 = i mod 8 \<longleftrightarrow> j = i"
    using True by (metis div_mult_mod_eq)
  then show ?thesis
    using True assms by (auto simp: bit_or_iff bit_exp_iff)
qed auto

lemma bitmap_reset_nth:
  assumes "i < 8 * length (bs :: 8 word list)" and "j div 8 < length bs"
  shows "bit (bs[i div 8 := bs ! (i div 8) AND NOT (push_bit (i mod 8) 1)] ! (j div 8)) (j mod 8)
    \<longleftrightarrow> j \<noteq> i \<and> bit (bs ! (j div 8)) (j mod 8)"
proof (cases "j div 8 = i div 8")
  case True
  have "j mod 8 = i mod 8 \<longleftrightarrow> j = i"
    using True by (metis div_mult_mod_eq)
  then show ?thesis
    using True assms by (auto simp: bit_and_iff bit_not_iff bit_exp_iff)
qed auto


lemma roundtrip_bits:
  assumes ok: "rec_n_bits l \<le> 8 * length (bitmap l)" and i: "i < rec_n_bits l"
  obtains l' l'' b where "bitmap_set l i = Some l'" and "bitmap_reset l' i = Some (b, l'')"
    and "\<And>j. lock_rec_get_nth_bit l' j = map_option (\<lambda>v. v \<or> j = i) (lock_rec_get_nth_bit l j)"
    and "\<And>j. lock_rec_get_nth_bit l'' j = map_option (\<lambda>v. v \<and> j \<noteq> i) (lock_rec_get_nth_bit l j)"
    and "b \<noteq> 0" and "lock_rec_get_nth_bit l i = Some False \<Longrightarrow> l'' = l"
proof -
  let ?b = "bitmap l ! (i div 8)" and ?m = "push_bit (i mod 8) (1 :: 8 word)"
  define l' where "l' = l\<lparr>bitmap := (bitmap l)[i div 8 := ?b OR ?m]\<rparr>"
  define l'' where "l'' = l'\<lparr>bitmap := (bitmap l')[i div 8 := bitmap l' ! (i div 8) AND NOT ?m]\<rparr>"
  have len: "length (bitmap l') = length (bitmap l)" "length (bitmap l'') = length (bitmap l)"
    "rec_n_bits l' = rec_n_bits l" "rec_n_bits l'' = rec_n_bits l"
    by (simp_all add: l'_def l''_def)
  have i8: "i < 8 * length (bitmap l)" "i div 8 < length (bitmap l)"
    using ok i by simp_all
  have set: "bitmap_set l i = Some l'"
    using i8 by (simp add: bitmap_set_def l'_def)
  have reset: "bitmap_reset l' i = Some (bitmap l' ! (i div 8) AND ?m, l'')"
    using i8 len by (simp add: bitmap_reset_def l''_def Let_def)
  have bits: "bit (bitmap l' ! (j div 8)) (j mod 8) \<longleftrightarrow> j = i \<or> bit (bitmap l ! (j div 8)) (j mod 8)"
    if "j < rec_n_bits l" for j
    using bitmap_set_nth[of i "bitmap l" j] that i8 ok by (simp add: l'_def)
  have bits2: "bit (bitmap l'' ! (j div 8)) (j mod 8) \<longleftrightarrow> j \<noteq> i \<and> bit (bitmap l ! (j div 8)) (j mod 8)"
    if "j < rec_n_bits l" for j
    using bitmap_reset_nth[of i "bitmap l'" j] that i8 ok len bits[OF that] by (auto simp: l''_def)
  have same: "l'' = l" if "\<not> bit ?b (i mod 8)"
  proof -
    have "(?b OR ?m) AND NOT ?m = ?b"
      by (rule bit_eqI) (use that in \<open>auto simp: bit_simps\<close>)
    then show ?thesis
      using i8 by (simp add: l''_def l'_def)
  qed
  have nz: "bitmap l' ! (i div 8) AND ?m \<noteq> 0"
  proof -
    have "bit (bitmap l' ! (i div 8) AND ?m) (i mod 8)"
      using bits[OF i] by (simp add: bit_and_iff bit_exp_iff)
    then show ?thesis by auto
  qed
  show thesis
    by (rule that[OF set reset _ _ nz])
      (use ok len bits bits2 i same in \<open>auto simp: nth_bit_iff\<close>)
qed


subsection \<open>What the wait rules mean\<close>

text \<open>
  A record lock protects the record, the gap before it, or both; a request is after the
  record, after the gap (an insert), or after nothing that others can deny it (a lock on a gap
  that is no insert).
\<close>

datatype lock_part = Record_part | Gap_part

definition protects :: "lock_t \<Rightarrow> lock_part set" where
  "protects l = (if is_insert_intention l then {}
     else (if is_gap l then {} else {Record_part}) \<union> (if is_record_not_gap l then {} else {Gap_part}))"

definition wants :: "bool \<Rightarrow> uint32 \<Rightarrow> lock_part set" where
  "wants supremum tm =
     (if flag tm LOCK_INSERT_INTENTION then (if flag tm LOCK_GAP then {Gap_part} else {Record_part, Gap_part})
      else if supremum \<or> flag tm LOCK_GAP then {} else {Record_part})"

lemma mode_compatible_SX:
  assumes "a \<in> {LOCK_S, LOCK_X}" and "b \<in> {LOCK_S, LOCK_X}"
  shows "lock_mode_compatible a b \<longleftrightarrow> a = LOCK_S \<and> b = LOCK_S"
  using assms by (auto simp: lock_mode_compatible_def matrix_rows)


definition sample_lock :: "addr \<Rightarrow> uint32 \<Rightarrow> lock_t" where
  "sample_lock t tm = \<lparr>trx = t, index = 0, hash = None, tab_table = 0, rec_space = 0,
     rec_page_no = 0, rec_n_bits = 16, type_mode = tm, timestamp = 0, state = True,
     gc_hash = None, bitmap = [0, 0]\<rparr>"




end
