(* ===== verification/Lock_Queue.thy ===== *)
theory Lock_Queue
  imports Lock_Modes "HOL-Library.Monad_Syntax"
begin

text \<open>
  The record lock queues of InnoDB in project 4 (hash0hash.h, lock0priv.ic, lock0lock.cc):
  locks live at addresses and are linked through their \<open>hash\<close> field into the chain of a
  hash cell.  The original code keeps a chain behind \<open>node\<close>; the code added for the
  project keeps a second one behind \<open>head\<close> and \<open>tail\<close> of the same cell.  The result \<open>None\<close> of
  a function says that it does not return: it follows a dangling pointer, reads behind
  the bitmap, or runs forever in a cyclic chain.  Assertions that only the debug build has are left out.
\<close>

subsection \<open>State\<close>

record hash_cell =
  tail :: ptr
  head :: ptr
  node :: ptr

record hash_table =
  n_cells :: nat
  array :: "nat \<Rightarrow> hash_cell"

datatype hash_id = rec_hash | prdt_hash | prdt_page_hash

record trx_t =
  mysql_thd :: "thd option"
  n_rec_locks :: nat
  wait_lock :: ptr
  trx_locks :: "addr list"
  trx_timestamp :: nat

record lock_sys =
  locks :: "addr \<rightharpoonup> lock_t"
  trxs :: "addr \<Rightarrow> trx_t"
  hashes :: "hash_id \<Rightarrow> hash_table"
  table_of :: "addr \<Rightarrow> addr"
  table_n_rec_locks :: "addr \<Rightarrow> nat"
  gclist_head :: ptr
  gclist_tail :: ptr
  sys_timestamp :: nat

record buf_block =
  space :: nat
  page_no :: nat
  n_heap :: nat

definition PAGE_HEAP_NO_SUPREMUM :: nat where
  "PAGE_HEAP_NO_SUPREMUM = 1"

subsection \<open>Hashing\<close>

definition ut_fold_ulint_pair :: "ulint \<Rightarrow> ulint \<Rightarrow> ulint" where
  "ut_fold_ulint_pair n1 n2 =
     ((push_bit 8 (n1 XOR n2 XOR 1653893711) + n1) XOR 1463735687) + n2"

definition ut_hash_ulint :: "ulint \<Rightarrow> nat \<Rightarrow> nat" where
  "ut_hash_ulint key table_size = unat ((key XOR 1653893711) mod word_of_nat table_size)"

definition lock_rec_fold :: "nat \<Rightarrow> nat \<Rightarrow> ulint" where
  "lock_rec_fold sp pg = ut_fold_ulint_pair (word_of_nat sp) (word_of_nat pg)"

definition lock_rec_hash :: "lock_sys \<Rightarrow> nat \<Rightarrow> nat \<Rightarrow> nat" where
  "lock_rec_hash s sp pg = ut_hash_ulint (lock_rec_fold sp pg) (n_cells (hashes s rec_hash))"

definition lock_hash_get :: "uint32 \<Rightarrow> hash_id" where
  "lock_hash_get m =
     (if flag m LOCK_PREDICATE then prdt_hash
      else if flag m LOCK_PRDT_PAGE then prdt_page_hash
      else rec_hash)"

definition hash_get_nth_cell :: "lock_sys \<Rightarrow> hash_id \<Rightarrow> nat \<Rightarrow> hash_cell" where
  "hash_get_nth_cell s hid i = array (hashes s hid) i"

definition set_cell :: "hash_id \<Rightarrow> nat \<Rightarrow> (hash_cell \<Rightarrow> hash_cell) \<Rightarrow> lock_sys \<Rightarrow> lock_sys" where
  "set_cell hid i f s = s\<lparr>hashes := (hashes s)(hid :=
     (hashes s hid)\<lparr>array := (array (hashes s hid))(i := f (array (hashes s hid) i))\<rparr>)\<rparr>"

definition cell_of :: "lock_sys \<Rightarrow> hash_id \<Rightarrow> nat \<Rightarrow> nat \<Rightarrow> nat" where
  "cell_of s hid sp pg = ut_hash_ulint (lock_rec_fold sp pg) (n_cells (hashes s hid))"

subsection \<open>Walking a chain\<close>

text \<open>
  The loops of the source over a queue: from \<open>p\<close>, stepping with \<open>nx\<close>, up to the first lock
  that passes the test.  \<open>nx\<close> is \<open>HASH_GET_NEXT\<close>, \<open>lock_rec_get_next_on_page\<close> or
  \<open>lock_rec_get_next\<close>.
\<close>

partial_function (option) loop_find ::
  "(addr \<Rightarrow> ptr option) \<Rightarrow> (addr \<Rightarrow> bool option) \<Rightarrow> ptr \<Rightarrow> ptr option" where
  "loop_find nx P p =
     (case p of None \<Rightarrow> Some None
      | Some a \<Rightarrow> do {
          b \<leftarrow> P a;
          if b then Some (Some a)
          else do { q \<leftarrow> nx a; loop_find nx P q } })"

definition HASH_GET_NEXT :: "lock_sys \<Rightarrow> addr \<Rightarrow> ptr option" where
  "HASH_GET_NEXT s a = map_option hash (locks s a)"

definition HASH_GET_FIRST :: "lock_sys \<Rightarrow> hash_id \<Rightarrow> nat \<Rightarrow> ptr" where
  "HASH_GET_FIRST s hid i = node (hash_get_nth_cell s hid i)"

definition on_page :: "nat \<Rightarrow> nat \<Rightarrow> lock_t \<Rightarrow> bool" where
  "on_page sp pg l \<longleftrightarrow> rec_space l = sp \<and> rec_page_no l = pg"

definition lock_rec_get_first_on_page_addr :: "lock_sys \<Rightarrow> hash_id \<Rightarrow> nat \<Rightarrow> nat \<Rightarrow> ptr option" where
  "lock_rec_get_first_on_page_addr s hid sp pg =
     loop_find (HASH_GET_NEXT s) (\<lambda>a. map_option (on_page sp pg) (locks s a))
       (HASH_GET_FIRST s hid (lock_rec_hash s sp pg))"

definition lock_rec_get_first_on_page :: "lock_sys \<Rightarrow> hash_id \<Rightarrow> buf_block \<Rightarrow> ptr option" where
  "lock_rec_get_first_on_page s hid b =
     loop_find (HASH_GET_NEXT s) (\<lambda>a. map_option (on_page (space b) (page_no b)) (locks s a))
       (HASH_GET_FIRST s hid (lock_rec_hash s (space b) (page_no b)))"

definition lock_rec_get_next_on_page :: "lock_sys \<Rightarrow> addr \<Rightarrow> ptr option" where
  "lock_rec_get_next_on_page s a = do {
     l \<leftarrow> locks s a;
     q \<leftarrow> HASH_GET_NEXT s a;
     loop_find (HASH_GET_NEXT s)
       (\<lambda>b. map_option (on_page (rec_space l) (rec_page_no l)) (locks s b)) q }"

definition nth_bit_of :: "lock_sys \<Rightarrow> nat \<Rightarrow> addr \<Rightarrow> bool option" where
  "nth_bit_of s heap_no a = do { l \<leftarrow> locks s a; lock_rec_get_nth_bit l heap_no }"

definition lock_rec_get_next :: "lock_sys \<Rightarrow> nat \<Rightarrow> addr \<Rightarrow> ptr option" where
  "lock_rec_get_next s heap_no a = do {
     q \<leftarrow> lock_rec_get_next_on_page s a;
     loop_find (lock_rec_get_next_on_page s) (nth_bit_of s heap_no) q }"

definition lock_rec_get_first :: "lock_sys \<Rightarrow> hash_id \<Rightarrow> buf_block \<Rightarrow> nat \<Rightarrow> ptr option" where
  "lock_rec_get_first s hid b heap_no = do {
     p \<leftarrow> lock_rec_get_first_on_page s hid b;
     loop_find (lock_rec_get_next_on_page s) (nth_bit_of s heap_no) p }"

definition lock_rec_expl_exist_on_page :: "lock_sys \<Rightarrow> nat \<Rightarrow> nat \<Rightarrow> ptr option" where
  "lock_rec_expl_exist_on_page s sp pg = lock_rec_get_first_on_page_addr s rec_hash sp pg"

text \<open>The loop of \<open>lock_rec_get_prev\<close>: \<open>found\<close> is the last lock on the record before \<open>in_lock\<close>.\<close>

partial_function (option) prev_loop ::
  "(addr \<Rightarrow> ptr option) \<Rightarrow> (addr \<Rightarrow> bool option) \<Rightarrow> addr \<times> ptr \<times> ptr \<Rightarrow> ptr option" where
  "prev_loop nx P st = (case st of (in_lock, found, p) \<Rightarrow>
     (case p of None \<Rightarrow> None
      | Some a \<Rightarrow>
          if a = in_lock then Some found
          else do {
            b \<leftarrow> P a;
            q \<leftarrow> nx a;
            prev_loop nx P (in_lock, if b then Some a else found, q) }))"

definition lock_rec_get_prev :: "lock_sys \<Rightarrow> addr \<Rightarrow> nat \<Rightarrow> ptr option" where
  "lock_rec_get_prev s in_lock heap_no = do {
     l \<leftarrow> locks s in_lock;
     p \<leftarrow> lock_rec_get_first_on_page_addr s (lock_hash_get (type_mode l)) (rec_space l) (rec_page_no l);
     prev_loop (lock_rec_get_next_on_page s) (nth_bit_of s heap_no) (in_lock, None, p) }"

subsection \<open>Questions about a queue\<close>

abbreviation session :: "lock_sys \<Rightarrow> addr \<Rightarrow> thd option" where
  "session s t \<equiv> mysql_thd (trxs s t)"

definition grants :: "uint32 \<Rightarrow> nat \<Rightarrow> addr \<Rightarrow> lock_t \<Rightarrow> bool" where
  "grants precise_mode heap_no t l \<longleftrightarrow>
     trx l = t
     \<and> lock_rec_get_insert_intention l = 0
     \<and> lock_mode_stronger_or_eq (lock_get_mode l) (lock_mode_of (precise_mode AND LOCK_MODE_MASK))
     \<and> lock_get_wait l = 0
     \<and> (lock_rec_get_rec_not_gap l = 0 \<or> flag precise_mode LOCK_REC_NOT_GAP
          \<or> heap_no = PAGE_HEAP_NO_SUPREMUM)
     \<and> (lock_rec_get_gap l = 0 \<or> flag precise_mode LOCK_GAP \<or> heap_no = PAGE_HEAP_NO_SUPREMUM)"

definition lock_rec_has_expl :: "lock_sys \<Rightarrow> uint32 \<Rightarrow> buf_block \<Rightarrow> nat \<Rightarrow> addr \<Rightarrow> ptr option" where
  "lock_rec_has_expl s precise_mode b heap_no t = do {
     p \<leftarrow> lock_rec_get_first s rec_hash b heap_no;
     loop_find (lock_rec_get_next s heap_no)
       (\<lambda>a. map_option (grants precise_mode heap_no t) (locks s a)) p }"

definition lock_rec_other_has_expl_req ::
  "lock_sys \<Rightarrow> lock_mode \<Rightarrow> buf_block \<Rightarrow> bool \<Rightarrow> nat \<Rightarrow> addr \<Rightarrow> ptr option" where
  "lock_rec_other_has_expl_req s m b wait heap_no t =
     (if heap_no = PAGE_HEAP_NO_SUPREMUM then Some None
      else do {
        p \<leftarrow> lock_rec_get_first s rec_hash b heap_no;
        loop_find (lock_rec_get_next s heap_no)
          (\<lambda>a. map_option (\<lambda>l. trx l \<noteq> t \<and> lock_rec_get_gap l = 0
             \<and> (wait \<or> lock_get_wait l = 0)
             \<and> lock_mode_stronger_or_eq (lock_get_mode l) m) (locks s a)) p })"

definition lock_rec_other_has_conflicting ::
  "lock_sys \<Rightarrow> uint32 \<Rightarrow> buf_block \<Rightarrow> nat \<Rightarrow> addr \<Rightarrow> ptr option" where
  "lock_rec_other_has_conflicting s m b heap_no t = do {
     p \<leftarrow> lock_rec_get_first s rec_hash b heap_no;
     loop_find (lock_rec_get_next s heap_no)
       (\<lambda>a. map_option (\<lambda>l. lock_rec_has_to_wait (session s) True t m l
          (heap_no = PAGE_HEAP_NO_SUPREMUM)) (locks s a)) p }"

definition lock_rec_find_similar_on_page ::
  "lock_sys \<Rightarrow> uint32 \<Rightarrow> nat \<Rightarrow> ptr \<Rightarrow> addr \<Rightarrow> ptr option" where
  "lock_rec_find_similar_on_page s tm heap_no p t =
     loop_find (lock_rec_get_next_on_page s)
       (\<lambda>a. map_option (\<lambda>l. trx l = t \<and> type_mode l = tm \<and> lock_rec_get_n_bits l > heap_no)
          (locks s a)) p"

definition lock_rec_has_to_wait_in_queue ::
  "(lock_t \<Rightarrow> lock_t \<Rightarrow> bool) \<Rightarrow> lock_sys \<Rightarrow> addr \<Rightarrow> ptr option" where
  "lock_rec_has_to_wait_in_queue consistent s w = do {
     wl \<leftarrow> locks s w;
     heap_no \<leftarrow> lock_rec_find_set_bit wl;
     p \<leftarrow> lock_rec_get_first_on_page_addr s (lock_hash_get (type_mode wl)) (rec_space wl) (rec_page_no wl);
     r \<leftarrow> loop_find (lock_rec_get_next_on_page s)
       (\<lambda>a. if a = w then Some True
            else do {
              l \<leftarrow> locks s a;
              b \<leftarrow> lock_rec_get_nth_bit l heap_no;
              if b then do {
                c \<leftarrow> lock_has_to_wait (session s) consistent wl l;
                Some (c \<and> \<not> (wsrep_thd_is_BF (session s (trx wl)) \<and> wsrep_thd_is_BF (session s (trx l)))) }
              else Some False }) p;
     a \<leftarrow> r;
     Some (if a = w then None else Some a) }"

subsection \<open>Changing a lock\<close>

definition upd_lock :: "addr \<Rightarrow> lock_t \<Rightarrow> lock_sys \<Rightarrow> lock_sys" where
  "upd_lock a l s = s\<lparr>locks := (locks s)(a \<mapsto> l)\<rparr>"

definition upd_trx :: "addr \<Rightarrow> (trx_t \<Rightarrow> trx_t) \<Rightarrow> lock_sys \<Rightarrow> lock_sys" where
  "upd_trx t f s = s\<lparr>trxs := (trxs s)(t := f (trxs s t))\<rparr>"

definition lock_rec_set_nth_bit :: "lock_sys \<Rightarrow> addr \<Rightarrow> nat \<Rightarrow> lock_sys option" where
  "lock_rec_set_nth_bit s a i = do {
     l \<leftarrow> locks s a;
     l' \<leftarrow> bitmap_set l i;
     Some (upd_trx (trx l) (\<lambda>t. t\<lparr>n_rec_locks := n_rec_locks t + 1\<rparr>) (upd_lock a l' s)) }"

definition lock_rec_reset_nth_bit :: "lock_sys \<Rightarrow> addr \<Rightarrow> nat \<Rightarrow> (8 word \<times> lock_sys) option" where
  "lock_rec_reset_nth_bit s a i = do {
     l \<leftarrow> locks s a;
     (b, l') \<leftarrow> bitmap_reset l i;
     Some (b, (if b \<noteq> 0 then upd_trx (trx l) (\<lambda>t. t\<lparr>n_rec_locks := n_rec_locks t - 1\<rparr>) else id)
        (upd_lock a l' s)) }"

definition lock_set_lock_and_trx_wait :: "lock_sys \<Rightarrow> addr \<Rightarrow> addr \<Rightarrow> lock_sys option" where
  "lock_set_lock_and_trx_wait s a t = do {
     l \<leftarrow> locks s a;
     Some (upd_lock a (l\<lparr>type_mode := type_mode l OR LOCK_WAIT\<rparr>)
       (upd_trx t (\<lambda>t. t\<lparr>wait_lock := Some a\<rparr>) s)) }"

definition lock_reset_lock_and_trx_wait :: "lock_sys \<Rightarrow> addr \<Rightarrow> lock_sys option" where
  "lock_reset_lock_and_trx_wait s a = do {
     l \<leftarrow> locks s a;
     Some (upd_lock a (l\<lparr>type_mode := type_mode l AND NOT LOCK_WAIT\<rparr>)
       (upd_trx (trx l) (\<lambda>t. t\<lparr>wait_lock := None\<rparr>) s)) }"

definition lock_rec_trx_wait :: "lock_sys \<Rightarrow> addr \<Rightarrow> nat \<Rightarrow> uint32 \<Rightarrow> lock_sys option" where
  "lock_rec_trx_wait s a i ty = do {
     (b, s') \<leftarrow> lock_rec_reset_nth_bit s a i;
     if flag ty LOCK_WAIT then lock_reset_lock_and_trx_wait s' a else Some s' }"

subsection \<open>Creating a lock\<close>

text \<open>
  \<open>RecLock\<close> carries a request.  The address \<open>a\<close> of a new lock is fresh memory from the
  transaction's pool, its heap or malloc; \<open>g\<close> is what that memory holds: the fields an
  allocation function does not set keep the value of \<open>g\<close>.
\<close>

record RecID =
  m_space_id :: nat
  m_page_no :: nat
  m_heap_no :: nat

record RecLock =
  m_mode :: uint32
  m_size :: nat
  m_index :: addr
  m_rec_id :: RecID

definition is_predicate_lock :: "uint32 \<Rightarrow> bool" where
  "is_predicate_lock m \<longleftrightarrow> flag m (LOCK_PREDICATE OR LOCK_PRDT_PAGE)"

definition LOCK_PAGE_BITMAP_MARGIN :: nat where
  "LOCK_PAGE_BITMAP_MARGIN = 64"

text \<open>A \<open>lock_prdt_t\<close>, a pointer and a 16-bit integer, has 16 bytes.\<close>

definition lock_size :: "uint32 \<Rightarrow> nat \<Rightarrow> nat" where
  "lock_size m n_recs =
     (if is_predicate_lock m
      then if flag m LOCK_PREDICATE then (1 + 16 + 7) div 8 * 8 else 1
      else 1 + (n_recs + LOCK_PAGE_BITMAP_MARGIN) div 8)"

definition RecLock_init :: "addr \<Rightarrow> buf_block \<Rightarrow> nat \<Rightarrow> uint32 \<Rightarrow> RecLock" where
  "RecLock_init ix b heap_no m =
     \<lparr>m_mode = (if heap_no = PAGE_HEAP_NO_SUPREMUM then m AND NOT (LOCK_GAP OR LOCK_REC_NOT_GAP) else m),
      m_size = lock_size m (n_heap b), m_index = ix,
      m_rec_id = \<lparr>m_space_id = space b, m_page_no = page_no b, m_heap_no = heap_no\<rparr>\<rparr>"

definition is_on_row :: "RecLock \<Rightarrow> lock_t \<Rightarrow> bool option" where
  "is_on_row r l =
     (if rec_space l = m_space_id (m_rec_id r) \<and> rec_page_no l = m_page_no (m_rec_id r)
      then lock_rec_get_nth_bit l (m_heap_no (m_rec_id r)) else Some False)"

definition lock_alloc :: "lock_sys \<Rightarrow> addr \<Rightarrow> lock_t \<Rightarrow> addr \<Rightarrow> RecLock \<Rightarrow> lock_sys option" where
  "lock_alloc s a g t r =
     lock_rec_set_nth_bit
       (upd_lock a (g\<lparr>trx := t, index := m_index r,
          type_mode := LOCK_REC OR (m_mode r AND NOT LOCK_TYPE_MASK),
          rec_n_bits := (if is_predicate_lock (m_mode r) then 8 else unat (word_of_nat (8 * m_size r) :: uint32)),
          bitmap := (if is_predicate_lock (m_mode r) then [0] else replicate (m_size r) 0),
          rec_space := m_space_id (m_rec_id r), rec_page_no := m_page_no (m_rec_id r)\<rparr>) s)
       a (m_heap_no (m_rec_id r))"

definition project4_lock_alloc :: "lock_sys \<Rightarrow> addr \<Rightarrow> lock_t \<Rightarrow> addr \<Rightarrow> RecLock \<Rightarrow> lock_sys" where
  "project4_lock_alloc s a g t r =
     upd_lock a (g\<lparr>trx := t, index := m_index r,
       type_mode := LOCK_REC OR (m_mode r AND NOT LOCK_TYPE_MASK), hash := None,
       rec_space := m_space_id (m_rec_id r), rec_page_no := m_page_no (m_rec_id r),
       timestamp := trx_timestamp (trxs s t), state := True, gc_hash := None, bitmap := []\<rparr>) s"

subsection \<open>Adding a lock to a queue\<close>

text \<open>\<open>HASH_INSERT\<close> appends to the chain behind \<open>node\<close>.\<close>

partial_function (option) last_of :: "(addr \<Rightarrow> ptr option) \<Rightarrow> addr \<Rightarrow> addr option" where
  "last_of nx a = do {
     q \<leftarrow> nx a;
     case q of None \<Rightarrow> Some a | Some b \<Rightarrow> last_of nx b }"

definition set_hash :: "addr \<Rightarrow> ptr \<Rightarrow> lock_sys \<Rightarrow> lock_sys option" where
  "set_hash a q s = do { l \<leftarrow> locks s a; Some (upd_lock a (l\<lparr>hash := q\<rparr>) s) }"

definition HASH_INSERT :: "lock_sys \<Rightarrow> hash_id \<Rightarrow> nat \<Rightarrow> addr \<Rightarrow> lock_sys option" where
  "HASH_INSERT s hid i a = do {
     s1 \<leftarrow> set_hash a None s;
     case node (hash_get_nth_cell s1 hid i) of
       None \<Rightarrow> Some (set_cell hid i (\<lambda>c. c\<lparr>node := Some a\<rparr>) s1)
     | Some b \<Rightarrow> do { z \<leftarrow> last_of (HASH_GET_NEXT s1) b; set_hash z (Some a) s1 } }"

definition lock_rec_insert_to_head :: "lock_sys \<Rightarrow> addr \<Rightarrow> lock_sys option" where
  "lock_rec_insert_to_head s a = do {
     l \<leftarrow> locks s a;
     let hid = lock_hash_get (type_mode l);
         i = cell_of s hid (rec_space l) (rec_page_no l)
     in Some (if node (hash_get_nth_cell s hid i) \<noteq> Some a
              then set_cell hid i (\<lambda>c. c\<lparr>node := Some a\<rparr>) s else s) }"

definition project4_lock_rec_insert_to_tail :: "lock_sys \<Rightarrow> addr \<Rightarrow> lock_sys option" where
  "project4_lock_rec_insert_to_tail s a = do {
     l \<leftarrow> locks s a;
     let hid = lock_hash_get (type_mode l);
         i = cell_of s hid (rec_space l) (rec_page_no l);
         old_tail = tail (hash_get_nth_cell s hid i);
         s1 = set_cell hid i (\<lambda>c. c\<lparr>tail := Some a\<rparr>) s
     in case old_tail of
          None \<Rightarrow> Some (set_cell hid i (\<lambda>c. c\<lparr>head := Some a\<rparr>) s1)
        | Some b \<Rightarrow> set_hash b (Some a) s1 }"

definition count_rec_lock :: "addr \<Rightarrow> lock_sys \<Rightarrow> lock_sys" where
  "count_rec_lock ix s = s\<lparr>table_n_rec_locks :=
     (table_n_rec_locks s)(table_of s ix := table_n_rec_locks s (table_of s ix) + 1)\<rparr>"

text \<open>
  \<open>vats\<close> says that the VATS algorithm schedules the locks and the session is no replication
  slave.
\<close>

definition lock_add :: "bool \<Rightarrow> RecLock \<Rightarrow> lock_sys \<Rightarrow> addr \<Rightarrow> bool \<Rightarrow> lock_sys option" where
  "lock_add vats r s a add_to_hash = do {
     l \<leftarrow> locks s a;
     let wait = flag (m_mode r) LOCK_WAIT;
     let hid = lock_hash_get (m_mode r);
     let i = cell_of s hid (m_space_id (m_rec_id r)) (m_page_no (m_rec_id r));
     s1 \<leftarrow> (if add_to_hash
            then if vats \<and> \<not> wait then lock_rec_insert_to_head (count_rec_lock (index l) s) a
                 else HASH_INSERT (count_rec_lock (index l) s) hid i a
            else Some s);
     s2 \<leftarrow> (if wait then lock_set_lock_and_trx_wait s1 a (trx l) else Some s1);
     Some (upd_trx (trx l) (\<lambda>t. t\<lparr>trx_locks := trx_locks t @ [a]\<rparr>) s2) }"

definition project4_lock_add :: "lock_sys \<Rightarrow> addr \<Rightarrow> bool \<Rightarrow> lock_sys option" where
  "project4_lock_add s a add_to_hash = do {
     l \<leftarrow> locks s a;
     s1 \<leftarrow> (if add_to_hash then project4_lock_rec_insert_to_tail (count_rec_lock (index l) s) a
            else Some s);
     Some (upd_trx (trx l) (\<lambda>t. t\<lparr>trx_locks := trx_locks t @ [a]\<rparr>) s1) }"

definition create :: "bool \<Rightarrow> lock_sys \<Rightarrow> addr \<Rightarrow> lock_t \<Rightarrow> addr \<Rightarrow> RecLock \<Rightarrow> bool \<Rightarrow> lock_sys option" where
  "create vats s a g t r add_to_hash = do {
     s1 \<leftarrow> lock_alloc s a g t r;
     lock_add vats r s1 a add_to_hash }"

definition project4_create :: "lock_sys \<Rightarrow> addr \<Rightarrow> lock_t \<Rightarrow> addr \<Rightarrow> RecLock \<Rightarrow> bool \<Rightarrow> lock_sys option" where
  "project4_create s a g t r add_to_hash =
     project4_lock_add (project4_lock_alloc s a g t r) a add_to_hash"

subsection \<open>Requesting a lock\<close>

datatype lock_rec_req_status = LOCK_REC_FAIL | LOCK_REC_SUCCESS | LOCK_REC_SUCCESS_CREATED

text \<open>
  \<open>Wait_for w\<close> is the outcome that the request conflicts with \<open>w\<close>: the code goes on with
  \<open>RecLock::add_to_waitq\<close> and its deadlock detection, which are not modelled.
\<close>

datatype dberr_t = DB_SUCCESS | DB_SUCCESS_LOCKED_REC | Wait_for addr

text \<open>
  What a request has to do with memory and scheduling: the address and the old contents of
  the new lock struct, and the scheduling algorithm.
\<close>

record fresh =
  at :: addr
  garbage :: lock_t
  vats :: bool

definition lock_rec_lock_fast ::
  "lock_sys \<Rightarrow> fresh \<Rightarrow> bool \<Rightarrow> uint32 \<Rightarrow> buf_block \<Rightarrow> nat \<Rightarrow> addr \<Rightarrow> addr
     \<Rightarrow> (lock_sys \<times> lock_rec_req_status) option" where
  "lock_rec_lock_fast s f impl m b heap_no ix t = do {
     p \<leftarrow> lock_rec_get_first_on_page s rec_hash b;
     case p of
       None \<Rightarrow> do {
         s' \<leftarrow> (if impl then Some s
                else create (vats f) s (at f) (garbage f) t (RecLock_init ix b heap_no m) True);
         Some (s', LOCK_REC_SUCCESS_CREATED) }
     | Some a \<Rightarrow> do {
         l \<leftarrow> locks s a;
         q \<leftarrow> lock_rec_get_next_on_page s a;
         if q \<noteq> None \<or> trx l \<noteq> t \<or> type_mode l \<noteq> (m OR LOCK_REC) \<or> lock_rec_get_n_bits l \<le> heap_no
         then Some (s, LOCK_REC_FAIL)
         else if \<not> impl then do {
           bt \<leftarrow> lock_rec_get_nth_bit l heap_no;
           if bt then Some (s, LOCK_REC_SUCCESS)
           else do { s' \<leftarrow> lock_rec_set_nth_bit s a heap_no; Some (s', LOCK_REC_SUCCESS_CREATED) } }
         else Some (s, LOCK_REC_SUCCESS) } }"

definition lock_rec_add_to_queue ::
  "lock_sys \<Rightarrow> fresh \<Rightarrow> uint32 \<Rightarrow> buf_block \<Rightarrow> nat \<Rightarrow> addr \<Rightarrow> addr \<Rightarrow> lock_sys option" where
  "lock_rec_add_to_queue s f tm b heap_no ix t =
     (let tm1 = tm OR LOCK_REC;
          tm2 = (if heap_no = PAGE_HEAP_NO_SUPREMUM then tm1 AND NOT (LOCK_GAP OR LOCK_REC_NOT_GAP) else tm1)
      in do {
        p \<leftarrow> lock_rec_get_first_on_page s (lock_hash_get tm2) b;
        w \<leftarrow> loop_find (lock_rec_get_next_on_page s)
              (\<lambda>a. do { l \<leftarrow> locks s a;
                       if lock_get_wait l \<noteq> 0 then lock_rec_get_nth_bit l heap_no else Some False }) p;
        sim \<leftarrow> (if w = None \<and> \<not> flag tm2 LOCK_WAIT
               then lock_rec_find_similar_on_page s tm2 heap_no p t else Some None);
        case sim of
          Some a \<Rightarrow> lock_rec_set_nth_bit s a heap_no
        | None \<Rightarrow> create (vats f) s (at f) (garbage f) t (RecLock_init ix b heap_no tm2) True })"

definition lock_rec_lock_slow ::
  "lock_sys \<Rightarrow> fresh \<Rightarrow> bool \<Rightarrow> uint32 \<Rightarrow> buf_block \<Rightarrow> nat \<Rightarrow> addr \<Rightarrow> addr
     \<Rightarrow> (lock_sys \<times> dberr_t) option" where
  "lock_rec_lock_slow s f impl m b heap_no ix t = do {
     e \<leftarrow> lock_rec_has_expl s m b heap_no t;
     if e \<noteq> None then Some (s, DB_SUCCESS)
     else do {
       wait_for \<leftarrow> lock_rec_other_has_conflicting s m b heap_no t;
       case wait_for of
         Some w \<Rightarrow> Some (s, Wait_for w)
       | None \<Rightarrow>
           if \<not> impl then do {
             s' \<leftarrow> lock_rec_add_to_queue s f (LOCK_REC OR m) b heap_no ix t;
             Some (s', DB_SUCCESS_LOCKED_REC) }
           else Some (s, DB_SUCCESS) } }"

definition lock_rec_lock ::
  "lock_sys \<Rightarrow> fresh \<Rightarrow> bool \<Rightarrow> uint32 \<Rightarrow> buf_block \<Rightarrow> nat \<Rightarrow> addr \<Rightarrow> addr
     \<Rightarrow> (lock_sys \<times> dberr_t) option" where
  "lock_rec_lock s f impl m b heap_no ix t = do {
     (s', status) \<leftarrow> lock_rec_lock_fast s f impl m b heap_no ix t;
     case status of
       LOCK_REC_SUCCESS \<Rightarrow> Some (s', DB_SUCCESS)
     | LOCK_REC_SUCCESS_CREATED \<Rightarrow> Some (s', DB_SUCCESS_LOCKED_REC)
     | LOCK_REC_FAIL \<Rightarrow> lock_rec_lock_slow s' f impl m b heap_no ix t }"

definition project4_lock_rec_lock_fast ::
  "lock_sys \<Rightarrow> fresh \<Rightarrow> bool \<Rightarrow> uint32 \<Rightarrow> buf_block \<Rightarrow> nat \<Rightarrow> addr \<Rightarrow> addr
     \<Rightarrow> (lock_sys \<times> lock_rec_req_status) option" where
  "project4_lock_rec_lock_fast s f impl m b heap_no ix t = do {
     s' \<leftarrow> project4_create s (at f) (garbage f) t (RecLock_init ix b heap_no m) True;
     Some (s', LOCK_REC_SUCCESS_CREATED) }"

definition project4_lock_rec_lock ::
  "lock_sys \<Rightarrow> fresh \<Rightarrow> bool \<Rightarrow> uint32 \<Rightarrow> buf_block \<Rightarrow> nat \<Rightarrow> addr \<Rightarrow> addr
     \<Rightarrow> (lock_sys \<times> dberr_t) option" where
  "project4_lock_rec_lock s f impl m b heap_no ix t = do {
     (s', status) \<leftarrow> project4_lock_rec_lock_fast s f impl m b heap_no ix t;
     Some (s', DB_SUCCESS_LOCKED_REC) }"

subsection \<open>Queues as lists\<close>

lemma loop_find_simps [simp, code]:
  "loop_find nx P None = Some None"
  "loop_find nx P (Some a) = do {
     b \<leftarrow> P a;
     if b then Some (Some a) else do { q \<leftarrow> nx a; loop_find nx P q } }"
  by (simp_all add: loop_find.simps)

declare last_of.simps [code] prev_loop.simps [code]

lemma loop_find_list:
  assumes "chain nx p xs None" and "\<And>a. a \<in> set xs \<Longrightarrow> P a = Some (Q a)"
  shows "loop_find nx P p = Some (find Q xs)"
  using assms
proof (induction xs arbitrary: p)
  case Nil
  then show ?case by simp
next
  case (Cons a xs)
  then obtain r where "p = Some a" and "nx a = Some r" and "chain nx r xs None" by auto
  with Cons show ?case by auto
qed

lemma chain_filter:
  assumes "chain nx p xs None" and "\<And>a. a \<in> set xs \<Longrightarrow> P a = Some (Q a)"
    and "\<And>a. a \<in> set xs \<Longrightarrow> Q a \<Longrightarrow> nx' a = Option.bind (nx a) (loop_find nx P)"
  shows "chain nx' (find Q xs) (filter Q xs) None"
  using assms
proof (induction xs arbitrary: p)
  case (Cons a xs)
  then obtain r where r: "p = Some a" "nx a = Some r" "chain nx r xs None" by auto
  have IH: "chain nx' (find Q xs) (filter Q xs) None"
    by (rule Cons.IH[OF r(3)]) (use Cons.prems in auto)
  have "loop_find nx P r = Some (find Q xs)"
    by (rule loop_find_list[OF r(3)]) (use Cons.prems in auto)
  with IH Cons.prems r show ?case by auto
qed simp

lemma find_filter [simp]: "find Q (filter R xs) = find (\<lambda>a. R a \<and> Q a) xs"
  by (induction xs) auto

definition bitmap_ok :: "lock_t \<Rightarrow> bool" where
  "bitmap_ok l \<longleftrightarrow> rec_n_bits l \<le> 8 * length (bitmap l)"

definition queue :: "lock_sys \<Rightarrow> hash_id \<Rightarrow> nat \<Rightarrow> addr list \<Rightarrow> bool" where
  "queue s hid i xs \<longleftrightarrow> chain (HASH_GET_NEXT s) (HASH_GET_FIRST s hid i) xs None
     \<and> (\<forall>a \<in> set xs. \<exists>l. locks s a = Some l \<and> bitmap_ok l)"

definition page_lock :: "lock_sys \<Rightarrow> buf_block \<Rightarrow> addr \<Rightarrow> bool" where
  "page_lock s b a = (case locks s a of None \<Rightarrow> False | Some l \<Rightarrow> on_page (space b) (page_no b) l)"

definition row_lock :: "lock_sys \<Rightarrow> buf_block \<Rightarrow> nat \<Rightarrow> addr \<Rightarrow> bool" where
  "row_lock s b heap_no a \<longleftrightarrow> page_lock s b a \<and> nth_bit_of s heap_no a = Some True"

abbreviation block_queue :: "lock_sys \<Rightarrow> buf_block \<Rightarrow> addr list \<Rightarrow> bool" where
  "block_queue s b xs \<equiv> queue s rec_hash (lock_rec_hash s (space b) (page_no b)) xs"

lemma queue_lock: "queue s hid i xs \<Longrightarrow> a \<in> set xs \<Longrightarrow> \<exists>l. locks s a = Some l \<and> bitmap_ok l"
  by (simp add: queue_def)

lemma nth_bit_of_queue:
  assumes "queue s hid i xs" and "a \<in> set xs"
  shows "nth_bit_of s h a = Some (nth_bit_of s h a = Some True)"
  using queue_lock[OF assms] by (auto simp: nth_bit_of_def nth_bit_iff bitmap_ok_def)

lemma first_on_page_queue:
  assumes "block_queue s b xs"
  shows "lock_rec_get_first_on_page s rec_hash b = Some (find (page_lock s b) xs)"
  unfolding lock_rec_get_first_on_page_def
  by (rule loop_find_list) (use assms in \<open>auto simp: queue_def page_lock_def\<close>)

lemma next_on_page_step:
  assumes "queue s hid i xs" and "a \<in> set xs" and "page_lock s b a"
  shows "lock_rec_get_next_on_page s a = Option.bind (HASH_GET_NEXT s a)
    (loop_find (HASH_GET_NEXT s) (\<lambda>a. map_option (on_page (space b) (page_no b)) (locks s a)))"
  using queue_lock[OF assms(1,2)] assms(3)
  by (auto simp: lock_rec_get_next_on_page_def page_lock_def on_page_def)

lemma page_chain:
  assumes "block_queue s b xs"
  shows "chain (lock_rec_get_next_on_page s) (find (page_lock s b) xs) (filter (page_lock s b) xs) None"
proof (rule chain_filter)
  show "chain (HASH_GET_NEXT s) (HASH_GET_FIRST s rec_hash (lock_rec_hash s (space b) (page_no b))) xs None"
    using assms by (simp add: queue_def)
  show "map_option (on_page (space b) (page_no b)) (locks s a) = Some (page_lock s b a)"
    if "a \<in> set xs" for a
    using queue_lock[OF assms that] by (auto simp: page_lock_def)
qed (rule next_on_page_step[OF assms])

lemma row_first:
  assumes "block_queue s b xs"
  shows "lock_rec_get_first s rec_hash b h = Some (find (row_lock s b h) xs)"
proof -
  have "loop_find (lock_rec_get_next_on_page s) (nth_bit_of s h) (find (page_lock s b) xs)
      = Some (find (\<lambda>a. nth_bit_of s h a = Some True) (filter (page_lock s b) xs))"
    by (rule loop_find_list[OF page_chain[OF assms]]) (use nth_bit_of_queue[OF assms] in auto)
  then show ?thesis
    by (simp add: lock_rec_get_first_def first_on_page_queue[OF assms] row_lock_def[abs_def])
qed

lemma row_chain:
  assumes "block_queue s b xs"
  shows "chain (lock_rec_get_next s h) (find (row_lock s b h) xs) (filter (row_lock s b h) xs) None"
proof -
  have "chain (lock_rec_get_next s h) (find (\<lambda>a. nth_bit_of s h a = Some True) (filter (page_lock s b) xs))
     (filter (\<lambda>a. nth_bit_of s h a = Some True) (filter (page_lock s b) xs)) None"
    by (rule chain_filter[OF page_chain[OF assms]])
      (use nth_bit_of_queue[OF assms] in \<open>auto simp: lock_rec_get_next_def\<close>)
  then show ?thesis
    by (simp add: row_lock_def[abs_def])
qed

lemma row_loop:
  assumes q: "block_queue s b xs"
  shows "loop_find (lock_rec_get_next s h) (\<lambda>a. map_option Q (locks s a)) (find (row_lock s b h) xs)
    = Some (find (\<lambda>a. row_lock s b h a \<and> Q (the (locks s a))) xs)"
proof -
  have "loop_find (lock_rec_get_next s h) (\<lambda>a. map_option Q (locks s a)) (find (row_lock s b h) xs)
      = Some (find (\<lambda>a. Q (the (locks s a))) (filter (row_lock s b h) xs))"
    by (rule loop_find_list[OF row_chain[OF q]]) (use queue_lock[OF q] in fastforce)
  then show ?thesis by simp
qed

lemma has_expl_queue:
  assumes "block_queue s b xs"
  shows "lock_rec_has_expl s m b h t =
    Some (find (\<lambda>a. row_lock s b h a \<and> grants m h t (the (locks s a))) xs)"
  by (simp add: lock_rec_has_expl_def row_first[OF assms] row_loop[OF assms])

lemma conflicting_queue:
  assumes "block_queue s b xs"
  shows "lock_rec_other_has_conflicting s m b h t =
    Some (find (\<lambda>a. row_lock s b h a \<and> lock_rec_has_to_wait (session s) True t m (the (locks s a))
       (h = PAGE_HEAP_NO_SUPREMUM)) xs)"
  by (simp add: lock_rec_other_has_conflicting_def row_first[OF assms] row_loop[OF assms])

text \<open>
  A lock on the page by the requester alone denies the requester nothing.
\<close>

lemma own_lock_no_wait: "trx l = t \<Longrightarrow> \<not> lock_rec_has_to_wait td fl t m l supremum"
  by (simp add: lock_rec_has_to_wait_def)

lemma next_on_page_queue:
  assumes q: "block_queue s b xs" and first: "find (page_lock s b) xs = Some a"
    and nxt: "lock_rec_get_next_on_page s a = Some None"
  shows "filter (page_lock s b) xs = [a]"
proof -
  have "filter (page_lock s b) xs \<noteq> []"
    using first by (auto simp: filter_empty_conv find_Some_iff)
  then obtain ys where ys: "filter (page_lock s b) xs = a # ys"
    using page_chain[OF q] first by (cases "filter (page_lock s b) xs") auto
  then have "chain (lock_rec_get_next_on_page s) None ys None"
    using page_chain[OF q] nxt by auto
  then have "ys = []" by (cases ys) auto
  with ys show ?thesis by simp
qed

lemma fast_granted_no_conflict:
  assumes q: "block_queue s b xs"
    and r: "lock_rec_lock_fast s f impl m b h ix t = Some (s', st)" and st: "st \<noteq> LOCK_REC_FAIL"
    and a: "a \<in> set xs" "row_lock s b h a"
  shows "trx (the (locks s a)) = t"
proof -
  have pl: "a \<in> set (filter (page_lock s b) xs)"
    using a by (simp add: row_lock_def)
  then obtain p where p: "find (page_lock s b) xs = Some p"
    by (metis filter_False find_None_iff2 option.exhaust_sel empty_iff list.set(1))
  obtain l n where "locks s p = Some l" and n: "lock_rec_get_next_on_page s p = Some n"
    and "n = None \<and> trx l = t"
    using r st by (auto simp: lock_rec_lock_fast_def first_on_page_queue[OF q] p bind_eq_Some_conv
      split: if_splits)
  with next_on_page_queue[OF q p] pl show ?thesis by auto
qed

lemma slow_granted_no_conflict:
  assumes q: "block_queue s b xs"
    and r: "lock_rec_lock_slow s f impl m b h ix t = Some (s', DB_SUCCESS_LOCKED_REC)"
    and a: "a \<in> set xs" "row_lock s b h a"
  shows "\<not> lock_rec_has_to_wait (session s) True t m (the (locks s a)) (h = PAGE_HEAP_NO_SUPREMUM)"
proof -
  have "find (\<lambda>a. row_lock s b h a \<and> lock_rec_has_to_wait (session s) True t m (the (locks s a))
       (h = PAGE_HEAP_NO_SUPREMUM)) xs = None"
    using r by (auto simp: lock_rec_lock_slow_def has_expl_queue[OF q] conflicting_queue[OF q]
      bind_eq_Some_conv split: if_splits option.splits)
  with a show ?thesis by (auto simp: find_None_iff)
qed

lemma fast_fail_same:
  "lock_rec_lock_fast s f impl m b h ix t = Some (s', LOCK_REC_FAIL) \<Longrightarrow> s' = s"
  by (auto simp: lock_rec_lock_fast_def bind_eq_Some_conv split: if_splits option.splits)

text \<open>
  C33: The original path (\<open>lock_rec_lock\<close>: fast, then slow) sets a new lock on a record only
  if no lock of the page's queue on that record makes the request wait.
\<close>

theorem lock_rec_lock_exclusive:
  assumes "block_queue s b xs"
    and "map_option snd (lock_rec_lock s f False m b h ix t) = Some DB_SUCCESS_LOCKED_REC"
    and "a \<in> set xs" and "row_lock s b h a"
  shows "\<not> lock_rec_has_to_wait (session s) True t m (the (locks s a)) (h = PAGE_HEAP_NO_SUPREMUM)"
proof -
  obtain s' where "lock_rec_lock s f False m b h ix t = Some (s', DB_SUCCESS_LOCKED_REC)"
    using assms(2) by auto
  then obtain s1 st where fast: "lock_rec_lock_fast s f False m b h ix t = Some (s1, st)"
    and rest: "st \<noteq> LOCK_REC_FAIL \<or> lock_rec_lock_slow s1 f False m b h ix t = Some (s', DB_SUCCESS_LOCKED_REC)"
    by (auto simp: lock_rec_lock_def bind_eq_Some_conv split: lock_rec_req_status.splits)
      (metis lock_rec_req_status.exhaust)
  show ?thesis
  proof (cases "st = LOCK_REC_FAIL")
    case True
    then show ?thesis
      using rest fast fast_fail_same slow_granted_no_conflict[OF assms(1) _ assms(3,4)] by blast
  next
    case False
    then show ?thesis
      using fast_granted_no_conflict[OF assms(1) fast False assms(3,4)] own_lock_no_wait by blast
  qed
qed

definition idle_trx :: trx_t where
  "idle_trx = \<lparr>mysql_thd = None, n_rec_locks = 0, wait_lock = None, trx_locks = [], trx_timestamp = 0\<rparr>"

definition empty_sys :: lock_sys where
  "empty_sys = \<lparr>locks = Map.empty, trxs = (\<lambda>_. idle_trx),
     hashes = (\<lambda>_. \<lparr>n_cells = 1, array = (\<lambda>_. \<lparr>tail = None, head = None, node = None\<rparr>)\<rparr>),
     table_of = (\<lambda>_. 0), table_n_rec_locks = (\<lambda>_. 0),
     gclist_head = None, gclist_tail = None, sys_timestamp = 1\<rparr>"

definition sample_block :: buf_block where
  "sample_block = \<lparr>space = 0, page_no = 0, n_heap = 4\<rparr>"

definition sample_fresh :: "addr \<Rightarrow> fresh" where
  "sample_fresh a = \<lparr>at = a, garbage = sample_lock 0 0, vats = False\<rparr>"

definition one_reader :: lock_sys where
  "one_reader = set_cell rec_hash 0 (\<lambda>c. c\<lparr>node := Some 5\<rparr>)
     (upd_lock 5 ((sample_lock 2 (2 OR LOCK_REC))\<lparr>bitmap := [8, 0]\<rparr>) empty_sys)"

lemma one_reader_queue: "block_queue one_reader sample_block [5]"
proof -
  have "lock_rec_hash one_reader 0 0 = 0" by code_simp
  then show ?thesis
    by (simp add: queue_def HASH_GET_NEXT_def HASH_GET_FIRST_def hash_get_nth_cell_def one_reader_def
        upd_lock_def set_cell_def sample_block_def bitmap_ok_def sample_lock_def)
qed

theorem lock_rec_lock_exclusive_witness:
  "\<not> lock_rec_has_to_wait (session one_reader) True 1 2 (the (locks one_reader 5)) (3 = PAGE_HEAP_NO_SUPREMUM)"
proof (rule lock_rec_lock_exclusive[OF one_reader_queue])
  show "map_option snd (lock_rec_lock one_reader (sample_fresh 6) False 2 sample_block 3 0 1)
      = Some DB_SUCCESS_LOCKED_REC"
    by code_simp
  show "row_lock one_reader sample_block 3 5"
    by code_simp
qed simp

subsection \<open>The second chain\<close>

text \<open>The queue the new code keeps: the chain behind \<open>head\<close>, whose last lock is the \<open>tail\<close>.\<close>

definition new_queue :: "lock_sys \<Rightarrow> hash_id \<Rightarrow> nat \<Rightarrow> addr list \<Rightarrow> bool" where
  "new_queue s hid i xs \<longleftrightarrow> chain (HASH_GET_NEXT s) (head (hash_get_nth_cell s hid i)) xs None
     \<and> tail (hash_get_nth_cell s hid i) = (if xs = [] then None else Some (last xs)) \<and> distinct xs"

lemma cell_set_cell [simp]:
  "hash_get_nth_cell (set_cell hid i f s) hid' j =
     (if hid' = hid \<and> j = i then f (hash_get_nth_cell s hid i) else hash_get_nth_cell s hid' j)"
  by (simp add: hash_get_nth_cell_def set_cell_def)

lemma set_cell_fields [simp]:
  "locks (set_cell hid i f s) = locks s"
  "trxs (set_cell hid i f s) = trxs s"
  "n_cells (hashes (set_cell hid i f s) hid') = n_cells (hashes s hid')"
  by (simp_all add: set_cell_def)

lemma upd_fields [simp]:
  "locks (upd_lock a l s) = (locks s)(a \<mapsto> l)"
  "hashes (upd_lock a l s) = hashes s"
  "trxs (upd_lock a l s) = trxs s"
  "locks (upd_trx t f s) = locks s"
  "hashes (upd_trx t f s) = hashes s"
  "locks (count_rec_lock ix s) = locks s"
  "hashes (count_rec_lock ix s) = hashes s"
  "trxs (count_rec_lock ix s) = trxs s"
  by (simp_all add: upd_lock_def upd_trx_def count_rec_lock_def)

lemma mysql_thd_upd_trx [simp]:
  "mysql_thd (trxs (upd_trx t f s) u) = (if u = t then mysql_thd (f (trxs s t)) else mysql_thd (trxs s u))"
  by (simp add: upd_trx_def)

lemma cell_cong: "hashes s = hashes s' \<Longrightarrow> hash_get_nth_cell s = hash_get_nth_cell s'"
  "hashes s = hashes s' \<Longrightarrow> cell_of s = cell_of s'"
  by (auto simp: hash_get_nth_cell_def cell_of_def fun_eq_iff)

lemma insert_to_tail_appends:
  assumes q: "new_queue s hid i xs" and a: "a \<notin> set xs" and l: "locks s a = Some l" "hash l = None"
    and hid: "hid = lock_hash_get (type_mode l)" "i = cell_of s hid (rec_space l) (rec_page_no l)"
  obtains s' where "project4_lock_rec_insert_to_tail s a = Some s'" and "new_queue s' hid i (xs @ [a])"
    and "\<And>h j. node (hash_get_nth_cell s' h j) = node (hash_get_nth_cell s h j)"
    and "\<And>b. b \<notin> set xs \<Longrightarrow> locks s' b = locks s b" and "trxs s' = trxs s"
    and "\<And>h. n_cells (hashes s' h) = n_cells (hashes s h)"
proof (cases xs rule: rev_cases)
  case Nil
  let ?s = "set_cell hid i (\<lambda>c. c\<lparr>head := Some a\<rparr>) (set_cell hid i (\<lambda>c. c\<lparr>tail := Some a\<rparr>) s)"
  show thesis
    by (rule that[of ?s])
      (use q l Nil in \<open>auto simp: project4_lock_rec_insert_to_tail_def hid[symmetric] new_queue_def HASH_GET_NEXT_def\<close>)
next
  case (snoc ys z)
  obtain lz where lz: "locks s z = Some lz"
    using q snoc by (auto simp: new_queue_def chain_snoc HASH_GET_NEXT_def)
  let ?s = "upd_lock z (lz\<lparr>hash := Some a\<rparr>) (set_cell hid i (\<lambda>c. c\<lparr>tail := Some a\<rparr>) s)"
  have cell: "hash_get_nth_cell ?s = hash_get_nth_cell (set_cell hid i (\<lambda>c. c\<lparr>tail := Some a\<rparr>) s)"
    by (rule cell_cong) simp
  have ins: "project4_lock_rec_insert_to_tail s a = Some ?s"
    using q l snoc lz by (simp add: project4_lock_rec_insert_to_tail_def hid[symmetric] new_queue_def set_hash_def)
  have new: "new_queue ?s hid i (xs @ [a])"
  proof -
    have c: "chain (HASH_GET_NEXT s) (head (hash_get_nth_cell s hid i)) ys (Some z)"
      using q snoc by (simp add: new_queue_def chain_snoc)
    have "chain (HASH_GET_NEXT ?s) (head (hash_get_nth_cell s hid i)) ys (Some z)"
      using c q snoc by (subst chain_cong[where nx' = "HASH_GET_NEXT s"]) (auto simp: HASH_GET_NEXT_def new_queue_def)
    then show ?thesis
      using q snoc a l unfolding new_queue_def cell by (auto simp: chain_append HASH_GET_NEXT_def)
  qed
  show thesis
    by (rule that[OF ins new]) (use snoc in \<open>simp_all add: cell\<close>)
qed


text \<open>Allocation sets the type bits to \<open>LOCK_REC\<close> and keeps mode and flags.\<close>

lemma alloc_flag:
  fixes m f :: uint32
  assumes "f AND LOCK_TYPE_MASK = 0"
  shows "(LOCK_REC OR (m AND NOT LOCK_TYPE_MASK)) AND f = m AND f"
proof -
  have "f AND LOCK_REC = (f AND LOCK_TYPE_MASK) AND LOCK_REC"
    by (simp add: lock_flag_defs and.assoc)
  then have "f AND LOCK_REC = 0" using assms by simp
  moreover have "f AND NOT LOCK_TYPE_MASK = f"
  proof (rule bit_eqI)
    fix n
    have "\<not> bit (f AND LOCK_TYPE_MASK) n" using assms by simp
    then show "bit (f AND NOT LOCK_TYPE_MASK) n = bit f n"
      by (auto simp: bit_and_iff bit_not_iff dest: bit_imp_possible_bit)
  qed
  ultimately show ?thesis
    by (simp add: bit.conj_disj_distrib2 and.assoc and.commute[of "NOT LOCK_TYPE_MASK"] and.commute[of LOCK_REC])
qed

lemma flag_masks [simp]:
  "LOCK_PREDICATE AND LOCK_TYPE_MASK = 0" "LOCK_PRDT_PAGE AND LOCK_TYPE_MASK = 0"
  "LOCK_GAP AND LOCK_TYPE_MASK = 0" "LOCK_REC_NOT_GAP AND LOCK_TYPE_MASK = 0"
  "LOCK_INSERT_INTENTION AND LOCK_TYPE_MASK = 0" "LOCK_WAIT AND LOCK_TYPE_MASK = 0"
  "LOCK_MODE_MASK AND LOCK_TYPE_MASK = 0"
  by (simp_all add: lock_flag_defs)

lemma predicate_flags:
  assumes "\<not> is_predicate_lock m"
  shows "lock_hash_get m = rec_hash"
    and "lock_hash_get (LOCK_REC OR (m AND NOT LOCK_TYPE_MASK)) = rec_hash"
proof -
  have "m AND LOCK_PREDICATE = 0" "m AND LOCK_PRDT_PAGE = 0"
    using assms unfolding is_predicate_lock_def
    by (metis and.assoc and.commute and_zero_eq bit.conj_disj_distrib or_eq_0_iff)+
  then show "lock_hash_get m = rec_hash"
    and "lock_hash_get (LOCK_REC OR (m AND NOT LOCK_TYPE_MASK)) = rec_hash"
    by (simp_all add: lock_hash_get_def alloc_flag)
qed

lemma create_first:
  assumes none: "node (hash_get_nth_cell s rec_hash (cell_of s rec_hash (space b) (page_no b))) = None"
    and m: "\<not> is_predicate_lock m" and h: "h \<noteq> PAGE_HEAP_NO_SUPREMUM"
    and room: "h < 8 * lock_size m (n_heap b)"
  shows "create v s a g t (RecLock_init ix b h m) True \<noteq> None"
proof -
  let ?r = "RecLock_init ix b h m"
  have r: "m_mode ?r = m" "m_size ?r = lock_size m (n_heap b)" "m_space_id (m_rec_id ?r) = space b"
    "m_page_no (m_rec_id ?r) = page_no b" "m_heap_no (m_rec_id ?r) = h"
    using h by (simp_all add: RecLock_init_def)
  have room': "h div 8 < lock_size m (n_heap b)"
    using room by simp
  obtain s1 l where s1: "lock_alloc s a g t ?r = Some s1" and l: "locks s1 a = Some l"
    and tm: "type_mode l = LOCK_REC OR (m AND NOT LOCK_TYPE_MASK)" and sp: "rec_space l = space b" "rec_page_no l = page_no b"
    and hs: "hashes s1 = hashes s"
    using room' m by (auto simp: lock_alloc_def lock_rec_set_nth_bit_def bitmap_set_def r)
  have cells: "hash_get_nth_cell s1 = hash_get_nth_cell s" "cell_of s1 = cell_of s"
    "cell_of (count_rec_lock i s1) = cell_of s" "hash_get_nth_cell (count_rec_lock i s1) = hash_get_nth_cell s" for i
    using hs by (auto intro!: cell_cong)
  have node1: "hash_get_nth_cell (upd_lock a l' (count_rec_lock i s1)) = hash_get_nth_cell s" for l' i
    by (rule cell_cong) (simp add: hs)
  have ins: "HASH_INSERT (count_rec_lock (index l) s1) rec_hash (cell_of s rec_hash (space b) (page_no b)) a \<noteq> None"
    using none l by (simp add: HASH_INSERT_def set_hash_def node1)
  have hd: "lock_rec_insert_to_head (count_rec_lock (index l) s1) a \<noteq> None"
    using l by (simp add: lock_rec_insert_to_head_def Let_def)
  have kept: "\<exists>l'. locks s2 a = Some l'"
    if "HASH_INSERT (count_rec_lock (index l) s1) rec_hash (cell_of s rec_hash (space b) (page_no b)) a = Some s2
      \<or> lock_rec_insert_to_head (count_rec_lock (index l) s1) a = Some s2" for s2
    using that none l by (auto simp: HASH_INSERT_def set_hash_def node1 lock_rec_insert_to_head_def Let_def split: if_splits)
  show ?thesis
    using ins hd kept
    by (auto simp: create_def s1 lock_add_def l r predicate_flags[OF m] cells Let_def
        lock_set_lock_and_trx_wait_def split: bind_splits) (metis option.distinct(1))
qed

abbreviation block_cell :: "lock_sys \<Rightarrow> buf_block \<Rightarrow> nat" where
  "block_cell s b \<equiv> cell_of s rec_hash (space b) (page_no b)"

lemma lock_rec_hash_cell [simp]: "lock_rec_hash s sp pg = cell_of s rec_hash sp pg"
  by (simp add: lock_rec_hash_def cell_of_def)

text \<open>A request through the new path appends its lock, whatever is in the queue.\<close>

lemma project4_lock_appends:
  assumes q: "new_queue s rec_hash (block_cell s b) xs" and fr: "locks s (at f) = None"
    and m: "\<not> is_predicate_lock m" and h: "h \<noteq> PAGE_HEAP_NO_SUPREMUM"
  obtains s' l where "project4_lock_rec_lock s f impl m b h ix t = Some (s', DB_SUCCESS_LOCKED_REC)"
    and "new_queue s' rec_hash (block_cell s b) (xs @ [at f])" and "cell_of s' = cell_of s"
    and "\<And>h j. node (hash_get_nth_cell s' h j) = node (hash_get_nth_cell s h j)"
    and "\<And>c. c \<notin> set xs \<Longrightarrow> c \<noteq> at f \<Longrightarrow> locks s' c = locks s c"
    and "locks s' (at f) = Some l" and "trx l = t" and "on_page (space b) (page_no b) l" and "state l"
    and "type_mode l = LOCK_REC OR (m AND NOT LOCK_TYPE_MASK)"
    and "\<And>u. session s' u = session s u"
proof -
  let ?r = "RecLock_init ix b h m" and ?a = "at f"
  define s0 where "s0 = count_rec_lock (m_index ?r) (project4_lock_alloc s ?a (garbage f) t ?r)"
  have r: "m_mode ?r = m" "m_space_id (m_rec_id ?r) = space b" "m_page_no (m_rec_id ?r) = page_no b"
    using h by (simp_all add: RecLock_init_def)
  have notin: "?a \<notin> set xs"
    using q fr chain_alloc[of "HASH_GET_NEXT s" _ xs None ?a] by (auto simp: new_queue_def HASH_GET_NEXT_def)
  have s0: "hashes s0 = hashes s" "trxs s0 = trxs s" "\<And>c. c \<noteq> ?a \<Longrightarrow> locks s0 c = locks s c"
    by (simp_all add: s0_def project4_lock_alloc_def)
  obtain l where l: "locks s0 ?a = Some l" "hash l = None" "trx l = t" "on_page (space b) (page_no b) l"
    "state l" "type_mode l = LOCK_REC OR (m AND NOT LOCK_TYPE_MASK)" "index l = m_index ?r"
    by (simp add: s0_def project4_lock_alloc_def on_page_def r)
  have cells: "hash_get_nth_cell s0 = hash_get_nth_cell s" "cell_of s0 = cell_of s"
    using cell_cong[OF s0(1)] by simp_all
  have q0: "new_queue s0 rec_hash (block_cell s b) xs"
  proof -
    have "HASH_GET_NEXT s0 a = HASH_GET_NEXT s a" if "a \<in> set xs" for a
    proof -
      have "a \<noteq> ?a" using that notin by blast
      then show ?thesis by (simp add: HASH_GET_NEXT_def s0(3))
    qed
    then show ?thesis
      using q chain_cong[of xs "HASH_GET_NEXT s0" "HASH_GET_NEXT s"] by (simp add: new_queue_def cells)
  qed
  have hid: "rec_hash = lock_hash_get (type_mode l)"
    "block_cell s b = cell_of s0 rec_hash (rec_space l) (rec_page_no l)"
    using l(4,6) predicate_flags(2)[OF m] cells by (simp_all add: on_page_def)
  obtain s1 where s1: "project4_lock_rec_insert_to_tail s0 ?a = Some s1"
    "new_queue s1 rec_hash (block_cell s b) (xs @ [?a])"
    "\<And>h j. node (hash_get_nth_cell s1 h j) = node (hash_get_nth_cell s0 h j)"
    "\<And>c. c \<notin> set xs \<Longrightarrow> locks s1 c = locks s0 c" "trxs s1 = trxs s0"
    "\<And>h. n_cells (hashes s1 h) = n_cells (hashes s0 h)"
    by (rule insert_to_tail_appends[OF q0 notin l(1,2) hid]) (rule that)
  define s2 where "s2 = upd_trx t (\<lambda>u. u\<lparr>trx_locks := trx_locks u @ [?a]\<rparr>) s1"
  have s2: "hash_get_nth_cell s2 = hash_get_nth_cell s1" "locks s2 = locks s1"
    using cell_cong[of s2 s1] by (auto simp: s2_def)
  have "locks (project4_lock_alloc s ?a (garbage f) t ?r) ?a = Some l"
    using l(1) by (simp add: s0_def)
  then have "project4_lock_rec_lock s f impl m b h ix t = Some (s2, DB_SUCCESS_LOCKED_REC)"
    using l s1(1) by (simp add: project4_lock_rec_lock_def project4_lock_rec_lock_fast_def
        project4_create_def project4_lock_add_def s0_def s2_def)
  moreover have "new_queue s2 rec_hash (block_cell s b) (xs @ [?a])"
    using s1(2) s2 by (simp add: new_queue_def HASH_GET_NEXT_def[abs_def])
  ultimately show thesis
    by (rule that)
      (use s1 s2 s0 l notin cells in \<open>auto simp: s2_def cell_of_def fun_eq_iff upd_trx_def\<close>)
qed

lemma lock_X_flags [simp]:
  "\<not> is_predicate_lock 3" "lock_mode_of (3 AND LOCK_MODE_MASK) = LOCK_X"
  "3 AND LOCK_GAP = 0" "3 AND LOCK_INSERT_INTENTION = 0"
  by (simp_all add: is_predicate_lock_def lock_flag_defs lock_mode_of_def)

lemma empty_queue_granted:
  assumes "block_queue s b []" and "h \<noteq> PAGE_HEAP_NO_SUPREMUM" and "h < 8 * lock_size m (n_heap b)"
    and "\<not> is_predicate_lock m"
  shows "\<exists>s'. lock_rec_lock s f False m b h ix t = Some (s', DB_SUCCESS_LOCKED_REC)"
proof -
  have "node (hash_get_nth_cell s rec_hash (block_cell s b)) = None"
    using assms(1) by (simp add: queue_def HASH_GET_FIRST_def)
  from create_first[OF this assms(4,2,3)]
  obtain s' where "create (vats f) s (at f) (garbage f) t (RecLock_init ix b h m) True = Some s'" by blast
  then show ?thesis
    by (auto simp: lock_rec_lock_def lock_rec_lock_fast_def first_on_page_queue[OF assms(1)])
qed

text \<open>
  C32: The new path for locking a clustered record grants an exclusive lock without looking at
  the locks that are there, and in a chain the other requests do not read.  After a
  transaction has got the exclusive lock of a record this way, another transaction gets the
  exclusive lock of the same record both by the new path and by the original one, although by
  the rules of the lock manager it has to wait for the first.
\<close>

theorem project4_not_exclusive:
  assumes "new_queue s rec_hash (block_cell s b) xs" and "block_queue s b []"
    and "locks s (at f) = None" and "locks s (at f') = None" and "at f \<noteq> at f'"
    and "h \<noteq> PAGE_HEAP_NO_SUPREMUM" and "h < 8 * lock_size 3 (n_heap b)"
    and "t \<noteq> t'" and "\<not> wsrep_thd_is_BF (session s t)"
  shows "\<exists>s1 s2 s3 l. project4_lock_rec_lock s f False 3 b h ix t = Some (s1, DB_SUCCESS_LOCKED_REC)
    \<and> locks s1 (at f) = Some l \<and> state l \<and> on_page (space b) (page_no b) l
    \<and> lock_rec_has_to_wait (session s1) True t' 3 l False
    \<and> project4_lock_rec_lock s1 f' False 3 b h ix t' = Some (s2, DB_SUCCESS_LOCKED_REC)
    \<and> new_queue s2 rec_hash (block_cell s b) (xs @ [at f, at f'])
    \<and> lock_rec_lock s1 f' False 3 b h ix t' = Some (s3, DB_SUCCESS_LOCKED_REC)"
proof -
  obtain s1 l where s1: "project4_lock_rec_lock s f False 3 b h ix t = Some (s1, DB_SUCCESS_LOCKED_REC)"
    "new_queue s1 rec_hash (block_cell s b) (xs @ [at f])" "cell_of s1 = cell_of s"
    "\<And>h j. node (hash_get_nth_cell s1 h j) = node (hash_get_nth_cell s h j)"
    "\<And>c. c \<notin> set xs \<Longrightarrow> c \<noteq> at f \<Longrightarrow> locks s1 c = locks s c"
    "locks s1 (at f) = Some l" "trx l = t" "on_page (space b) (page_no b) l" "state l"
    "type_mode l = LOCK_REC OR (3 AND NOT LOCK_TYPE_MASK)" "\<And>u. session s1 u = session s u"
    using project4_lock_appends[OF assms(1,3) lock_X_flags(1) assms(6)] by metis
  have "at f' \<notin> set xs"
    using assms(1,4) chain_alloc[of "HASH_GET_NEXT s" _ xs None "at f'"] by (auto simp: new_queue_def HASH_GET_NEXT_def)
  then have f': "locks s1 (at f') = None"
    using s1(5) assms(4,5) by simp
  obtain s2 where s2: "project4_lock_rec_lock s1 f' False 3 b h ix t' = Some (s2, DB_SUCCESS_LOCKED_REC)"
    "new_queue s2 rec_hash (block_cell s b) (xs @ [at f, at f'])"
  proof (rule project4_lock_appends[of s1 b "xs @ [at f]" f' 3 h, OF _ f' lock_X_flags(1) assms(6)])
    show "new_queue s1 rec_hash (block_cell s1 b) (xs @ [at f])"
      using s1(2,3) by simp
  qed (use s1(3) that in simp)
  have "lock_rec_get_gap l = 0" "lock_rec_get_insert_intention l = 0" "lock_get_mode l = LOCK_X"
    by (simp_all add: lock_rec_get_gap_def lock_rec_get_insert_intention_def lock_get_mode_def s1(10) alloc_flag)
  then have "lock_rec_has_to_wait (session s1) True t' 3 l False"
    using s1(7,11) assms(8,9)
    by (auto simp: lock_rec_has_to_wait_def and.commute[of LOCK_MODE_MASK] mode_compatible_SX)
  moreover have "block_queue s1 b []"
    using assms(2) s1(3,4) by (simp add: queue_def HASH_GET_FIRST_def)
  ultimately show ?thesis
    using s1 s2 empty_queue_granted assms(6,7) lock_X_flags(1) by metis
qed

theorem project4_not_exclusive_witness:
  "\<exists>s1 s2 s3 l. project4_lock_rec_lock empty_sys (sample_fresh 5) False 3 sample_block 2 0 1
      = Some (s1, DB_SUCCESS_LOCKED_REC)
    \<and> locks s1 5 = Some l \<and> state l \<and> on_page 0 0 l \<and> lock_rec_has_to_wait (session s1) True 2 3 l False
    \<and> project4_lock_rec_lock s1 (sample_fresh 6) False 3 sample_block 2 0 2 = Some (s2, DB_SUCCESS_LOCKED_REC)
    \<and> new_queue s2 rec_hash 0 [5, 6]
    \<and> lock_rec_lock s1 (sample_fresh 6) False 3 sample_block 2 0 2 = Some (s3, DB_SUCCESS_LOCKED_REC)"
proof -
  have cell: "block_cell empty_sys sample_block = 0" by code_simp
  have "\<exists>s1 s2 s3 l. project4_lock_rec_lock empty_sys (sample_fresh 5) False 3 sample_block 2 0 1
      = Some (s1, DB_SUCCESS_LOCKED_REC)
    \<and> locks s1 (at (sample_fresh 5)) = Some l \<and> state l \<and> on_page (space sample_block) (page_no sample_block) l
    \<and> lock_rec_has_to_wait (session s1) True 2 3 l False
    \<and> project4_lock_rec_lock s1 (sample_fresh 6) False 3 sample_block 2 0 2 = Some (s2, DB_SUCCESS_LOCKED_REC)
    \<and> new_queue s2 rec_hash (block_cell empty_sys sample_block) ([] @ [at (sample_fresh 5), at (sample_fresh 6)])
    \<and> lock_rec_lock s1 (sample_fresh 6) False 3 sample_block 2 0 2 = Some (s3, DB_SUCCESS_LOCKED_REC)"
  proof (rule project4_not_exclusive)
    show "(2::nat) < 8 * lock_size 3 (n_heap sample_block)" by code_simp
  qed (simp_all add: new_queue_def queue_def empty_sys_def hash_get_nth_cell_def HASH_GET_FIRST_def
      sample_fresh_def PAGE_HEAP_NO_SUPREMUM_def wsrep_thd_is_BF_def idle_trx_def)
  then show ?thesis
    unfolding cell by (simp add: sample_fresh_def sample_block_def)
qed

text \<open>
  C36: Setting the bit of a record in a lock and resetting it again are inverse: after setting,
  exactly that record is locked in addition; the reset reports a bit that was set, gives back
  the bitmap and the counter of the transaction, and only the bit in question ever changes.
\<close>

theorem bit_set_reset_roundtrip:
  assumes "locks s a = Some l" and "bitmap_ok l" and "i < lock_rec_get_n_bits l"
    and "lock_rec_get_nth_bit l i = Some False"
  shows "\<exists>s' s'' b. lock_rec_set_nth_bit s a i = Some s' \<and> lock_rec_reset_nth_bit s' a i = Some (b, s'')
    \<and> b \<noteq> 0 \<and> s'' = s
    \<and> (\<forall>j. nth_bit_of s' j a = map_option (\<lambda>v. v \<or> j = i) (nth_bit_of s j a))
    \<and> n_rec_locks (trxs s' (trx l)) = n_rec_locks (trxs s (trx l)) + 1"
proof -
  obtain l' l'' b where set: "bitmap_set l i = Some l'" and reset: "bitmap_reset l' i = Some (b, l'')"
    and bits: "\<And>j. lock_rec_get_nth_bit l' j = map_option (\<lambda>v. v \<or> j = i) (lock_rec_get_nth_bit l j)"
    and b: "b \<noteq> 0" and same: "l'' = l"
    using roundtrip_bits[of l i] assms(2,3,4) by (metis bitmap_ok_def lock_rec_get_n_bits_def)
  have trx: "trx l' = trx l"
    using set by (auto simp: bitmap_set_def split: if_splits)
  let ?s' = "upd_trx (trx l) (\<lambda>t. t\<lparr>n_rec_locks := n_rec_locks t + 1\<rparr>) (upd_lock a l' s)"
  have "(locks s)(a \<mapsto> l) = locks s"
    using assms(1) by auto
  then have "lock_rec_reset_nth_bit ?s' a i = Some (b, s)"
    using reset b same trx by (simp add: lock_rec_reset_nth_bit_def upd_trx_def upd_lock_def)
  moreover have "lock_rec_set_nth_bit s a i = Some ?s'"
    using assms(1) set by (simp add: lock_rec_set_nth_bit_def)
  ultimately show ?thesis
    using b bits assms(1) by (auto simp: nth_bit_of_def upd_trx_def)
qed

theorem bit_set_reset_roundtrip_witness:
  "\<exists>s' s'' b. lock_rec_set_nth_bit one_reader 5 9 = Some s' \<and> lock_rec_reset_nth_bit s' 5 9 = Some (b, s'')
    \<and> b \<noteq> 0 \<and> s'' = one_reader"
proof -
  have "bitmap_ok (the (locks one_reader 5)) \<and> lock_rec_get_nth_bit (the (locks one_reader 5)) 9 = Some False
      \<and> 9 < lock_rec_get_n_bits (the (locks one_reader 5))"
    by code_simp
  then show ?thesis
    using bit_set_reset_roundtrip[of one_reader 5 "the (locks one_reader 5)" 9]
    by (auto simp: one_reader_def)
qed

end
