(* ===== verification/Lock_Release.thy ===== *)
theory Lock_Release
  imports Lock_Queue
begin

text \<open>
  Releasing a record lock in project 4 (lock0lock.cc): a released lock is only marked; a later
  release that passes it unlinks it and puts it on a list of garbage; a transaction that
  has released its locks frees what no active transaction can see any more.  The functions are
  those of one transaction at a time: every compare-and-swap succeeds.  \<open>Inl Assertion\<close> is a
  failed \<open>ut_a\<close>, which stops the server; \<open>None\<close> an access outside allocated memory or a run
  without end.
\<close>

datatype stop = Assertion

subsection \<open>Unlinking\<close>

text \<open>What follows the successful compare-and-swap: append to the list of garbage.\<close>

definition set_gc_hash :: "addr \<Rightarrow> ptr \<Rightarrow> lock_sys \<Rightarrow> lock_sys option" where
  "set_gc_hash a q s = do { l \<leftarrow> locks s a; Some (upd_lock a (l\<lparr>gc_hash := q\<rparr>) s) }"

definition gclist_append :: "addr \<Rightarrow> lock_sys \<Rightarrow> lock_sys option" where
  "gclist_append a s = do {
     l \<leftarrow> locks s a;
     let old_gclist_tail = gclist_tail s;
     let s1 = upd_lock a (l\<lparr>timestamp := sys_timestamp s\<rparr>) (s\<lparr>gclist_tail := Some a\<rparr>);
     case old_gclist_tail of
       None \<Rightarrow> Some (s1\<lparr>gclist_head := Some a\<rparr>)
     | Some b \<Rightarrow> set_gc_hash b (Some a) s1 }"

text \<open>
  The first loop drops marked locks at the head of the chain; its result is the first lock
  that is not marked.
\<close>

partial_function (option) drop_marked :: "hash_id \<times> nat \<Rightarrow> lock_sys \<Rightarrow> (addr \<times> lock_sys) option" where
  "drop_marked c s =
     (case head (hash_get_nth_cell s (fst c) (snd c)) of
        None \<Rightarrow> None
      | Some cur \<Rightarrow> do {
          l \<leftarrow> locks s cur;
          if state l then Some (cur, s)
          else do {
            s' \<leftarrow> gclist_append cur (set_cell (fst c) (snd c) (\<lambda>x. x\<lparr>head := hash l\<rparr>) s);
            drop_marked c s' } })"

text \<open>
  The second loop walks on to \<open>in_lock\<close> and unlinks marked locks on the way.  The inner wait
  for a successor of the marked lock is over at once or never.
\<close>

partial_function (option) walk_to :: "hash_id \<times> nat \<times> addr \<Rightarrow> addr \<Rightarrow> lock_sys \<Rightarrow> (stop + lock_sys) option" where
  "walk_to c cur s = (case c of (hid, i, in_lock) \<Rightarrow>
     if cur = in_lock then Some (Inr s)
     else do {
       l \<leftarrow> locks s cur;
       case hash l of
         None \<Rightarrow> Some (Inl Assertion)
       | Some nx \<Rightarrow>
           if \<not> state l then walk_to c nx s
           else do {
             ln \<leftarrow> locks s nx;
             if state ln then walk_to c nx s
             else if hash ln = None \<and> tail (hash_get_nth_cell s hid i) \<noteq> Some nx then None
             else do {
               s' \<leftarrow> set_hash cur (hash ln) s;
               s'' \<leftarrow> gclist_append nx s';
               walk_to c cur s'' } } })"

text \<open>The part of the release up to the removal from the transaction's list.\<close>

definition uncount_rec_lock :: "addr \<Rightarrow> lock_sys \<Rightarrow> lock_sys" where
  "uncount_rec_lock ix s = s\<lparr>table_n_rec_locks :=
     (table_n_rec_locks s)(table_of s ix := table_n_rec_locks s (table_of s ix) - 1)\<rparr>"

definition project4_lock_rec_dequeue_from_page :: "addr \<Rightarrow> lock_sys \<Rightarrow> (stop + lock_sys) option" where
  "project4_lock_rec_dequeue_from_page in_lock s = do {
     l \<leftarrow> locks s in_lock;
     let s1 = uncount_rec_lock (index l) s;
     let hid = lock_hash_get (type_mode l);
     let i = cell_of s1 hid (rec_space l) (rec_page_no l);
     (case head (hash_get_nth_cell s1 hid i) of
        None \<Rightarrow> Some (Inl Assertion)
      | Some _ \<Rightarrow> do {
          (cur, s2) \<leftarrow> drop_marked (hid, i) s1;
          andthen (walk_to (hid, i, in_lock) cur s2) (\<lambda>s3. do {
            l3 \<leftarrow> locks s3 in_lock;
            Some (Inr (upd_trx (trx l) (\<lambda>t. t\<lparr>trx_locks := remove1 in_lock (trx_locks t)\<rparr>)
              (upd_lock in_lock (l3\<lparr>state := False\<rparr>) s3))) }) }) }"

subsection \<open>Freeing\<close>

text \<open>
  \<open>min_loop\<close> is the search for the least timestamp among the active transactions, over the
  links it follows; \<open>timestamps\<close> gives for a transaction whether it is active or committed in memory, its
  timestamp, and the link.  \<open>gc_loop\<close> frees the locks older than \<open>min\<close> that are before the
  lock that was last when the pass began.
\<close>

record trx_view =
  live :: bool
  stamp :: nat
  next_trx :: ptr

definition ULINT_MAX :: nat where
  "ULINT_MAX = 2 ^ 64 - 1"

partial_function (option) min_loop :: "(addr \<Rightarrow> trx_view) \<Rightarrow> ptr \<Rightarrow> nat \<Rightarrow> nat option" where
  "min_loop v p m =
     (case p of None \<Rightarrow> Some m
      | Some t \<Rightarrow> min_loop v (next_trx (v t)) (if live (v t) \<and> stamp (v t) < m then stamp (v t) else m))"

definition free_lock :: "addr \<Rightarrow> lock_sys \<Rightarrow> lock_sys" where
  "free_lock a s = s\<lparr>locks := (locks s)(a := None)\<rparr>"

partial_function (option) gc_loop :: "nat \<times> ptr \<Rightarrow> ptr \<times> ptr \<Rightarrow> lock_sys \<Rightarrow> lock_sys option" where
  "gc_loop c p s = (case (c, p) of ((min_timestamp, old_tail), (prev, cur)) \<Rightarrow>
     (case cur of None \<Rightarrow> Some s
      | Some a \<Rightarrow>
          if cur = old_tail then Some s
          else do {
            l \<leftarrow> locks s a;
            if gclist_head s = cur \<and> timestamp l < min_timestamp
            then gc_loop c (prev, gc_hash l) (free_lock a (s\<lparr>gclist_head := gc_hash l\<rparr>))
            else if timestamp l < min_timestamp
            then do {
              b \<leftarrow> prev;
              s' \<leftarrow> set_gc_hash b (gc_hash l) s;
              gc_loop c (prev, gc_hash l) (free_lock a s') }
            else gc_loop c (cur, gc_hash l) s }))"

definition collect_garbage :: "(addr \<Rightarrow> trx_view) \<Rightarrow> ptr \<Rightarrow> lock_sys \<Rightarrow> lock_sys option" where
  "collect_garbage v mysql_trx_list s = do {
     m \<leftarrow> min_loop v mysql_trx_list ULINT_MAX;
     gc_loop (m, gclist_tail s) (None, gclist_head s) s }"

subsection \<open>The queue and the garbage as lists\<close>

definition gc_next :: "lock_sys \<Rightarrow> addr \<Rightarrow> ptr option" where
  "gc_next s a = map_option gc_hash (locks s a)"

definition gc_queue :: "lock_sys \<Rightarrow> addr list \<Rightarrow> bool" where
  "gc_queue s gs \<longleftrightarrow> chain (gc_next s) (gclist_head s) gs None
     \<and> gclist_tail s = (if gs = [] then None else Some (last gs)) \<and> distinct gs"

definition marked :: "lock_sys \<Rightarrow> addr \<Rightarrow> bool" where
  "marked s a = (case locks s a of None \<Rightarrow> False | Some l \<Rightarrow> \<not> state l)"

definition release_inv :: "lock_sys \<Rightarrow> hash_id \<Rightarrow> nat \<Rightarrow> addr list \<Rightarrow> addr list \<Rightarrow> bool" where
  "release_inv s hid i xs gs \<longleftrightarrow> new_queue s hid i xs \<and> gc_queue s gs \<and> set xs \<inter> set gs = {}
     \<and> (\<forall>a \<in> set xs. gc_next s a = Some None)"

text \<open>What unlinking leaves alone: everything but the links and the timestamp.\<close>

definition core :: "lock_t \<Rightarrow> lock_t" where
  "core l = l\<lparr>hash := None, gc_hash := None, timestamp := 0\<rparr>"

definition keeps :: "lock_sys \<Rightarrow> lock_sys \<Rightarrow> bool" where
  "keeps s s' \<longleftrightarrow> (\<forall>a. map_option core (locks s' a) = map_option core (locks s a))"

lemma core_simps [simp]:
  "core (l\<lparr>hash := p\<rparr>) = core l" "core (l\<lparr>gc_hash := p\<rparr>) = core l" "core (l\<lparr>timestamp := n\<rparr>) = core l"
  "state (core l) = state l"
  by (simp_all add: core_def)

lemma keeps_refl [simp]: "keeps s s" and keeps_trans: "keeps s t \<Longrightarrow> keeps t u \<Longrightarrow> keeps s u"
  by (simp_all add: keeps_def)

lemma marked_core:
  "marked s a = (case map_option core (locks s a) of None \<Rightarrow> False | Some l \<Rightarrow> \<not> state l)"
  by (simp add: marked_def split: option.split)

lemma keeps_marked: "keeps s s' \<Longrightarrow> marked s' = marked s"
  by (simp add: keeps_def marked_core fun_eq_iff)

lemma keeps_upd:
  "locks s a = Some l \<Longrightarrow> core l' = core l \<Longrightarrow> keeps s (upd_lock a l' s)"
  by (simp add: keeps_def)

lemma append_exists: "locks s a = Some l \<Longrightarrow> gclist_append a s = Some s' \<Longrightarrow>
    keeps s s' \<and> HASH_GET_NEXT s' = HASH_GET_NEXT s \<and> hashes s' = hashes s"
  by (auto simp: gclist_append_def set_gc_hash_def Let_def keeps_def HASH_GET_NEXT_def fun_eq_iff
      upd_lock_def bind_eq_Some_conv split: option.splits if_splits)

lemma gclist_append_ok:
  assumes g: "gc_queue s gs" and a: "a \<notin> set gs" and l: "gc_next s a = Some None"
  obtains s' where "gclist_append a s = Some s'" and "gc_queue s' (gs @ [a])"
    and "keeps s s'" and "HASH_GET_NEXT s' = HASH_GET_NEXT s" and "hashes s' = hashes s"
    and "\<And>b. b \<notin> set gs \<Longrightarrow> gc_next s' b = gc_next s b"
proof -
  obtain l where l: "locks s a = Some l" "gc_hash l = None"
    using l by (auto simp: gc_next_def)
  obtain s' where s': "gclist_append a s = Some s'" and gq: "gc_queue s' (gs @ [a])"
    and gn: "\<And>b. b \<notin> set gs \<Longrightarrow> gc_next s' b = gc_next s b"
  proof (cases gs rule: rev_cases)
    case Nil
    let ?s = "upd_lock a (l\<lparr>timestamp := sys_timestamp s\<rparr>) (s\<lparr>gclist_tail := Some a\<rparr>)\<lparr>gclist_head := Some a\<rparr>"
    show thesis
      by (rule that[of ?s]) (use g l Nil in \<open>auto simp: gclist_append_def gc_queue_def gc_next_def upd_lock_def\<close>)
  next
    case (snoc ys z)
    obtain lz where lz: "locks s z = Some lz"
      using g snoc by (auto simp: gc_queue_def chain_snoc gc_next_def)
    have za: "z \<noteq> a" using a snoc by auto
    let ?s = "upd_lock z (lz\<lparr>gc_hash := Some a\<rparr>)
      (upd_lock a (l\<lparr>timestamp := sys_timestamp s\<rparr>) (s\<lparr>gclist_tail := Some a\<rparr>))"
    have c: "chain (gc_next s) (gclist_head s) ys (Some z)"
      using g snoc by (simp add: gc_queue_def chain_snoc)
    have "chain (gc_next ?s) (gclist_head s) ys (Some z)"
      using c g snoc a l by (subst chain_cong[where nx' = "gc_next s"]) (auto simp: gc_next_def gc_queue_def)
    then have "gc_queue ?s (gs @ [a])"
      using g snoc a l za by (auto simp: gc_queue_def chain_append gc_next_def upd_lock_def)
    moreover have "gclist_append a s = Some ?s"
      using g l lz za snoc by (simp add: gclist_append_def gc_queue_def set_gc_hash_def)
    ultimately show thesis
      using that[of ?s] snoc l by (auto simp: gc_next_def)
  qed
  show thesis
    by (rule that[OF s' gq]) (use append_exists[OF l(1) s'] gn in auto)
qed

lemma gc_fields [simp]:
  "gclist_head (set_cell hid i f s) = gclist_head s" "gclist_tail (set_cell hid i f s) = gclist_tail s"
  "gclist_head (upd_lock a l s) = gclist_head s" "gclist_tail (upd_lock a l s) = gclist_tail s"
  "gc_next (set_cell hid i f s) = gc_next s" "HASH_GET_NEXT (set_cell hid i f s) = HASH_GET_NEXT s"
  by (simp_all add: set_cell_def upd_lock_def gc_next_def[abs_def] HASH_GET_NEXT_def[abs_def])

lemma gc_queue_set_cell [simp]: "gc_queue (set_cell hid i f s) gs = gc_queue s gs"
  by (simp add: gc_queue_def)

lemma keeps_set_cell [simp]: "keeps (set_cell hid i f s) s' = keeps s s'" "keeps s (set_cell hid i f s') = keeps s s'"
  by (simp_all add: keeps_def)

text \<open>Dropping a marked lock at the head.\<close>

lemma drop_head_inv:
  assumes inv: "release_inv s hid i (m # xs) gs" and xs: "xs \<noteq> []" and l: "locks s m = Some l"
  obtains s' where "gclist_append m (set_cell hid i (\<lambda>x. x\<lparr>head := hash l\<rparr>) s) = Some s'"
    and "release_inv s' hid i xs (gs @ [m])" and "keeps s s'"
proof -
  let ?s1 = "set_cell hid i (\<lambda>x. x\<lparr>head := hash l\<rparr>) s"
  have q: "new_queue s hid i (m # xs)" "gc_queue s gs" "m \<notin> set gs" "gc_next s m = Some None"
    "set xs \<inter> set gs = {}" "\<And>a. a \<in> set xs \<Longrightarrow> gc_next s a = Some None"
    using inv by (auto simp: release_inv_def)
  obtain s' where s': "gclist_append m ?s1 = Some s'" "gc_queue s' (gs @ [m])" "keeps s s'"
    "HASH_GET_NEXT s' = HASH_GET_NEXT s" "hashes s' = hashes ?s1"
    "\<And>b. b \<notin> set gs \<Longrightarrow> gc_next s' b = gc_next s b"
    using gclist_append_ok[of ?s1 gs m] q(2,3,4) by auto
  have "hash_get_nth_cell s' = hash_get_nth_cell ?s1"
    using s'(5) by (rule cell_cong)
  then have "new_queue s' hid i xs"
    using q(1) xs l s'(4) by (auto simp: new_queue_def HASH_GET_NEXT_def)
  moreover have "gc_next s' a = Some None" if "a \<in> set xs" for a
    using that q(5,6) s'(6)[of a] by auto
  ultimately have "release_inv s' hid i xs (gs @ [m])"
    using q(1,5) s'(2) by (auto simp: release_inv_def new_queue_def)
  with s' show thesis by (intro that)
qed

lemma drop_marked_ok:
  assumes "release_inv s hid i (ms @ a # ys) gs" and "\<And>m. m \<in> set ms \<Longrightarrow> marked s m" and "\<not> marked s a"
  shows "\<exists>s'. drop_marked (hid, i) s = Some (a, s') \<and> release_inv s' hid i (a # ys) (gs @ ms) \<and> keeps s s'"
  using assms
proof (induction ms arbitrary: s gs)
  case Nil
  then have "head (hash_get_nth_cell s hid i) = Some a" and "HASH_GET_NEXT s a \<noteq> None"
    by (auto simp: release_inv_def new_queue_def)
  then show ?case
    using Nil by (subst drop_marked.simps) (auto simp: marked_def HASH_GET_NEXT_def)
next
  case (Cons m ms)
  from Cons.prems(1) obtain l where l: "locks s m = Some l" and hd: "head (hash_get_nth_cell s hid i) = Some m"
    by (auto simp: release_inv_def new_queue_def HASH_GET_NEXT_def)
  have "\<not> state l" using Cons.prems(2)[of m] l by (simp add: marked_def)
  moreover obtain s1 where s1: "gclist_append m (set_cell hid i (\<lambda>x. x\<lparr>head := hash l\<rparr>) s) = Some s1"
    "release_inv s1 hid i (ms @ a # ys) (gs @ [m])" "keeps s s1"
    using drop_head_inv[OF _ _ l, of hid i "ms @ a # ys" gs] Cons.prems(1) by auto
  moreover obtain s' where "drop_marked (hid, i) s1 = Some (a, s')"
    "release_inv s' hid i (a # ys) ((gs @ [m]) @ ms)" "keeps s1 s'"
    using Cons.IH[OF s1(2)] Cons.prems(2,3) keeps_marked[OF s1(3)] by auto
  ultimately show ?case
    using keeps_trans l hd by (subst drop_marked.simps) auto
qed

lemma drop_marked_all:
  assumes "chain (HASH_GET_NEXT s) (head (hash_get_nth_cell s hid i)) xs None"
    and "\<And>m. m \<in> set xs \<Longrightarrow> marked s m"
  shows "drop_marked (hid, i) s = None"
  using assms
proof (induction xs arbitrary: s)
  case Nil
  then show ?case by (subst drop_marked.simps) simp
next
  case (Cons m xs)
  from Cons.prems(1) obtain l where l: "locks s m = Some l" and hd: "head (hash_get_nth_cell s hid i) = Some m"
    and c: "chain (HASH_GET_NEXT s) (hash l) xs None"
    by (auto simp: HASH_GET_NEXT_def[of s m])
  let ?s1 = "set_cell hid i (\<lambda>x. x\<lparr>head := hash l\<rparr>) s"
  have "drop_marked (hid, i) s' = None" if "gclist_append m ?s1 = Some s'" for s'
  proof (rule Cons.IH)
    have k: "keeps s s'" "HASH_GET_NEXT s' = HASH_GET_NEXT s" "hashes s' = hashes ?s1"
      using append_exists[OF _ that] l by auto
    show "chain (HASH_GET_NEXT s') (head (hash_get_nth_cell s' hid i)) xs None"
      using c k(2) cell_cong(1)[OF k(3)] by simp
    show "marked s' m'" if "m' \<in> set xs" for m'
      using that Cons.prems(2) keeps_marked[OF k(1)] by simp
  qed
  moreover have "\<not> state l" using Cons.prems(2)[of m] l by (simp add: marked_def)
  ultimately show ?case
    using l hd by (subst drop_marked.simps) (auto split: bind_splits)
qed

text \<open>Unlinking a marked lock behind \<open>cur\<close>.\<close>

lemma unlink_inv:
  assumes inv: "release_inv s hid i (us @ cur # n # vs) gs" and vs: "vs \<noteq> []"
    and ln: "locks s n = Some ln"
  obtains s1 s' where "set_hash cur (hash ln) s = Some s1" and "gclist_append n s1 = Some s'"
    and "release_inv s' hid i (us @ cur # vs) (gs @ [n])" and "keeps s s'"
proof -
  have q: "new_queue s hid i (us @ cur # n # vs)" "gc_queue s gs" "n \<notin> set gs" "cur \<notin> set gs"
    "gc_next s n = Some None" "\<And>a. a \<in> set (us @ cur # vs) \<Longrightarrow> gc_next s a = Some None \<and> a \<notin> set gs"
    using inv by (auto simp: release_inv_def)
  obtain lc where lc: "locks s cur = Some lc"
    using q(1) by (auto simp: new_queue_def chain_append HASH_GET_NEXT_def)
  define s1 where "s1 = upd_lock cur (lc\<lparr>hash := hash ln\<rparr>) s"
  have gn: "gc_next s1 = gc_next s"
    using lc by (auto simp: s1_def gc_next_def)
  have gq: "gc_queue s1 gs"
    using q(2) unfolding gc_queue_def gn by (simp add: s1_def)
  obtain s' where s': "gclist_append n s1 = Some s'" "gc_queue s' (gs @ [n])" "keeps s1 s'"
    "HASH_GET_NEXT s' = HASH_GET_NEXT s1" "hashes s' = hashes s1"
    "\<And>b. b \<notin> set gs \<Longrightarrow> gc_next s' b = gc_next s1 b"
    using gclist_append_ok[OF gq q(3)] q(5) gn by auto
  have cell: "hash_get_nth_cell s' = hash_get_nth_cell s"
    using s'(5) by (intro cell_cong) (simp add: s1_def)
  have nx: "HASH_GET_NEXT s1 = (HASH_GET_NEXT s)(cur := Some (hash ln))"
    by (auto simp: s1_def HASH_GET_NEXT_def)
  have "new_queue s' hid i (us @ cur # vs)"
  proof -
    have d: "distinct (us @ cur # n # vs)" using q(1) by (simp add: new_queue_def)
    have "chain (HASH_GET_NEXT s) (head (hash_get_nth_cell s hid i)) us (Some cur)"
      and "chain (HASH_GET_NEXT s) (hash ln) vs None"
      using q(1) ln by (auto simp: new_queue_def chain_append HASH_GET_NEXT_def[of s n])
    then have "chain (HASH_GET_NEXT s1) (head (hash_get_nth_cell s hid i)) us (Some cur)"
      and "chain (HASH_GET_NEXT s1) (hash ln) vs None"
      using d by (simp_all add: nx)
    then show ?thesis
      using q(1) vs nx by (auto simp: new_queue_def chain_append cell s'(4))
  qed
  moreover have "gc_next s' a = Some None \<and> a \<notin> set (gs @ [n])" if "a \<in> set (us @ cur # vs)" for a
    using that q(1) q(6)[OF that] s'(6)[of a] gn by (auto simp: new_queue_def)
  ultimately have inv': "release_inv s' hid i (us @ cur # vs) (gs @ [n])"
    using s'(2) unfolding release_inv_def by blast
  have k: "keeps s s1"
    using lc unfolding s1_def by (rule keeps_upd) simp
  have sh: "set_hash cur (hash ln) s = Some s1"
    using lc by (simp add: set_hash_def s1_def)
  show thesis
    by (rule that[OF sh s'(1) inv' keeps_trans[OF k s'(3)]])
qed

lemma walk_to_ok:
  assumes "release_inv s hid i (us @ cur # pre @ a # post) gs" and "\<not> marked s cur" and "\<not> marked s a"
  shows "\<exists>s'. walk_to (hid, i, a) cur s = Some (Inr s')
    \<and> release_inv s' hid i (us @ cur # filter (\<lambda>b. \<not> marked s b) pre @ a # post) (gs @ filter (marked s) pre)
    \<and> keeps s s'"
  using assms
proof (induction pre arbitrary: us cur s gs)
  case Nil
  have d: "distinct (us @ cur # a # post)"
    and c: "chain (HASH_GET_NEXT s) (head (hash_get_nth_cell s hid i)) (us @ cur # a # post) None"
    using Nil.prems(1) by (auto simp: release_inv_def new_queue_def)
  obtain lc la where "locks s cur = Some lc" "hash lc = Some a" "locks s a = Some la"
    using c by (auto simp: chain_append HASH_GET_NEXT_def)
  then show ?case
    using Nil d by (subst walk_to.simps, subst walk_to.simps) (auto simp: marked_def)
next
  case (Cons n pre)
  have d: "distinct (us @ cur # n # pre @ a # post)"
    and c: "chain (HASH_GET_NEXT s) (head (hash_get_nth_cell s hid i)) (us @ cur # n # pre @ a # post) None"
    using Cons.prems(1) by (auto simp: release_inv_def new_queue_def)
  obtain lc ln where l: "locks s cur = Some lc" "hash lc = Some n" "locks s n = Some ln" "hash ln \<noteq> None"
    using c by (cases pre) (auto simp: chain_append HASH_GET_NEXT_def)
  have cur: "cur \<noteq> a" "state lc"
    using d l(1) Cons.prems(2) by (auto simp: marked_def)
  show ?case
  proof (cases "marked s n")
    case False
    have "walk_to (hid, i, a) cur s = walk_to (hid, i, a) n s"
      using l cur False by (subst walk_to.simps) (simp add: marked_def)
    then show ?thesis
      using Cons.IH[of s "us @ [cur]" n gs] Cons.prems False by simp
  next
    case True
    obtain s1 s2 where s2: "set_hash cur (hash ln) s = Some s1" "gclist_append n s1 = Some s2"
      "release_inv s2 hid i (us @ cur # pre @ a # post) (gs @ [n])" "keeps s s2"
      using unlink_inv[of s hid i us cur n "pre @ a # post" gs ln] Cons.prems(1) l(3) by auto
    have "walk_to (hid, i, a) cur s = walk_to (hid, i, a) cur s2"
      using l cur True s2(1,2) by (subst walk_to.simps) (auto simp: marked_def)
    moreover obtain s' where "walk_to (hid, i, a) cur s2 = Some (Inr s')"
      "release_inv s' hid i (us @ cur # filter (\<lambda>b. \<not> marked s b) pre @ a # post) (gs @ n # filter (marked s) pre)"
      "keeps s2 s'"
      using Cons.IH[OF s2(3)] Cons.prems(2,3) keeps_marked[OF s2(4)] by auto
    ultimately show ?thesis
      using True keeps_trans[OF s2(4)] by auto
  qed
qed

lemma walk_to_absent:
  assumes "chain (HASH_GET_NEXT s) (Some cur) (cur # rest) None" and "distinct (cur # rest)" and "a \<notin> set (cur # rest)"
  shows "walk_to (hid, i, a) cur s \<in> {None, Some (Inl Assertion)}"
  using assms
proof (induction rest arbitrary: cur s)
  case Nil
  then show ?case
    by (subst walk_to.simps) (auto simp: HASH_GET_NEXT_def)
next
  case (Cons n rest)
  obtain lc ln where l: "locks s cur = Some lc" "hash lc = Some n" "locks s n = Some ln"
    and c: "chain (HASH_GET_NEXT s) (hash ln) rest None" "chain (HASH_GET_NEXT s) (Some n) (n # rest) None"
    using Cons.prems(1) by (auto simp: HASH_GET_NEXT_def[of s cur] HASH_GET_NEXT_def[of s n])
  have n: "walk_to (hid, i, a) n s \<in> {None, Some (Inl Assertion)}"
    using Cons.IH[OF c(2)] Cons.prems(2,3) by simp
  have unlinked: "walk_to (hid, i, a) cur s2 \<in> {None, Some (Inl Assertion)}"
    if "set_hash cur (hash ln) s = Some s1" and "gclist_append n s1 = Some s2" for s1 s2
  proof -
    have s1: "s1 = upd_lock cur (lc\<lparr>hash := hash ln\<rparr>) s"
      using that(1) l(1) by (simp add: set_hash_def)
    have "HASH_GET_NEXT s2 = HASH_GET_NEXT s1"
      using append_exists[OF _ that(2)] s1 l(3) by (cases "n = cur") auto
    moreover have "HASH_GET_NEXT s1 = (HASH_GET_NEXT s)(cur := Some (hash ln))"
      by (auto simp: s1 HASH_GET_NEXT_def)
    ultimately have "chain (HASH_GET_NEXT s2) (Some cur) (cur # rest) None"
      using c(1) Cons.prems(2) by simp
    then show ?thesis
      using Cons.IH Cons.prems(2,3) by simp
  qed
  show ?case
    using l n unlinked Cons.prems(3) by (subst walk_to.simps) (auto split: bind_splits)
qed

text \<open>The list a release leaves, and the locks it moves to the garbage.\<close>

definition rest_queue :: "lock_sys \<Rightarrow> addr \<Rightarrow> addr list \<Rightarrow> addr list" where
  "rest_queue s a xs = filter (\<lambda>b. \<not> marked s b) (takeWhile (\<lambda>b. b \<noteq> a) xs) @ dropWhile (\<lambda>b. b \<noteq> a) xs"

definition new_garbage :: "lock_sys \<Rightarrow> addr \<Rightarrow> addr list \<Rightarrow> addr list" where
  "new_garbage s a xs = filter (marked s) (takeWhile (\<lambda>b. b \<noteq> a) xs)"

lemma unlink_before:
  assumes inv: "release_inv s hid i xs gs" and a: "a \<in> set xs" "\<not> marked s a"
  obtains cur s2 s3 where "drop_marked (hid, i) s = Some (cur, s2)" and "walk_to (hid, i, a) cur s2 = Some (Inr s3)"
    and "release_inv s3 hid i (rest_queue s a xs) (gs @ new_garbage s a xs)" and "keeps s s3"
proof -
  obtain pre post where xs: "xs = pre @ a # post" and ap: "a \<notin> set pre"
    using split_list_first[OF a(1)] by blast
  have tw: "takeWhile (\<lambda>b. b \<noteq> a) xs = pre" and dw: "dropWhile (\<lambda>b. b \<noteq> a) xs = a # post"
    using ap by (auto simp: xs takeWhile_append dropWhile_append)
  define ms vs where "ms = takeWhile (marked s) pre" and "vs = dropWhile (marked s) pre"
  have split: "pre = ms @ vs" by (simp add: ms_def vs_def)
  have ms: "\<And>m. m \<in> set ms \<Longrightarrow> marked s m" by (auto simp: ms_def dest: set_takeWhileD)
  have rq: "rest_queue s a xs = filter (\<lambda>b. \<not> marked s b) vs @ a # post"
    and ng: "new_garbage s a xs = ms @ filter (marked s) vs"
    using ms by (auto simp: rest_queue_def new_garbage_def tw dw split)
  show thesis
  proof (cases vs)
    case Nil
    have "release_inv s hid i (ms @ a # post) gs" using inv by (simp add: xs split Nil)
    from drop_marked_ok[OF this ms a(2)]
    obtain s2 where s2: "drop_marked (hid, i) s = Some (a, s2)" "release_inv s2 hid i (a # post) (gs @ ms)" "keeps s s2"
      by auto
    have w: "walk_to (hid, i, a) a s2 = Some (Inr s2)" by (subst walk_to.simps) simp
    show thesis
      by (rule that[OF s2(1) w]) (use s2 in \<open>simp_all add: rq ng Nil\<close>)
  next
    case (Cons c ws)
    have nc: "\<not> marked s c"
      using Cons hd_dropWhile[of "marked s" pre] by (simp add: vs_def)
    have "release_inv s hid i (ms @ c # ws @ a # post) gs" using inv by (simp add: xs split Cons)
    from drop_marked_ok[OF this ms nc]
    obtain s2 where s2: "drop_marked (hid, i) s = Some (c, s2)" "release_inv s2 hid i ([] @ c # ws @ a # post) (gs @ ms)" "keeps s s2"
      by auto
    obtain s3 where s3: "walk_to (hid, i, a) c s2 = Some (Inr s3)"
      "release_inv s3 hid i (c # filter (\<lambda>b. \<not> marked s b) ws @ a # post) ((gs @ ms) @ filter (marked s) ws)"
      "keeps s2 s3"
      using walk_to_ok[OF s2(2)] nc a(2) keeps_marked[OF s2(3)] by auto
    show thesis
      by (rule that[OF s2(1) s3(1)]) (use s3 nc keeps_trans[OF s2(3)] in \<open>simp_all add: rq ng Cons\<close>)
  qed
qed

lemma inv_cong:
  assumes "hashes s' = hashes s" and "locks s' = locks s" and "gclist_head s' = gclist_head s"
    and "gclist_tail s' = gclist_tail s"
  shows "release_inv s' = release_inv s"
proof -
  have "hash_get_nth_cell s' = hash_get_nth_cell s" "HASH_GET_NEXT s' = HASH_GET_NEXT s" "gc_next s' = gc_next s"
    using assms cell_cong by (auto simp: HASH_GET_NEXT_def gc_next_def fun_eq_iff)
  then show ?thesis
    using assms by (intro ext) (simp add: release_inv_def new_queue_def gc_queue_def)
qed

lemma inv_mark:
  assumes "release_inv s hid i xs gs" and "locks s a = Some l"
  shows "release_inv (upd_lock a (l\<lparr>state := False\<rparr>) s) hid i xs gs"
proof -
  let ?s = "upd_lock a (l\<lparr>state := False\<rparr>) s"
  have "HASH_GET_NEXT ?s = HASH_GET_NEXT s" "gc_next ?s = gc_next s" "hash_get_nth_cell ?s = hash_get_nth_cell s"
    using assms(2) cell_cong(1)[of ?s s] by (auto simp: HASH_GET_NEXT_def gc_next_def fun_eq_iff)
  with assms(1) show ?thesis
    by (simp add: release_inv_def new_queue_def gc_queue_def)
qed

lemma absent_stops:
  assumes inv: "release_inv s hid i xs gs" and a: "a \<notin> set xs" and h: "drop_marked (hid, i) s = Some (cur, s2)"
  shows "walk_to (hid, i, a) cur s2 \<in> {None, Some (Inl Assertion)}"
proof -
  have "\<exists>b \<in> set xs. \<not> marked s b"
    using drop_marked_all[of s hid i xs] inv h by (auto simp: release_inv_def new_queue_def)
  then obtain ms c ys where xs: "xs = ms @ c # ys" and "\<not> marked s c" and "\<And>m. m \<in> set ms \<Longrightarrow> marked s m"
    using split_list_first_prop[of xs "\<lambda>b. \<not> marked s b"] by metis
  then have s2: "release_inv s2 hid i (c # ys) (gs @ ms)" and "cur = c"
    using drop_marked_ok[of s hid i ms c ys gs] inv h by auto
  have "chain (HASH_GET_NEXT s2) (Some c) (c # ys) None" and "distinct (c # ys)"
    using s2 by (auto simp: release_inv_def new_queue_def)
  from walk_to_absent[OF this] show ?thesis
    using a \<open>cur = c\<close> by (simp add: xs)
qed

lemma uncount_simps [simp]:
  "release_inv (uncount_rec_lock ix s) = release_inv s"
  "marked (uncount_rec_lock ix s) = marked s" "cell_of (uncount_rec_lock ix s) = cell_of s"
  "locks (uncount_rec_lock ix s) = locks s" "hash_get_nth_cell (uncount_rec_lock ix s) = hash_get_nth_cell s"
  by (rule inv_cong, simp_all add: uncount_rec_lock_def marked_def[abs_def] cell_of_def[abs_def] hash_get_nth_cell_def[abs_def])

lemma release_present:
  assumes inv: "release_inv s hid i xs gs" and l: "locks s a = Some l"
    and hid: "hid = lock_hash_get (type_mode l)" "i = cell_of s hid (rec_space l) (rec_page_no l)"
    and a: "a \<in> set xs" "state l"
  shows "\<exists>s'. project4_lock_rec_dequeue_from_page a s = Some (Inr s')
    \<and> release_inv s' hid i (rest_queue s a xs) (gs @ new_garbage s a xs)
    \<and> (\<forall>b. marked s' b = (b = a \<or> marked s b))"
proof -
  let ?s1 = "uncount_rec_lock (index l) s"
  obtain cur s2 s3 where r: "drop_marked (hid, i) ?s1 = Some (cur, s2)" "walk_to (hid, i, a) cur s2 = Some (Inr s3)"
    "release_inv s3 hid i (rest_queue s a xs) (gs @ new_garbage s a xs)" "keeps ?s1 s3"
    using unlink_before[of ?s1 hid i xs gs a] inv l a by (auto simp: marked_def rest_queue_def new_garbage_def)
  have "map_option core (locks s3 a) = Some (core l)"
    using r(4) l by (simp add: keeps_def)
  then obtain l3 where l3: "locks s3 a = Some l3" by auto
  let ?s' = "upd_trx (trx l) (\<lambda>t. t\<lparr>trx_locks := remove1 a (trx_locks t)\<rparr>) (upd_lock a (l3\<lparr>state := False\<rparr>) s3)"
  have "head (hash_get_nth_cell s hid i) \<noteq> None"
    using inv a(1) by (cases xs) (auto simp: release_inv_def new_queue_def)
  then have "project4_lock_rec_dequeue_from_page a s = Some (Inr ?s')"
    using r(1,2) l3 l by (auto simp: project4_lock_rec_dequeue_from_page_def Let_def hid)
  moreover have "release_inv ?s' = release_inv (upd_lock a (l3\<lparr>state := False\<rparr>) s3)"
    by (rule inv_cong) (simp_all add: upd_trx_def)
  moreover have "marked ?s' b = (b = a \<or> marked s b)" for b
    using keeps_marked[OF r(4)] by (simp add: marked_def fun_eq_iff)
  ultimately show ?thesis
    using inv_mark[OF r(3) l3] by simp
qed

lemma release_absent:
  assumes inv: "release_inv s hid i xs gs" and l: "locks s a = Some l"
    and hid: "hid = lock_hash_get (type_mode l)" "i = cell_of s hid (rec_space l) (rec_page_no l)"
    and a: "a \<notin> set xs"
  shows "project4_lock_rec_dequeue_from_page a s \<in> {None, Some (Inl Assertion)}"
proof -
  have "walk_to (hid, i, a) cur s2 \<in> {None, Some (Inl Assertion)}"
    if "drop_marked (hid, i) (uncount_rec_lock (index l) s) = Some (cur, s2)" for cur s2
    using absent_stops[OF _ a that] inv by simp
  then show ?thesis
    using l by (auto simp: project4_lock_rec_dequeue_from_page_def Let_def hid split: option.splits bind_splits)
qed

text \<open>
  C37: A release refines a release on lists.  It unlinks exactly the marked locks before the one
  released, appends them in order to the list of garbage, marks the lock and takes it off
  the list of its transaction.  A lock that is not in the new chain (every lock the original
  request path creates) is never released: the server stops at an assertion or runs into an
  invalid access.
\<close>

theorem release_refines_lists:
  assumes "release_inv s hid i xs gs" and "locks s a = Some l"
    and "hid = lock_hash_get (type_mode l)" and "i = cell_of s hid (rec_space l) (rec_page_no l)"
  shows "(a \<in> set xs \<and> state l \<longrightarrow>
      (\<exists>s'. project4_lock_rec_dequeue_from_page a s = Some (Inr s')
        \<and> release_inv s' hid i (rest_queue s a xs) (gs @ new_garbage s a xs)
        \<and> (\<forall>b. marked s' b = (b = a \<or> marked s b))))
    \<and> (a \<notin> set xs \<longrightarrow> project4_lock_rec_dequeue_from_page a s \<in> {None, Some (Inl Assertion)})"
  using release_present[OF assms] release_absent[OF assms] by blast

definition two_locks :: lock_sys where
  "two_locks = set_cell rec_hash 0 (\<lambda>c. c\<lparr>head := Some 5, tail := Some 6\<rparr>)
     (upd_lock 5 ((sample_lock 1 (2 OR LOCK_REC))\<lparr>hash := Some 6, state := False\<rparr>)
       (upd_lock 6 (sample_lock 2 (2 OR LOCK_REC)) empty_sys))"

theorem release_refines_lists_witness:
  "\<exists>s'. project4_lock_rec_dequeue_from_page 6 two_locks = Some (Inr s') \<and> release_inv s' rec_hash 0 [6] [5]"
proof -
  have "release_inv two_locks rec_hash 0 [5, 6] []"
    by (simp add: release_inv_def new_queue_def gc_queue_def two_locks_def HASH_GET_NEXT_def gc_next_def sample_lock_def)
      (simp add: empty_sys_def)
  moreover have "locks two_locks 6 = Some (sample_lock 2 (2 OR LOCK_REC))"
    by (simp add: two_locks_def)
  moreover have "rec_hash = lock_hash_get (type_mode (sample_lock 2 (2 OR LOCK_REC)))" by code_simp
  moreover have "0 = cell_of two_locks rec_hash (rec_space (sample_lock 2 (2 OR LOCK_REC)))
      (rec_page_no (sample_lock 2 (2 OR LOCK_REC)))" by code_simp
  moreover have "rest_queue two_locks 6 [5, 6] = [6]" "new_garbage two_locks 6 [5, 6] = [5]" by code_simp+
  moreover have "state (sample_lock 2 (2 OR LOCK_REC))" by code_simp
  ultimately show ?thesis
    using release_refines_lists[of two_locks rec_hash 0 "[5, 6]" "[]" 6 "sample_lock 2 (2 OR LOCK_REC)"] by auto
qed

subsection \<open>The garbage pass\<close>

lemma chain_free:
  assumes "a \<notin> set gs"
  shows "chain (gc_next (free_lock a s)) p gs q = chain (gc_next s) p gs q"
  by (rule chain_cong) (use assms in \<open>auto simp: gc_next_def free_lock_def\<close>)

definition old_lock :: "nat \<Rightarrow> lock_sys \<Rightarrow> addr \<Rightarrow> bool" where
  "old_lock m s a = (case locks s a of None \<Rightarrow> False | Some l \<Rightarrow> timestamp l < m)"

lemma old_free [simp]: "b \<noteq> a \<Longrightarrow> old_lock m (free_lock a s) b = old_lock m s b"
  by (simp add: old_lock_def free_lock_def)

lemma free_simps [simp]:
  "gclist_head (free_lock a s) = gclist_head s" "gclist_tail (free_lock a s) = gclist_tail s"
  "locks (free_lock a s) b = (if b = a then None else locks s b)"
  by (simp_all add: free_lock_def)

text \<open>Taking the lock \<open>g\<close> out of the list: it is the head, or \<open>prev\<close> is linked past it.\<close>

definition unlink_gc :: "addr list \<Rightarrow> addr \<Rightarrow> lock_t \<Rightarrow> lock_sys \<Rightarrow> lock_sys" where
  "unlink_gc ks g l s = free_lock g (if ks = [] then s\<lparr>gclist_head := gc_hash l\<rparr>
     else upd_lock (last ks) ((the (locks s (last ks)))\<lparr>gc_hash := gc_hash l\<rparr>) s)"

lemma unlink_gc_ok:
  assumes c: "chain (gc_next s) (gclist_head s) (ks @ g # gs) q" and d: "distinct (ks @ g # gs)"
    and l: "locks s g = Some l"
  shows "chain (gc_next (unlink_gc ks g l s)) (gclist_head (unlink_gc ks g l s)) (ks @ gs) q"
    and "a \<noteq> g \<Longrightarrow> old_lock m (unlink_gc ks g l s) a = old_lock m s a"
    and "gclist_tail (unlink_gc ks g l s) = gclist_tail s"
    and "locks (unlink_gc ks g l s) a = None \<longleftrightarrow> locks s a = None \<or> a = g"
proof -
  have last: "ks \<noteq> [] \<Longrightarrow> locks s (last ks) \<noteq> None"
    using c chain_alloc[OF c, of "last ks"] by (auto simp: gc_next_def)
  then show "a \<noteq> g \<Longrightarrow> old_lock m (unlink_gc ks g l s) a = old_lock m s a"
    and "gclist_tail (unlink_gc ks g l s) = gclist_tail s"
    and "locks (unlink_gc ks g l s) a = None \<longleftrightarrow> locks s a = None \<or> a = g"
    by (auto simp: unlink_gc_def old_lock_def split: option.splits)
  show "chain (gc_next (unlink_gc ks g l s)) (gclist_head (unlink_gc ks g l s)) (ks @ gs) q"
  proof (cases ks rule: rev_cases)
    case Nil
    have "gc_next (s\<lparr>gclist_head := gc_hash l\<rparr>) = gc_next s" by (simp add: gc_next_def fun_eq_iff)
    with c d l Nil show ?thesis
      by (auto simp: unlink_gc_def chain_free gc_next_def[of s g])
  next
    case (snoc ys b)
    obtain lb where lb: "locks s b = Some lb" using last snoc by auto
    let ?s = "upd_lock b (lb\<lparr>gc_hash := gc_hash l\<rparr>) s"
    have "gc_next ?s = (gc_next s)(b := Some (gc_hash l))" by (auto simp: gc_next_def)
    then have "chain (gc_next ?s) (gclist_head s) (ks @ gs) q"
      using c d l snoc by (auto simp: chain_append gc_next_def[of s g])
    then show ?thesis
      using d snoc lb by (simp add: unlink_gc_def chain_free)
  qed
qed

text \<open>
  The pass with \<open>ks\<close> the locks kept so far (the last of them is \<open>prev\<close>) and \<open>gs\<close> still to come.
\<close>

lemma gc_loop_ok:
  assumes "chain (gc_next s) (gclist_head s) (ks @ gs @ [z]) q" and "distinct (ks @ gs @ [z])"
  shows "\<exists>s'. gc_loop (m, Some z) (if ks = [] then p else Some (last ks), Some (hd (gs @ [z]))) s = Some s'
    \<and> chain (gc_next s') (gclist_head s') (ks @ filter (\<lambda>a. \<not> old_lock m s a) gs @ [z]) q
    \<and> gclist_tail s' = gclist_tail s
    \<and> (\<forall>a. locks s' a = None \<longleftrightarrow> locks s a = None \<or> a \<in> set (filter (old_lock m s) gs))"
  using assms
proof (induction gs arbitrary: ks s p)
  case Nil
  then show ?case by (subst gc_loop.simps) auto
next
  case (Cons g gs)
  obtain l where l: "locks s g = Some l" and nx: "gc_hash l = Some (hd (gs @ [z]))"
    using Cons.prems(1) by (cases gs) (auto simp: chain_append gc_next_def)
  have gz: "g \<noteq> z" using Cons.prems(2) by auto
  have hd: "gclist_head s = Some g \<longleftrightarrow> ks = []"
    using Cons.prems by (cases ks) auto
  show ?case
  proof (cases "old_lock m s g")
    case False
    then have "gc_loop (m, Some z) (if ks = [] then p else Some (last ks), Some g) s
        = gc_loop (m, Some z) (Some g, Some (hd (gs @ [z]))) s"
      using l nx gz by (subst gc_loop.simps) (simp add: old_lock_def)
    then show ?thesis
      using Cons.IH[of s "ks @ [g]" p] Cons.prems False by simp
  next
    case True
    let ?s = "unlink_gc ks g l s"
    have step: "gc_loop (m, Some z) (if ks = [] then p else Some (last ks), Some g) s
        = gc_loop (m, Some z) (if ks = [] then p else Some (last ks), Some (hd (gs @ [z]))) ?s"
      using True l nx gz hd chain_alloc[OF Cons.prems(1), of "last ks"]
      by (subst gc_loop.simps) (auto simp: old_lock_def unlink_gc_def set_gc_hash_def gc_next_def)
    have u: "chain (gc_next ?s) (gclist_head ?s) (ks @ gs @ [z]) q"
      using unlink_gc_ok(1)[of s ks g "gs @ [z]" q l] Cons.prems l by simp
    have f: "filter P gs = filter P' gs" if "\<And>a. a \<noteq> g \<Longrightarrow> P a = P' a" for P P' :: "addr \<Rightarrow> bool"
    proof (rule filter_cong[OF refl])
      fix x assume "x \<in> set gs"
      then have "x \<noteq> g" using Cons.prems(2) by auto
      then show "P x = P' x" by (rule that)
    qed
    have old: "\<And>a. a \<noteq> g \<Longrightarrow> old_lock m ?s a = old_lock m s a"
      and loc: "\<And>a. locks ?s a = None \<longleftrightarrow> locks s a = None \<or> a = g" and tl: "gclist_tail ?s = gclist_tail s"
      using unlink_gc_ok(2-4)[of s ks g "gs @ [z]" q l] Cons.prems l by auto
    have "filter (old_lock m ?s) gs = filter (old_lock m s) gs"
      "filter (\<lambda>a. \<not> old_lock m ?s a) gs = filter (\<lambda>a. \<not> old_lock m s a) gs"
      by (rule f; simp add: old)+
    then show ?thesis
      using Cons.IH[OF u, of p] Cons.prems(2) True loc tl step by auto
  qed
qed

lemma min_loop_ok:
  assumes "chain (\<lambda>t. Some (next_trx (v t))) p ts None"
  shows "\<exists>m. min_loop v p k = Some m \<and> (\<forall>n. n < m \<longleftrightarrow> n < k \<and> (\<forall>t \<in> set ts. live (v t) \<longrightarrow> n < stamp (v t)))"
  using assms
proof (induction ts arbitrary: p k)
  case Nil
  then show ?case by (subst min_loop.simps) simp
next
  case (Cons t ts)
  let ?k = "if live (v t) \<and> stamp (v t) < k then stamp (v t) else k"
  from Cons.IH[of "next_trx (v t)" ?k] Cons.prems obtain m where
    "min_loop v (next_trx (v t)) ?k = Some m"
    "\<forall>n. n < m \<longleftrightarrow> n < ?k \<and> (\<forall>t \<in> set ts. live (v t) \<longrightarrow> n < stamp (v t))" by auto
  with Cons.prems show ?case
    by (subst min_loop.simps) (auto split: if_splits)
qed

text \<open>A lock may go if it is older than every live transaction the search visits.\<close>

definition freeable :: "(addr \<Rightarrow> trx_view) \<Rightarrow> addr list \<Rightarrow> lock_sys \<Rightarrow> addr \<Rightarrow> bool" where
  "freeable v ts s a = (case locks s a of None \<Rightarrow> False
     | Some l \<Rightarrow> timestamp l < ULINT_MAX \<and> (\<forall>t \<in> set ts. live (v t) \<longrightarrow> timestamp l < stamp (v t)))"

text \<open>
  C38: The garbage pass ends.  It frees exactly the locks on the list of garbage, the last one
  excepted, that are older than every active or committing transaction its search visits, and keeps the others
  in their order; no other lock is freed.
\<close>

theorem collect_garbage_exact:
  assumes "gc_queue s (gs @ [z])" and "chain (\<lambda>t. Some (next_trx (v t))) first ts None"
  shows "\<exists>s'. collect_garbage v first s = Some s'
    \<and> gc_queue s' (filter (\<lambda>a. \<not> freeable v ts s a) gs @ [z])
    \<and> (\<forall>a. locks s' a = None \<longleftrightarrow> locks s a = None \<or> (a \<in> set gs \<and> freeable v ts s a))"
proof -
  obtain m where m: "min_loop v first ULINT_MAX = Some m"
    and less: "\<And>n. n < m \<longleftrightarrow> n < ULINT_MAX \<and> (\<forall>t \<in> set ts. live (v t) \<longrightarrow> n < stamp (v t))"
    using min_loop_ok[OF assms(2)] by blast
  have old: "old_lock m s = freeable v ts s"
    by (auto simp: fun_eq_iff old_lock_def freeable_def less split: option.split)
  have hd: "gclist_head s = Some (hd (gs @ [z]))"
    using assms(1) by (cases gs) (auto simp: gc_queue_def)
  have "chain (gc_next s) (gclist_head s) ([] @ gs @ [z]) None" and "distinct ([] @ gs @ [z])"
    using assms(1) by (simp_all add: gc_queue_def)
  from gc_loop_ok[OF this, of m None] obtain s' where
    "gc_loop (m, Some z) (None, Some (hd (gs @ [z]))) s = Some s'"
    "chain (gc_next s') (gclist_head s') (filter (\<lambda>a. \<not> freeable v ts s a) gs @ [z]) None"
    "gclist_tail s' = gclist_tail s"
    "\<forall>a. locks s' a = None \<longleftrightarrow> locks s a = None \<or> a \<in> set (filter (freeable v ts s) gs)"
    by (auto simp: old)
  then show ?thesis
    using assms(1) m hd by (auto simp: collect_garbage_def gc_queue_def)
qed

definition three_dead :: lock_sys where
  "three_dead = (upd_lock 5 ((sample_lock 1 34)\<lparr>gc_hash := Some 6, timestamp := 3\<rparr>)
     (upd_lock 6 ((sample_lock 1 34)\<lparr>gc_hash := Some 7, timestamp := 9\<rparr>)
       (upd_lock 7 ((sample_lock 1 34)\<lparr>timestamp := 2\<rparr>) empty_sys)))\<lparr>gclist_head := Some 5, gclist_tail := Some 7\<rparr>"

definition one_trx :: "addr \<Rightarrow> trx_view" where
  "one_trx t = \<lparr>live = True, stamp = 8, next_trx = None\<rparr>"

theorem collect_garbage_exact_witness:
  "\<exists>s'. collect_garbage one_trx (Some 1) three_dead = Some s' \<and> gc_queue s' [6, 7] \<and> locks s' 5 = None"
proof -
  have "gc_queue three_dead ([5, 6] @ [7])"
    by (simp add: gc_queue_def three_dead_def gc_next_def sample_lock_def upd_lock_def)
  moreover have "chain (\<lambda>t. Some (next_trx (one_trx t))) (Some 1) [1] None"
    by (simp add: one_trx_def)
  moreover have "\<not> freeable one_trx [1] three_dead 6" "freeable one_trx [1] three_dead 5"
    by (simp_all add: freeable_def three_dead_def one_trx_def upd_lock_def ULINT_MAX_def)
  ultimately show ?thesis
    using collect_garbage_exact[of three_dead "[5, 6]" 7 one_trx "Some 1" "[1]"] by auto
qed

end
