(* ===== verification/Spec2Isabelle.thy ===== *)
theory Spec2Isabelle
  imports Coarse_List Fine_List Optimistic_List List_Template Ring_Queue Unbounded_Queue Kmp_Search
    Trie_Search Word_Server
    Primes Counting Cond_Primes Timers Transactions Snapshot Lock_Release
begin

text \<open>
  A verification of the programs of a course on multi-core programming: fourteen labs and four
  projects in C++, the last of them a change to the lock manager of MariaDB.  The programs are
  independent of each other; inside a program the parts interact as described below.

  \<^bold>\<open>How code becomes definitions.\<close>  Sequential code is a function on an explicit state; a memory
  access that can fail gives a sum type (\<open>fault + 'a\<close>), a loop that may run for ever is a
  \<open>partial_function (option)\<close>.  Concurrent code is a step relation on a state with one
  program counter per thread; one step is one access to shared memory, one operation on a mutex or one
  atomic instruction.  A mutex is its owner, a spin lock or busy wait is a step that is only
  possible when the condition holds or one that goes back to its own start.  \<open>malloc\<close>, random draws,
  the contents of uninitialised memory and the thread pool of Boost are arguments.  Integers are
  unbounded where the program cannot get near the limit, and 8, 32 or 64 bit words where the bits matter.

  \<^bold>\<open>Prelude\<close> has the collections of lemmas, linked lists in memory (\<open>chain\<close>), reachability and runs, and the three
  interfaces \<open>safety\<close>, \<open>ranked\<close> and \<open>simulation\<close>, which every concurrent program interprets.

  \<^bold>\<open>Concurrent lists (lab11).\<close>  \<open>Set_Spec\<close>: the abstract set and its operations, the final
  check of the list against the expected keys.  \<open>Coarse_List\<close> (coarse_grained.cpp), \<open>Locked_List\<close> (nodes with mutexes, shared by
  the next two), \<open>Fine_List\<close> (fine_grained.cpp), \<open>Optimistic_List\<close> (optimistic.cpp), \<open>List_Template\<close>
  (list_template.cpp).  Shown: each list is linearizable to the set (the coarse one for every
  order of the operations), no access outside allocated memory, some thread can
  always move until all have ended; the coarse list loses its tail sentinel when INT_MAX is removed,
  the sentinels' uninitialised mutexes can stop the optimistic list, the template accepts an empty list.

  \<^bold>\<open>Concurrent queues.\<close>  \<open>Ring_Queue\<close> (lab13/queue_giantlock.cpp), \<open>Unbounded_Queue\<close>
  (lab14/queue_unbounded.cpp).  Shown: what is dequeued was enqueued; producers of the ring
  queue can wait for ever; the unbounded queue never enqueues anything.

  \<^bold>\<open>Word search (project1).\<close>  \<open>Kmp_Search\<close> (kmp_solution/ref_solution.cpp: failure function and search),
  \<open>Trie_Search\<close> (ahocorasick.h, ahocorasick.cpp: building the graph, adding, deleting and searching
  words), \<open>Word_Server\<close> (the two main programs: reading queries, adding, deleting, printing the matches).
  Shown: the search gives the first occurrence and ends; the graph keeps its
  invariant and stays in the bounds of its arrays; the two programs print the same for queries over
  the alphabet in which no word was deleted, and differ on a deleted word.

  \<^bold>\<open>Counting.\<close>  \<open>Primes\<close> (lab04/prime_mt.cpp, lab07/prime_threadgroup.cpp), \<open>Counting\<close>
  (lab02/prac_mutex.cpp, lab03/lab03_prime.cpp, lab03/lab03_simple.cpp, lab12/prac_jemalloc.cpp),
  \<open>Cond_Primes\<close> (lab04/prime_cond.cpp, on the ranges and loops of \<open>Primes\<close>), \<open>Timers\<close> (lab06/timer_async_arg.cpp,
  timer_fix_race.cpp, timer_2thread.cpp).
  Shown: the sums over the threads are the numbers of primes, the counter under the mutex is exact
  and all threads end, lab03 never prints, the allocation test frees what it allocates; the
  program with the condition variable has runs with a wrong answer and one that hangs; with a strand the timers
  always end at the limit, without one they can pass it.

  \<^bold>\<open>Transactions (project2).\<close>  \<open>Lock_Monitor\<close> (rwlock.h, record.h, lockinfo.h, monitor.cpp: reader-writer
  locks with a request queue and the search for deadlocks), \<open>Transactions\<close> (transaction.cpp, random.h, main.cpp: the
  work of a thread under the global mutex, roll back, commit).  Shown: the deadlock search ends and is exact; committed
  transactions are serializable in the order of their commit numbers; one branch is never taken;
  a livelock is reachable; too few records hang the program.

  \<^bold>\<open>Snapshot (project3).\<close>  \<open>Snapshot\<close> (stampedsnap.h, wfsnapshot.h, threadpool.cpp, main.cpp).
  Shown: every scan ends within a bound that does not depend on the other threads; a scan can return an
  array that never existed, because a copied slot loses its stamp; the pool counts its updates exactly.

  \<^bold>\<open>InnoDB locks (project4).\<close>  \<open>Lock_Modes\<close> (lock0types.h, lock0lock.h, lock0priv.h, lock0priv.ic, lock0lock.cc:
  modes, flags, matrices, bitmap, wait rules), \<open>Lock_Queue\<close> (hash cells, chains, searches, requests; the
  functions \<open>project4_...\<close> are the ones the project added), \<open>Lock_Release\<close> (the project's release of a lock and its
  garbage pass, one transaction at a time).  Shown: the wait rules mean overlap of
  what is wanted and what is protected; the matrices fit together; setting and resetting a bit are
  inverse; the original request path grants only what does not conflict, the new one grants
  an exclusive lock twice; a release unlinks exactly the marked locks before it and fails on locks of the original
  path; the garbage pass frees exactly what is older than the transactions it looks at.

  \<^bold>\<open>Bounds.\<close>  No fuel is used: functions are total by a termination proof, or partial with the
  result \<open>None\<close> for a run without end, and that they return is proved where a property says so.  Concrete
  schedules of at most some sixty steps show the faulty runs.

  \<^bold>\<open>Not modelled.\<close>  Reading and printing of files and the command line (arguments and results of the
  models).  In project4 everything of MariaDB but the lock objects, the record lock queues and the request
  path: waiting and deadlock detection, granting after a release, interleaved releases, table lock queues, locks on page splits, the Galera
  branches that abort other transactions, and the rest of the server, which the project did not touch.
  lab05 consists of programs with planted errors and no defined result; two programs of lab06 and one of lab07 only call
  Boost; lab08, lab09 and lab10 have no code but build scripts.
\<close>

end
